(* ===== verification/Elle_Prelude.thy ===== *)
theory Elle_Prelude
  imports Main "HOL-Library.AList" "HOL-Library.Monad_Syntax"
begin

text \<open>
  Shared vocabulary of the development: the panic monad (\<^typ>\<open>'a option\<close>, with
  \<^const>\<open>None\<close> for a Rust panic), the stack view of a \<^verbatim>\<open>Vec\<close>, the saturating and
  wrapping arithmetic of \<^verbatim>\<open>u32\<close>, and the counting tables
  (\<^verbatim>\<open>FxHashMap<RuntimeRegion, u32>\<close>) as association lists. The order of such a
  list is the iteration order of the hash table; every fact below holds for all orders.
\<close>

named_theorems table_simps \<open>rewrite rules for the counting tables\<close>

section \<open>Vectors\<close>

definition vpush :: "'a list \<Rightarrow> 'a \<Rightarrow> 'a list" where
  "vpush xs x = xs @ [x]"

definition vpop :: "'a list \<Rightarrow> ('a \<times> 'a list) option" where
  "vpop xs = (if xs = [] then None else Some (last xs, butlast xs))"

lemma vpop_eq_Some [simp]: "vpop xs = Some (x, ys) \<longleftrightarrow> xs = ys @ [x]"
  by (cases xs rule: rev_cases) (auto simp: vpop_def)

lemma vpop_eq_None [simp]: "vpop xs = None \<longleftrightarrow> xs = []"
  by (simp add: vpop_def)

lemma vpop_snoc [simp]: "vpop (xs @ [x]) = Some (x, xs)"
  by simp

lemma vpop_Nil [simp]: "vpop [] = None"
  by simp

text \<open>The ids below a bound a walk has not seen yet, the measure of the stack walks.\<close>

definition unseen :: "nat \<Rightarrow> nat list \<Rightarrow> nat" where
  "unseen n seen = card ({..<n} - set seen)"

lemma unseen_less:
  "m < n \<Longrightarrow> m \<notin> set seen \<Longrightarrow> set seen' = insert m (set seen) \<Longrightarrow> unseen n seen' < unseen n seen"
  unfolding unseen_def by (rule psubset_card_mono) auto

section \<open>Machine arithmetic\<close>

definition u32_max :: nat where
  "u32_max = 4294967295"

definition sat_add32 :: "nat \<Rightarrow> nat \<Rightarrow> nat" where
  "sat_add32 a b = min (a + b) u32_max"

definition wrap_add32 :: "nat \<Rightarrow> nat \<Rightarrow> nat" where
  "wrap_add32 a b = (a + b) mod (u32_max + 1)"

section \<open>Printing numbers\<close>

definition digit_char :: "nat \<Rightarrow> char" where
  "digit_char d = (''0123456789abcdef'' ! d)"

text \<open>The digits of a number in a base between 2 and 16, as \<^verbatim>\<open>{}\<close> and \<^verbatim>\<open>{:x}\<close> print it.\<close>

function show_base :: "nat \<Rightarrow> nat \<Rightarrow> string" where
  "show_base b n =
     (if b < 2 \<or> n < b then [digit_char n]
      else show_base b (n div b) @ [digit_char (n mod b)])"
  by pat_completeness auto
termination
  by (relation "measure snd") (auto intro: div_less_dividend)

declare show_base.simps [simp del]

definition show_nat :: "nat \<Rightarrow> string" where
  "show_nat n = show_base 10 n"

definition show_hex :: "nat \<Rightarrow> string" where
  "show_hex n = ''0x'' @ show_base 16 n"

text \<open>\<^verbatim>\<open>slice::join\<close>.\<close>

fun join_with :: "string \<Rightarrow> string list \<Rightarrow> string" where
  "join_with sep [] = []"
| "join_with sep [x] = x"
| "join_with sep (x # y # ys) = x @ sep @ join_with sep (y # ys)"

section \<open>Counting tables\<close>

type_synonym table = "(nat \<times> nat) list"

definition cnt :: "table \<Rightarrow> nat \<Rightarrow> nat" where
  "cnt m k = (case map_of m k of None \<Rightarrow> 0 | Some n \<Rightarrow> n)"

definition bump :: "table \<Rightarrow> nat \<Rightarrow> table" where
  "bump m k = AList.update k (cnt m k + 1) m"

definition total :: "table \<Rightarrow> nat" where
  "total m = sum_list (map snd m)"

definition total_where :: "(nat \<Rightarrow> bool) \<Rightarrow> table \<Rightarrow> nat" where
  "total_where P m = total (filter (\<lambda>(k, n). P k) m)"

definition table_ok :: "table \<Rightarrow> bool" where
  "table_ok m \<longleftrightarrow> distinct (map fst m) \<and> (\<forall>p \<in> set m. 0 < snd p)"

text \<open>Lowering a counter by \<open>n\<close>, removing it when nothing is left.\<close>

definition lower :: "table \<Rightarrow> nat \<Rightarrow> nat \<Rightarrow> table" where
  "lower m k n =
     (case map_of m k of
        None \<Rightarrow> m
      | Some c \<Rightarrow> if n < c then AList.update k (c - n) m else AList.delete k m)"

lemma cnt_Nil [table_simps]: "cnt [] k = 0"
  by (simp add: cnt_def)

lemma cnt_Cons [table_simps]: "cnt ((j, n) # m) k = (if j = k then n else cnt m k)"
  by (simp add: cnt_def)

lemma cnt_update [table_simps]: "cnt (AList.update k v m) j = (if j = k then v else cnt m j)"
  by (simp add: cnt_def update_conv')

lemma cnt_bump [table_simps]: "cnt (bump m k) j = cnt m j + (if j = k then 1 else 0)"
  by (simp add: bump_def cnt_update)

lemma cnt_lower [table_simps]: "cnt (lower m k n) j = (if j = k then cnt m k - n else cnt m j)"
  by (auto simp: lower_def cnt_def update_conv' delete_conv' split: option.splits)

lemma table_ok_Nil [table_simps]: "table_ok []"
  by (simp add: table_ok_def)

lemma table_ok_Cons: "table_ok ((j, n) # m) \<longleftrightarrow> j \<notin> fst ` set m \<and> 0 < n \<and> table_ok m"
  by (auto simp: table_ok_def)

lemma table_ok_update: "table_ok m \<Longrightarrow> 0 < v \<Longrightarrow> table_ok (AList.update k v m)"
proof (induction m)
  case (Cons p m)
  then show ?case by (cases p) (auto simp: table_ok_Cons dom_update)
qed (simp add: table_ok_def)

lemma table_ok_bump: "table_ok m \<Longrightarrow> table_ok (bump m k)"
  by (simp add: bump_def table_ok_update)

lemma table_ok_delete: "table_ok m \<Longrightarrow> table_ok (AList.delete k m)"
  proof (induction m)
  case (Cons p m)
  then show ?case using dom_delete_subset [of k m] by (cases p) (auto simp: table_ok_Cons)
qed (simp add: table_ok_def)

lemma table_ok_lower: "table_ok m \<Longrightarrow> table_ok (lower m k n)"
  by (auto simp: lower_def table_ok_update table_ok_delete split: option.splits)

lemma table_key: "table_ok m \<Longrightarrow> k \<in> fst ` set m \<longleftrightarrow> 0 < cnt m k"
proof (induction m)
  case (Cons p m)
  obtain j n where p: "p = (j, n)" by (cases p)
  with Cons show ?case by (cases "j = k") (simp_all add: table_ok_Cons table_simps)
qed (simp add: table_simps)

lemma table_entry: "table_ok m \<Longrightarrow> (k, n) \<in> set m \<longleftrightarrow> 0 < n \<and> cnt m k = n"
proof (induction m)
  case (Cons p m)
  then show ?case by (cases p) (auto simp: table_ok_Cons table_simps image_iff)
qed (auto simp: table_simps)

lemma total_update: "table_ok m \<Longrightarrow> total (AList.update k v m) + cnt m k = total m + v"
proof (induction m)
  case (Cons p m)
  then show ?case by (cases p) (auto simp: table_ok_Cons total_def table_simps)
qed (simp add: total_def table_simps)

lemma cnt_notin: "k \<notin> fst ` set m \<Longrightarrow> cnt m k = 0"
  by (induction m) (auto simp: table_simps)

lemma total_delete: "table_ok m \<Longrightarrow> total (AList.delete k m) + cnt m k = total m"
proof (induction m)
  case (Cons p m)
  then show ?case
    by (cases p) (auto simp: table_ok_Cons total_def table_simps AList.delete_eq filter_id_conv
        dest!: cnt_notin)
qed (simp add: total_def table_simps)

lemma total_bump: "table_ok m \<Longrightarrow> total (bump m k) = total m + 1"
  using total_update [of m k "cnt m k + 1"] by (simp add: bump_def)

lemma total_lower: "table_ok m \<Longrightarrow> total (lower m k n) + min n (cnt m k) = total m"
  using total_update [of m k "cnt m k - n"] total_delete [of m k]
  by (auto simp: lower_def cnt_def split: option.splits)

lemma total_where_all: "(\<And>k. k \<in> fst ` set m \<Longrightarrow> P k) \<Longrightarrow> total_where P m = total m"
  unfolding total_where_def by (subst filter_True) force+

lemma total_zero: "table_ok m \<Longrightarrow> total m = 0 \<longleftrightarrow> m = []"
  by (cases m) (auto simp: table_ok_Cons total_def)

lemma cnt_total: "table_ok m \<Longrightarrow> cnt m k \<le> total m"
  using total_delete [of m k] by simp

section \<open>The interface of a counting table\<close>

text \<open>What the ledgers of the region store rely on: counters that are raised by one and
  lowered by any amount, a total, and an invariant both operations keep.\<close>

locale counting =
  fixes at :: "'t \<Rightarrow> 'k \<Rightarrow> nat" and up :: "'t \<Rightarrow> 'k \<Rightarrow> 't" and down :: "'t \<Rightarrow> 'k \<Rightarrow> nat \<Rightarrow> 't"
    and sum :: "'t \<Rightarrow> nat" and ok :: "'t \<Rightarrow> bool"
  assumes at_up: "at (up t k) j = at t j + (if j = k then 1 else 0)"
    and at_down: "at (down t k n) j = (if j = k then at t k - n else at t j)"
    and ok_up: "ok t \<Longrightarrow> ok (up t k)"
    and ok_down: "ok t \<Longrightarrow> ok (down t k n)"
    and sum_up: "ok t \<Longrightarrow> sum (up t k) = sum t + 1"
    and sum_down: "ok t \<Longrightarrow> sum (down t k n) + min n (at t k) = sum t"
begin

lemma at_up_all: "at (foldl up t ks) j = at t j + count_list ks j"
  by (induction ks arbitrary: t) (auto simp: at_up)

lemma ok_up_all: "ok t \<Longrightarrow> ok (foldl up t ks)"
  by (induction ks arbitrary: t) (auto simp: ok_up)

lemma sum_up_all: "ok t \<Longrightarrow> sum (foldl up t ks) = sum t + length ks"
  by (induction ks arbitrary: t) (auto simp: sum_up ok_up)

lemma up_down_at: "at (down (up t k) k 1) j = at t j"
  by (simp add: at_up at_down)

lemma up_down_sum: "ok t \<Longrightarrow> sum (down (up t k) k 1) = sum t"
  using sum_down [OF ok_up, of t k k 1] by (simp add: sum_up at_up)

lemma down_exact: "ok t \<Longrightarrow> n \<le> at t k \<Longrightarrow> sum (down t k n) + n = sum t"
  using sum_down [of t k n] by simp

lemma at_le_sum: "ok t \<Longrightarrow> at t k \<le> sum t"
  using sum_down [of t k "at t k"] by simp

end

interpretation tab: counting cnt bump lower total table_ok
  by unfold_locales (simp_all add: table_simps table_ok_bump table_ok_lower total_bump total_lower)

section \<open>Transition systems\<close>

text \<open>Histories of a component: a start state, its steps, and an invariant every step keeps.\<close>

locale transition_system =
  fixes start :: "'s \<Rightarrow> bool" and step :: "'s \<Rightarrow> 's \<Rightarrow> bool" and inv :: "'s \<Rightarrow> bool"
  assumes start_inv: "start s \<Longrightarrow> inv s"
    and step_inv: "inv s \<Longrightarrow> step s t \<Longrightarrow> inv t"
begin

lemma steps_inv:
  assumes "step\<^sup>*\<^sup>* s t" "inv s"
  shows "inv t"
  using assms by (induction rule: rtranclp_induct) (auto intro: step_inv)

lemma run_inv: "start s \<Longrightarrow> step\<^sup>*\<^sup>* s t \<Longrightarrow> inv t"
  using steps_inv start_inv by blast

end

end
