(* ===== verification/Signal_Bits.thy ===== *)
theory Signal_Bits
  imports Elle_Prelude "HOL-Library.Word"
begin

text \<open>
  Signal bit sets: \<^verbatim>\<open>SignalBits\<close> of \<^verbatim>\<open>src/value/fiber/signalbits.rs\<close>, a newtype over
  \<^verbatim>\<open>u64\<close>, and the signal constants of \<^verbatim>\<open>src/signals/mod.rs\<close> with the two boundary
  questions asked of a raised signal (\<^verbatim>\<open>squelched_bits\<close>, \<^verbatim>\<open>breaks_proof\<close>).
  The lemmas give the set reading of every operation through \<^const>\<open>bit\<close>.
\<close>

unbundle bit_operations_syntax

named_theorems bits_defs \<open>definitions of the operations on signal bits\<close>
named_theorems sig_defs \<open>definitions of the signal constants\<close>

type_synonym signal_bits = "64 word"

section \<open>SignalBits\<close>

definition EMPTY_BITS :: signal_bits where [bits_defs]:
  "EMPTY_BITS = 0"

definition ALL_BITS :: signal_bits where [bits_defs]:
  "ALL_BITS = NOT 0"

text \<open>A shift by 64 or more is masked to the width, as an unchecked build compiles it.\<close>

definition from_bit :: "nat \<Rightarrow> signal_bits" where [bits_defs]:
  "from_bit pos = push_bit (pos mod 64) 1"

definition from_i64 :: "int \<Rightarrow> signal_bits" where [bits_defs]:
  "from_i64 v = word_of_int v"

definition bits_empty :: "signal_bits \<Rightarrow> bool" where [bits_defs]:
  "bits_empty b \<longleftrightarrow> b = 0"

definition intersects :: "signal_bits \<Rightarrow> signal_bits \<Rightarrow> bool" where [bits_defs]:
  "intersects a b \<longleftrightarrow> a AND b \<noteq> 0"

definition has_bit :: "signal_bits \<Rightarrow> nat \<Rightarrow> bool" where [bits_defs]:
  "has_bit b pos \<longleftrightarrow> b AND push_bit (pos mod 64) 1 \<noteq> 0"

definition covers :: "signal_bits \<Rightarrow> signal_bits \<Rightarrow> bool" where [bits_defs]:
  "covers msk other \<longleftrightarrow> bits_empty other \<or> intersects msk other"

definition union_bits :: "signal_bits \<Rightarrow> signal_bits \<Rightarrow> signal_bits" where [bits_defs]:
  "union_bits a b = a OR b"

definition intersection_bits :: "signal_bits \<Rightarrow> signal_bits \<Rightarrow> signal_bits" where [bits_defs]:
  "intersection_bits a b = a AND b"

definition subtract_bits :: "signal_bits \<Rightarrow> signal_bits \<Rightarrow> signal_bits" where [bits_defs]:
  "subtract_bits a b = a AND NOT b"

definition complement_bits :: "signal_bits \<Rightarrow> signal_bits" where [bits_defs]:
  "complement_bits a = NOT a"

definition trailing_zeros :: "signal_bits \<Rightarrow> nat" where
  "trailing_zeros b = (case filter (\<lambda>i. bit b i) [0..<64] of [] \<Rightarrow> 64 | i # _ \<Rightarrow> i)"

section \<open>The signal constants\<close>

definition SIG_OK :: signal_bits where [sig_defs]: "SIG_OK = EMPTY_BITS"
definition SIG_ERROR :: signal_bits where [sig_defs]: "SIG_ERROR = push_bit 0 1"
definition SIG_YIELD :: signal_bits where [sig_defs]: "SIG_YIELD = push_bit 1 1"
definition SIG_DEBUG :: signal_bits where [sig_defs]: "SIG_DEBUG = push_bit 2 1"
definition SIG_RESUME :: signal_bits where [sig_defs]: "SIG_RESUME = push_bit 3 1"
definition SIG_FFI :: signal_bits where [sig_defs]: "SIG_FFI = push_bit 4 1"
definition SIG_PROPAGATE :: signal_bits where [sig_defs]: "SIG_PROPAGATE = push_bit 5 1"
definition SIG_QUERY :: signal_bits where [sig_defs]: "SIG_QUERY = push_bit 7 1"
definition SIG_HALT :: signal_bits where [sig_defs]: "SIG_HALT = push_bit 8 1"
definition SIG_IO :: signal_bits where [sig_defs]: "SIG_IO = push_bit 9 1"
definition SIG_TERMINAL :: signal_bits where [sig_defs]: "SIG_TERMINAL = push_bit 10 1"
definition SIG_EXEC :: signal_bits where [sig_defs]: "SIG_EXEC = push_bit 11 1"
definition SIG_FUEL :: signal_bits where [sig_defs]: "SIG_FUEL = push_bit 12 1"
definition SIG_SWITCH :: signal_bits where [sig_defs]: "SIG_SWITCH = push_bit 13 1"
definition SIG_WAIT :: signal_bits where [sig_defs]: "SIG_WAIT = push_bit 14 1"
definition SIG_GPU :: signal_bits where [sig_defs]: "SIG_GPU = push_bit 15 1"
definition SIG_OS_SIGNAL :: signal_bits where [sig_defs]: "SIG_OS_SIGNAL = push_bit 16 1"
definition SIG_FS :: signal_bits where [sig_defs]: "SIG_FS = push_bit 17 1"
definition SIG_NET :: signal_bits where [sig_defs]: "SIG_NET = push_bit 18 1"
definition SIG_ABORT :: signal_bits where [sig_defs]: "SIG_ABORT = union_bits SIG_ERROR SIG_TERMINAL"

definition IO_ROUND_TRIP :: signal_bits where [sig_defs]:
  "IO_ROUND_TRIP = union_bits SIG_IO SIG_ERROR"

definition VM_INTERNAL :: signal_bits where [sig_defs]:
  "VM_INTERNAL =
     union_bits (union_bits (union_bits (union_bits (union_bits (union_bits
       SIG_RESUME SIG_PROPAGATE) SIG_QUERY) SIG_TERMINAL) SIG_FUEL) SIG_SWITCH) SIG_WAIT"

definition SIG_PAUSE :: signal_bits where [sig_defs]:
  "SIG_PAUSE = SIG_FUEL"

definition squelched_bits :: "signal_bits \<Rightarrow> signal_bits \<Rightarrow> signal_bits" where
  "squelched_bits b msk =
     (if intersects b (union_bits (union_bits SIG_ERROR SIG_HALT) SIG_PAUSE) \<or> b = SIG_SWITCH
      then EMPTY_BITS else intersection_bits b msk)"

definition breaks_proof :: "signal_bits \<Rightarrow> bool" where
  "breaks_proof b \<longleftrightarrow> \<not> bits_empty b \<and> \<not> intersects b (union_bits SIG_HALT SIG_TERMINAL)"

definition CAP_MASK :: signal_bits where [sig_defs]:
  "CAP_MASK = VM_INTERNAL XOR 0xFFFFFFFFFFFFFFFF"

section \<open>The set reading\<close>

lemma bits_eqI: "(\<And>i. i < 64 \<Longrightarrow> bit (a :: signal_bits) i = bit b i) \<Longrightarrow> a = b"
  by (rule bit_word_eqI) simp

lemma bits_nonzero_iff: "(a :: signal_bits) \<noteq> 0 \<longleftrightarrow> (\<exists>i < 64. bit a i)"
  using bits_eqI[of a 0] by auto

lemma bit_union [simp]: "bit (union_bits a b) i \<longleftrightarrow> bit a i \<or> bit b i"
  by (simp add: union_bits_def bit_or_iff)

lemma bit_intersection [simp]: "bit (intersection_bits a b) i \<longleftrightarrow> bit a i \<and> bit b i"
  by (simp add: intersection_bits_def bit_and_iff)

lemma bit_subtract [simp]: "bit (subtract_bits a b) i \<longleftrightarrow> bit a i \<and> \<not> bit b i"
  by (auto simp: subtract_bits_def bit_and_iff bit_not_iff dest: bit_imp_le_length)

lemma bit_from_bit [simp]: "bit (from_bit p) i \<longleftrightarrow> i = p mod 64"
  by (auto simp: from_bit_def bit_exp_iff possible_bit_def)

lemma bits_empty_iff [simp]: "bits_empty b \<longleftrightarrow> b = 0"
  by (simp add: bits_empty_def)

lemma intersects_iff: "intersects a b \<longleftrightarrow> (\<exists>i < 64. bit a i \<and> bit b i)"
  by (simp add: intersects_def bits_nonzero_iff bit_and_iff)

lemma has_bit_iff: "has_bit b p \<longleftrightarrow> bit b (p mod 64)"
  by (auto simp: has_bit_def bits_nonzero_iff bit_and_iff bit_exp_iff possible_bit_def)

lemma covers_iff: "covers msk b \<longleftrightarrow> b = 0 \<or> (\<exists>i < 64. bit msk i \<and> bit b i)"
  by (simp add: covers_def intersects_iff)

lemma bit_sig_const:
  "bit (push_bit n 1 :: signal_bits) i \<longleftrightarrow> i = n \<and> n < 64"
  by (auto simp: bit_exp_iff possible_bit_def)

lemma bit_sig [simp]:
  "bit SIG_ERROR i \<longleftrightarrow> i = 0"
  "bit SIG_YIELD i \<longleftrightarrow> i = 1"
  "bit SIG_DEBUG i \<longleftrightarrow> i = 2"
  "bit SIG_RESUME i \<longleftrightarrow> i = 3"
  "bit SIG_FFI i \<longleftrightarrow> i = 4"
  "bit SIG_PROPAGATE i \<longleftrightarrow> i = 5"
  "bit SIG_QUERY i \<longleftrightarrow> i = 7"
  "bit SIG_HALT i \<longleftrightarrow> i = 8"
  "bit SIG_IO i \<longleftrightarrow> i = 9"
  "bit SIG_TERMINAL i \<longleftrightarrow> i = 10"
  "bit SIG_EXEC i \<longleftrightarrow> i = 11"
  "bit SIG_FUEL i \<longleftrightarrow> i = 12"
  "bit SIG_SWITCH i \<longleftrightarrow> i = 13"
  "bit SIG_WAIT i \<longleftrightarrow> i = 14"
  "bit SIG_GPU i \<longleftrightarrow> i = 15"
  "bit SIG_OS_SIGNAL i \<longleftrightarrow> i = 16"
  "bit SIG_FS i \<longleftrightarrow> i = 17"
  "bit SIG_NET i \<longleftrightarrow> i = 18"
  by (simp_all only: sig_defs bit_sig_const) auto

lemmas sig_bits = SIG_OK_def SIG_ABORT_def IO_ROUND_TRIP_def VM_INTERNAL_def SIG_PAUSE_def

end
