(* ===== verification/Signals.thy ===== *)
theory Signals
  imports Signal_Bits
begin

text \<open>
  The compile-time signal of a function (\<^verbatim>\<open>Signal\<close> of \<^verbatim>\<open>src/signals/mod.rs\<close>), its
  constructors and combinations (\<^verbatim>\<open>src/signals/constructors.rs\<close>), its display, the
  routing of a raised signal (\<^verbatim>\<open>src/signals/dispatch.rs\<close>), a closure's effective signal
  (\<^verbatim>\<open>src/value/closure.rs\<close>) and what a squelch boundary lets out
  (\<^verbatim>\<open>src/vm/core/discard.rs\<close>). The lemmas show that signals form a bounded
  semilattice, that the two routing questions agree, and how the static signal of a
  squelched closure relates to what its boundary lets out at run time.
\<close>

record signal =
  sbits :: signal_bits
  propagates :: "32 word"

named_theorems signal_defs \<open>definitions of the signal constructors\<close>

section \<open>Predicates\<close>

definition is_silent :: "signal \<Rightarrow> bool" where
  "is_silent s \<longleftrightarrow> bits_empty (sbits s) \<and> propagates s = 0"

definition may_suspend :: "signal \<Rightarrow> bool" where
  "may_suspend s \<longleftrightarrow> \<not> bits_empty (sbits s) \<or> propagates s \<noteq> 0"

definition may_yield :: "signal \<Rightarrow> bool" where
  "may_yield s \<longleftrightarrow> intersects (sbits s) SIG_YIELD"

definition may_park :: "signal \<Rightarrow> bool" where
  "may_park s \<longleftrightarrow>
     (let non_park = union_bits (union_bits SIG_ERROR SIG_HALT) SIG_FFI
      in propagates s \<noteq> 0 \<or> \<not> bits_empty (subtract_bits (sbits s) non_park))"

definition may_error :: "signal \<Rightarrow> bool" where
  "may_error s \<longleftrightarrow> intersects (sbits s) SIG_ERROR"

definition may_halt :: "signal \<Rightarrow> bool" where
  "may_halt s \<longleftrightarrow> intersects (sbits s) SIG_HALT"

definition may_ffi :: "signal \<Rightarrow> bool" where
  "may_ffi s \<longleftrightarrow> intersects (sbits s) SIG_FFI"

definition may_io :: "signal \<Rightarrow> bool" where
  "may_io s \<longleftrightarrow> intersects (sbits s) SIG_IO"

definition is_polymorphic :: "signal \<Rightarrow> bool" where
  "is_polymorphic s \<longleftrightarrow> propagates s \<noteq> 0"

definition propagated_params :: "signal \<Rightarrow> nat list" where
  "propagated_params s = filter (\<lambda>i. propagates s AND push_bit i 1 \<noteq> 0) [0..<32]"

section \<open>Constructors\<close>


definition silent :: signal where [signal_defs]:
  "silent = \<lparr>sbits = 0, propagates = 0\<rparr>"

definition errors :: signal where [signal_defs]:
  "errors = \<lparr>sbits = SIG_ERROR, propagates = 0\<rparr>"

definition yields :: signal where [signal_defs]:
  "yields = \<lparr>sbits = SIG_YIELD, propagates = 0\<rparr>"

definition yields_errors :: signal where [signal_defs]:
  "yields_errors = \<lparr>sbits = union_bits SIG_YIELD SIG_ERROR, propagates = 0\<rparr>"















definition polymorphic :: "nat \<Rightarrow> signal" where
  "polymorphic param = \<lparr>sbits = 0, propagates = push_bit (param mod 32) 1\<rparr>"

definition polymorphic_errors :: "nat \<Rightarrow> signal" where
  "polymorphic_errors param = \<lparr>sbits = SIG_ERROR, propagates = push_bit (param mod 32) 1\<rparr>"

definition combine :: "signal \<Rightarrow> signal \<Rightarrow> signal" where
  "combine s t = \<lparr>sbits = union_bits (sbits s) (sbits t), propagates = propagates s OR propagates t\<rparr>"

definition combine_all :: "signal list \<Rightarrow> signal" where
  "combine_all ss = foldl combine silent ss"

definition squelch :: "signal \<Rightarrow> signal_bits \<Rightarrow> signal" where
  "squelch s m =
     (let actually_squelched = intersection_bits (sbits s) m in
      if bits_empty actually_squelched then s
      else \<lparr>sbits = union_bits (subtract_bits (sbits s) m) SIG_ERROR, propagates = propagates s\<rparr>)"

text \<open>\<^verbatim>\<open>Closure::effective_signal\<close>: the template's signal under the closure's squelch mask.\<close>

definition effective_signal :: "signal \<Rightarrow> signal_bits \<Rightarrow> signal" where
  "effective_signal sig squelch_mask =
     (if bits_empty squelch_mask then sig
      else let template_bits = sbits sig;
               actually_squelched = intersection_bits template_bits squelch_mask
           in if bits_empty actually_squelched then sig
              else \<lparr>sbits = union_bits (subtract_bits template_bits squelch_mask) SIG_ERROR,
                    propagates = propagates sig\<rparr>)"

section \<open>Display\<close>

definition show_signal :: "signal \<Rightarrow> string" where
  "show_signal s =
     (let kind = (if propagates s \<noteq> 0
                  then ''polymorphic('' @ join_with '','' (map show_nat (propagated_params s)) @ '')''
                  else if intersects (sbits s) SIG_YIELD then ''yields''
                  else if intersects (sbits s) SIG_IO then ''io''
                  else ''silent'');
          flags = (if intersects (sbits s) SIG_ERROR then [''errors''] else [])
                @ (if intersects (sbits s) SIG_HALT then [''halts''] else [])
                @ (if intersects (sbits s) SIG_FFI then [''ffi''] else [])
                @ (if intersects (sbits s) SIG_DEBUG then [''debug''] else [])
      in kind @ (if flags = [] then [] else ''+'' @ join_with ''+'' flags))"

section \<open>Routing\<close>

datatype signal_action =
  ActOk | ActResume | ActPropagate | ActAbort | ActQuery | ActError | ActHalt | ActSuspend

text \<open>The value rides along only for its \<^verbatim>\<open>as_fiber().is_some()\<close> test.\<close>

definition classify :: "signal_bits \<Rightarrow> bool \<Rightarrow> signal_action" where
  "classify b value_is_fiber =
     (if bits_empty b then ActOk
      else if b = SIG_RESUME then ActResume
      else if b = SIG_PROPAGATE then ActPropagate
      else if b = SIG_ABORT \<and> value_is_fiber then ActAbort
      else if b = SIG_QUERY then ActQuery
      else if intersects b SIG_ERROR then ActError
      else if intersects b SIG_HALT then ActHalt
      else ActSuspend)"

definition is_suspending :: "signal_bits \<Rightarrow> bool" where
  "is_suspending b \<longleftrightarrow>
     (if bits_empty b \<or> b = SIG_RESUME \<or> b = SIG_PROPAGATE \<or> b = SIG_QUERY then False
      else \<not> intersects b SIG_ERROR \<and> \<not> intersects b SIG_HALT)"

definition parks :: "signal_bits \<Rightarrow> bool" where
  "parks b \<longleftrightarrow> intersects b SIG_ERROR \<or> is_suspending b"

text \<open>\<^verbatim>\<open>is_terminal_signal\<close> of \<^verbatim>\<open>src/vm/fiber/refcount.rs\<close>.\<close>

definition is_terminal_signal :: "signal_bits \<Rightarrow> bool" where
  "is_terminal_signal b \<longleftrightarrow> bits_empty b \<or> intersects b SIG_ERROR \<or> intersects b SIG_HALT"

section \<open>The boundary\<close>

text \<open>
  The refusal \<^verbatim>\<open>VM::boundary_violation\<close> chooses: the bits and the kind of the error it
  raises, or nothing when the signal crosses. A proof is present on a closure the compiler
  inferred silent.
\<close>

definition boundary_refusal :: "bool \<Rightarrow> signal_bits \<Rightarrow> signal_bits \<Rightarrow> (signal_bits \<times> string) option" where
  "boundary_refusal has_proof b squelch_mask =
     (if has_proof \<and> breaks_proof b then Some (union_bits SIG_ERROR SIG_TERMINAL, ''broken-proof'')
      else let squelched = squelched_bits b squelch_mask in
           if bits_empty squelched then None else Some (SIG_ERROR, ''signal-violation''))"

text \<open>The bits that leave the boundary: the refusal's, or the signal's own.\<close>

definition boundary_out :: "bool \<Rightarrow> signal_bits \<Rightarrow> signal_bits \<Rightarrow> signal_bits" where
  "boundary_out has_proof b squelch_mask =
     (case boundary_refusal has_proof b squelch_mask of None \<Rightarrow> b | Some (r, _) \<Rightarrow> r)"

text \<open>One signal allows what another does: its bits and its parameters are among the other's.\<close>

definition signal_le :: "signal \<Rightarrow> signal \<Rightarrow> bool" where
  "signal_le s t \<longleftrightarrow> subtract_bits (sbits s) (sbits t) = 0 \<and> propagates s AND NOT (propagates t) = 0"

section \<open>The semilattice of signals\<close>

lemma subtract_empty_iff: "subtract_bits a b = 0 \<longleftrightarrow> (\<forall>i < 64. bit a i \<longrightarrow> bit b i)"
proof -
  have "subtract_bits a b = 0 \<longleftrightarrow> \<not> (\<exists>i < 64. bit (subtract_bits a b) i)"
    using bits_nonzero_iff[of "subtract_bits a b"] by blast
  then show ?thesis by auto
qed

lemma and_not_zero_iff:
  fixes a b :: "32 word"
  shows "a AND NOT b = 0 \<longleftrightarrow> (\<forall>i < 32. bit a i \<longrightarrow> bit b i)"
proof -
  have "(a AND NOT b = 0) = (\<forall>i < 32. bit (a AND NOT b) i = bit (0 :: 32 word) i)"
    by (auto intro!: bit_word_eqI)
  then show ?thesis by (auto simp: bit_and_iff bit_not_iff)
qed

lemma signal_le_iff:
  "signal_le s t \<longleftrightarrow>
     (\<forall>i < 64. bit (sbits s) i \<longrightarrow> bit (sbits t) i) \<and>
     (\<forall>i < 32. bit (propagates s) i \<longrightarrow> bit (propagates t) i)"
  by (simp add: signal_le_def subtract_empty_iff and_not_zero_iff)

lemma signal_le_combine: "signal_le (combine s t) u \<longleftrightarrow> signal_le s u \<and> signal_le t u"
  by (auto simp: signal_le_iff combine_def bit_or_iff)

lemma signal_le_silent [simp]: "signal_le silent u"
  by (simp add: signal_le_iff silent_def)

lemma signal_le_foldl_combine:
  "signal_le (foldl combine s ss) u \<longleftrightarrow> signal_le s u \<and> (\<forall>t \<in> set ss. signal_le t u)"
  by (induction ss arbitrary: s) (auto simp: signal_le_combine)

text \<open>
  C24: the signal \<^verbatim>\<open>combine_all\<close> gives a sequence of expressions is the least signal that
  allows everything any of them may do: another signal allows it exactly when that signal
  allows each of them. So the order and the repetition of the parts never matter.
\<close>

theorem combine_all_least:
  "signal_le (combine_all ss) u \<longleftrightarrow> (\<forall>s \<in> set ss. signal_le s u)"
  by (simp add: combine_all_def signal_le_foldl_combine)

theorem combine_all_least_witness:
  "signal_le (combine_all [errors, yields]) yields_errors \<and>
   list_all (\<lambda>s. signal_le s yields_errors) [errors, yields]"
proof -
  have h: "\<forall>s \<in> set [errors, yields]. signal_le s yields_errors"
    by (auto simp: signal_le_iff errors_def yields_def yields_errors_def)
  then show ?thesis using combine_all_least[of "[errors, yields]" yields_errors] by (auto simp: list_all_iff)
qed

section \<open>Routing\<close>

lemma abort_is_error: "intersects SIG_ABORT SIG_ERROR"
  by (auto simp: intersects_iff sig_bits)

text \<open>
  C27: the interpreter and the JIT route a call's outcome by \<^verbatim>\<open>classify\<close>, the WASM tier asks
  \<^verbatim>\<open>is_suspending\<close>; the two agree on every bit set, whatever the value that rides along,
  and a signal parks its frame exactly when it is classified as an error, an abort or a
  suspension.
\<close>

theorem routing_agrees:
  "is_suspending b = (classify b v = ActSuspend) \<and>
   parks b = (classify b v \<in> {ActError, ActAbort, ActSuspend})"
proof -
  have e: "\<not> intersects SIG_RESUME SIG_ERROR" "\<not> intersects SIG_PROPAGATE SIG_ERROR"
    "\<not> intersects SIG_QUERY SIG_ERROR" "\<not> intersects 0 SIG_ERROR"
    by (auto simp: intersects_iff sig_bits)
  show ?thesis
    using e abort_is_error by (auto simp: is_suspending_def parks_def classify_def)
qed

section \<open>The boundary\<close>

lemma effective_signal_squelch: "effective_signal s m = squelch s m"
proof (cases "m = 0")
  case True
  then have "intersection_bits (sbits s) m = 0" by (simp add: intersection_bits_def)
  with True show ?thesis by (simp add: effective_signal_def squelch_def)
next
  case False
  then show ?thesis by (simp add: effective_signal_def squelch_def Let_def)
qed

lemma intersection_empty_iff: "intersection_bits a b = 0 \<longleftrightarrow> (\<forall>i < 64. \<not> (bit a i \<and> bit b i))"
  using bits_nonzero_iff[of "intersection_bits a b"] by auto

lemma bit_squelch:
  "i < 64 \<Longrightarrow> bit (sbits (squelch s m)) i \<longleftrightarrow>
     (bit (sbits s) i \<and> \<not> bit m i) \<or> ((\<exists>j < 64. bit (sbits s) j \<and> bit m j) \<and> i = 0)"
  by (auto simp: squelch_def Let_def intersection_empty_iff sig_bits)

text \<open>
  A signal is exempt from a squelch when it carries \<^verbatim>\<open>:error\<close>, \<^verbatim>\<open>:halt\<close> or a pause, or is
  the fiber-switch trampoline.
\<close>

definition exempt :: "signal_bits \<Rightarrow> bool" where
  "exempt b \<longleftrightarrow> intersects b (union_bits (union_bits SIG_ERROR SIG_HALT) SIG_PAUSE) \<or> b = SIG_SWITCH"

lemma squelched_bits_exempt: "squelched_bits b m = (if exempt b then 0 else intersection_bits b m)"
  by (simp add: squelched_bits_def exempt_def EMPTY_BITS_def)

text \<open>
  C25: soundness of the static signal of a squelched closure. A signal the template allows,
  raised by a closure under a squelch mask, leaves the boundary within the closure's
  effective signal, unless it is exempt from the squelch and shares a bit with the mask.
\<close>

theorem boundary_within_effective_signal:
  assumes "subtract_bits b (sbits s) = 0"
    and "\<not> (exempt b \<and> intersects b m)"
  shows "subtract_bits (boundary_out False b m) (sbits (effective_signal s m)) = 0"
  using assms
  by (auto simp: effective_signal_squelch subtract_empty_iff bit_squelch boundary_out_def
      boundary_refusal_def squelched_bits_exempt intersects_iff intersection_empty_iff sig_bits
      split: if_splits)

theorem boundary_within_effective_signal_witness:
  "boundary_out False SIG_YIELD SIG_YIELD = SIG_ERROR \<and>
   subtract_bits (boundary_out False SIG_YIELD SIG_YIELD) (sbits (effective_signal yields SIG_YIELD)) = 0"
proof -
  have a: "subtract_bits SIG_YIELD (sbits yields) = 0"
    by (simp add: subtract_empty_iff yields_def)
  have x: "\<not> exempt SIG_YIELD"
    by (auto simp: exempt_def intersects_iff sig_bits dest: arg_cong[where f = "\<lambda>w. bit w 1"])
  have o: "boundary_out False SIG_YIELD SIG_YIELD = SIG_ERROR"
    using x by (simp add: boundary_out_def boundary_refusal_def squelched_bits_exempt
        intersection_bits_def sig_defs)
  show ?thesis using o boundary_within_effective_signal[OF a, of SIG_YIELD] x by blast
qed


section \<open>Capabilities\<close>



end
