(* ===== verification/Values.thy ===== *)
theory Values
  imports Elle_Prelude Signals
begin

text \<open>
  The value representation (\<^verbatim>\<open>value/repr/mod.rs\<close>), the heap objects a value points at
  (\<^verbatim>\<open>value/heap.rs\<close>), the struct keys (\<^verbatim>\<open>value/types/key.rs\<close>) and the two tag tables that
  decide how a region tears an object down (\<^verbatim>\<open>value/fiberheap/dropsafety.rs\<close>). A heap
  object is a datatype with the constructors of \<^verbatim>\<open>HeapObject\<close>. A region slice carries its
  pointer and the items it views, which are immutable for its lifetime; a mutable store
  carries its contents and whether a write holds its borrow. A fiber is named by the number
  of its handle.
\<close>

section \<open>Values\<close>

record evalue =
  tag :: nat
  payload :: nat

definition TAG_NIL :: nat where "TAG_NIL = 2"
definition TAG_HEAP_START :: nat where "TAG_HEAP_START = 11"
definition TAG_ARRAY :: nat where "TAG_ARRAY = 12"
definition TAG_BYTES :: nat where "TAG_BYTES = 18"

definition NIL_V :: evalue where
  "NIL_V = \<lparr>tag = TAG_NIL, payload = 0\<rparr>"

definition is_heap :: "evalue \<Rightarrow> bool" where
  "is_heap v \<longleftrightarrow> TAG_HEAP_START \<le> tag v"

definition as_heap_ptr :: "evalue \<Rightarrow> nat option" where
  "as_heap_ptr v = (if is_heap v then Some (payload v) else None)"

definition from_heap_ptr :: "nat \<Rightarrow> nat \<Rightarrow> evalue" where
  "from_heap_ptr p t = \<lparr>tag = t, payload = p\<rparr>"

definition bit_identical :: "evalue \<Rightarrow> evalue \<Rightarrow> bool" where
  "bit_identical a b \<longleftrightarrow> tag a = tag b \<and> payload a = payload b"

lemma bit_identical_eq [simp]: "bit_identical a b \<longleftrightarrow> a = b"
  by (cases a; cases b) (simp add: bit_identical_def)

lemma nil_not_heap [simp]: "\<not> is_heap NIL_V" "as_heap_ptr NIL_V = None"
  by (simp_all add: is_heap_def NIL_V_def TAG_NIL_def TAG_HEAP_START_def as_heap_ptr_def)

lemma from_heap_ptr_heap [simp]:
  "as_heap_ptr (from_heap_ptr p TAG_ARRAY) = Some p" "as_heap_ptr (from_heap_ptr p TAG_BYTES) = Some p"
  by (simp_all add: as_heap_ptr_def is_heap_def from_heap_ptr_def TAG_ARRAY_def TAG_BYTES_def
      TAG_HEAP_START_def)

section \<open>Slices, stores and keys\<close>

datatype 'a region_slice = RegionSlice (slice_ptr: nat) (slice_items: "'a list")

definition slice_is_empty :: "'a region_slice \<Rightarrow> bool" where
  "slice_is_empty s \<longleftrightarrow> length (slice_items s) = 0"

datatype 'a mstore = MStore (write_running: bool) (contents: 'a)

definition try_read :: "'a mstore \<Rightarrow> 'a option" where
  "try_read s = (if write_running s then None else Some (contents s))"

datatype table_key =
    KNil
  | KBool bool
  | KInt int
  | KSymbol nat
  | KString evalue
  | KKeyword nat
  | KEmptyList
  | KArray evalue
  | KHeap evalue

fun heap_value :: "table_key \<Rightarrow> evalue option" where
  "heap_value (KString v) = Some v"
| "heap_value (KArray v) = Some v"
| "heap_value (KHeap v) = Some v"
| "heap_value KNil = None"
| "heap_value (KBool b) = None"
| "heap_value (KInt i) = None"
| "heap_value (KSymbol s) = None"
| "heap_value (KKeyword h) = None"
| "heap_value KEmptyList = None"

fun with_heap_value :: "table_key \<Rightarrow> evalue \<Rightarrow> table_key" where
  "with_heap_value (KString u) v = KString v"
| "with_heap_value (KArray u) v = KArray v"
| "with_heap_value (KHeap u) v = KHeap v"
| "with_heap_value KNil v = KNil"
| "with_heap_value (KBool b) v = KBool b"
| "with_heap_value (KInt i) v = KInt i"
| "with_heap_value (KSymbol s) v = KSymbol s"
| "with_heap_value (KKeyword h) v = KKeyword h"
| "with_heap_value KEmptyList v = KEmptyList"

definition key_heap_values :: "table_key \<Rightarrow> evalue list" where
  "key_heap_values k = (case heap_value k of None \<Rightarrow> [] | Some v \<Rightarrow> [v])"

lemma with_heap_value_reads_back:
  "heap_value (with_heap_value k v) = map_option (\<lambda>_. v) (heap_value k)"
  by (cases k) simp_all

section \<open>Heap objects\<close>

record closure =
  template :: evalue
  env :: "evalue region_slice"
  cl_squelch_mask :: "64 word"

record closure_template =
  payload_backing :: nat
  constants :: "evalue list"
  template_signal :: signal

datatype cell_origin = Runtime | Compiled (origin_name: nat) (origin_mutated: bool)

datatype heap_object =
    LString (str_slice: "nat region_slice") (obj_traits: evalue)
  | HPair (pair_first: evalue) (pair_rest: evalue) (obj_traits: evalue)
  | LArrayMut "evalue list mstore" (obj_traits: evalue)
  | LStructMut "(table_key \<times> evalue) list mstore" (obj_traits: evalue)
  | LStruct "(table_key \<times> evalue) region_slice" (obj_traits: evalue)
  | HClosure closure (obj_traits: evalue)
  | LArray "evalue region_slice" (obj_traits: evalue)
  | LStringMut "nat list mstore" (obj_traits: evalue)
  | LBytes "nat region_slice" (obj_traits: evalue)
  | LBytesMut "nat list mstore" (obj_traits: evalue)
  | LBox evalue (obj_traits: evalue)
  | CaptureCell evalue cell_origin (obj_traits: evalue)
  | HFloat nat
  | LibHandle nat
  | ThreadHandle nat (obj_traits: evalue)
  | HFiber nat (obj_traits: evalue)
  | HSyntax nat (obj_traits: evalue)
  | FFISignature nat
  | FFIType nat
  | ManagedPointer "nat option" (obj_traits: evalue)
  | External string (obj_traits: evalue)
  | Parameter nat evalue (obj_traits: evalue)
  | LSet "evalue region_slice" (obj_traits: evalue)
  | LSetMut "evalue list mstore" (obj_traits: evalue)
  | ClosureTemplate closure_template

fun traits :: "heap_object \<Rightarrow> evalue" where
  "traits (HFloat f) = NIL_V"
| "traits (LibHandle n) = NIL_V"
| "traits (FFISignature s) = NIL_V"
| "traits (FFIType t) = NIL_V"
| "traits (ClosureTemplate t) = NIL_V"
| "traits obj = obj_traits obj"


section \<open>Heap tags\<close>

datatype heap_tag =
    TLString
  | TPair
  | TLArrayMut
  | TLStructMut
  | TLStruct
  | TClosure
  | TSyntax
  | TLArray
  | TLBox
  | TFloat
  | TLibHandle
  | TThreadHandle
  | TFiber
  | TFFISignature
  | TFFIType
  | TManagedPointer
  | TLStringMut
  | TLBytes
  | TLBytesMut
  | TExternal
  | TParameter
  | TLSet
  | TLSetMut
  | TCaptureCell
  | TClosureTemplate

fun heap_tag_code :: "heap_tag \<Rightarrow> nat" where
  "heap_tag_code TLString = 0"
| "heap_tag_code TPair = 1"
| "heap_tag_code TLArrayMut = 2"
| "heap_tag_code TLStructMut = 3"
| "heap_tag_code TLStruct = 4"
| "heap_tag_code TClosure = 5"
| "heap_tag_code TSyntax = 6"
| "heap_tag_code TLArray = 7"
| "heap_tag_code TLBox = 8"
| "heap_tag_code TFloat = 9"
| "heap_tag_code TLibHandle = 12"
| "heap_tag_code TThreadHandle = 14"
| "heap_tag_code TFiber = 16"
| "heap_tag_code TFFISignature = 18"
| "heap_tag_code TFFIType = 19"
| "heap_tag_code TManagedPointer = 20"
| "heap_tag_code TLStringMut = 21"
| "heap_tag_code TLBytes = 22"
| "heap_tag_code TLBytesMut = 23"
| "heap_tag_code TExternal = 24"
| "heap_tag_code TParameter = 25"
| "heap_tag_code TLSet = 26"
| "heap_tag_code TLSetMut = 27"
| "heap_tag_code TCaptureCell = 28"
| "heap_tag_code TClosureTemplate = 29"

definition all_heap_tags :: "heap_tag list" where
  "all_heap_tags = [TLString, TPair, TLArrayMut, TLStructMut, TLStruct, TClosure,
     TSyntax, TLArray, TLBox, TFloat, TLibHandle, TThreadHandle, TFiber, TFFISignature,
     TFFIType, TManagedPointer, TLStringMut, TLBytes, TLBytesMut, TExternal, TParameter,
     TLSet, TLSetMut, TCaptureCell, TClosureTemplate]"

text \<open>The image loader's reading of a tag word: the first tag whose code it is.\<close>

definition tag_from_u64 :: "nat \<Rightarrow> heap_tag option" where
  "tag_from_u64 raw = find (\<lambda>t. heap_tag_code t = raw) all_heap_tags"

fun obj_tag :: "heap_object \<Rightarrow> heap_tag" where
  "obj_tag (LString _ _) = TLString"
| "obj_tag (HPair _ _ _) = TPair"
| "obj_tag (LArrayMut _ _) = TLArrayMut"
| "obj_tag (LStructMut _ _) = TLStructMut"
| "obj_tag (LStruct _ _) = TLStruct"
| "obj_tag (HClosure _ _) = TClosure"
| "obj_tag (LArray _ _) = TLArray"
| "obj_tag (LStringMut _ _) = TLStringMut"
| "obj_tag (LBytes _ _) = TLBytes"
| "obj_tag (LBytesMut _ _) = TLBytesMut"
| "obj_tag (LBox _ _) = TLBox"
| "obj_tag (CaptureCell _ _ _) = TCaptureCell"
| "obj_tag (HFloat _) = TFloat"
| "obj_tag (LibHandle _) = TLibHandle"
| "obj_tag (ThreadHandle _ _) = TThreadHandle"
| "obj_tag (HFiber _ _) = TFiber"
| "obj_tag (HSyntax _ _) = TSyntax"
| "obj_tag (FFISignature _) = TFFISignature"
| "obj_tag (FFIType _) = TFFIType"
| "obj_tag (ManagedPointer _ _) = TManagedPointer"
| "obj_tag (External _ _) = TExternal"
| "obj_tag (Parameter _ _ _) = TParameter"
| "obj_tag (LSet _ _) = TLSet"
| "obj_tag (LSetMut _ _) = TLSetMut"
| "obj_tag (ClosureTemplate _) = TClosureTemplate"

text \<open>The tag the allocator stamps into the value; a \<^verbatim>\<open>HeapObject::Float\<close> panics.\<close>

fun value_tag :: "heap_object \<Rightarrow> nat option" where
  "value_tag (LString _ _) = Some 26"
| "value_tag (LStringMut _ _) = Some 11"
| "value_tag (LArray _ _) = Some 12"
| "value_tag (LArrayMut _ _) = Some 13"
| "value_tag (LStruct _ _) = Some 14"
| "value_tag (LStructMut _ _) = Some 15"
| "value_tag (HPair _ _ _) = Some 16"
| "value_tag (HClosure _ _) = Some 17"
| "value_tag (LBytes _ _) = Some 18"
| "value_tag (LBytesMut _ _) = Some 19"
| "value_tag (LSet _ _) = Some 20"
| "value_tag (LSetMut _ _) = Some 21"
| "value_tag (LBox _ _) = Some 22"
| "value_tag (CaptureCell _ _ _) = Some 34"
| "value_tag (HFiber _ _) = Some 23"
| "value_tag (HSyntax _ _) = Some 24"
| "value_tag (FFISignature _) = Some 27"
| "value_tag (FFIType _) = Some 28"
| "value_tag (LibHandle _) = Some 29"
| "value_tag (ManagedPointer _ _) = Some 30"
| "value_tag (External _ _) = Some 31"
| "value_tag (Parameter _ _ _) = Some 32"
| "value_tag (ThreadHandle _ _) = Some 33"
| "value_tag (ClosureTemplate _) = Some 35"
| "value_tag (HFloat _) = None"

fun needs_drop :: "heap_tag \<Rightarrow> bool" where
  "needs_drop TPair = False"
| "needs_drop TLBox = False"
| "needs_drop TCaptureCell = False"
| "needs_drop TFloat = False"
| "needs_drop TLibHandle = False"
| "needs_drop TManagedPointer = False"
| "needs_drop TLString = True"
| "needs_drop TLStruct = True"
| "needs_drop TClosure = True"
| "needs_drop TLArray = True"
| "needs_drop TLArrayMut = False"
| "needs_drop TLStringMut = False"
| "needs_drop TLBytes = True"
| "needs_drop TLBytesMut = False"
| "needs_drop TLSetMut = False"
| "needs_drop TLStructMut = False"
| "needs_drop TSyntax = True"
| "needs_drop TFiber = True"
| "needs_drop TThreadHandle = True"
| "needs_drop TFFISignature = True"
| "needs_drop TFFIType = True"
| "needs_drop TExternal = True"
| "needs_drop TParameter = False"
| "needs_drop TLSet = True"
| "needs_drop TClosureTemplate = False"

fun holds_value_refs :: "heap_tag \<Rightarrow> bool" where
  "holds_value_refs TPair = True"
| "holds_value_refs TParameter = True"
| "holds_value_refs TClosureTemplate = True"
| "holds_value_refs TFloat = False"
| "holds_value_refs TLibHandle = False"
| "holds_value_refs TManagedPointer = False"
| "holds_value_refs TLArrayMut = True"
| "holds_value_refs TLStringMut = True"
| "holds_value_refs TLBytesMut = True"
| "holds_value_refs TLSetMut = True"
| "holds_value_refs TLStructMut = True"
| "holds_value_refs TLBox = True"
| "holds_value_refs TCaptureCell = True"
| "holds_value_refs TLString = False"
| "holds_value_refs TLStruct = False"
| "holds_value_refs TClosure = False"
| "holds_value_refs TLArray = False"
| "holds_value_refs TLBytes = False"
| "holds_value_refs TSyntax = False"
| "holds_value_refs TFiber = False"
| "holds_value_refs TThreadHandle = False"
| "holds_value_refs TFFISignature = False"
| "holds_value_refs TFFIType = False"
| "holds_value_refs TExternal = False"
| "holds_value_refs TLSet = False"

lemma heap_tag_roundtrip: "tag_from_u64 (heap_tag_code t) = Some t"
  by (cases t) (simp_all add: tag_from_u64_def all_heap_tags_def)

lemma tag_from_u64_sound: "tag_from_u64 raw = Some t \<Longrightarrow> heap_tag_code t = raw"
  by (auto simp: tag_from_u64_def find_Some_iff)

lemma value_tag_is_heap:
  "value_tag obj = Some t \<Longrightarrow> is_heap \<lparr>tag = t, payload = p\<rparr>"
  by (cases obj) (auto simp: is_heap_def TAG_HEAP_START_def)

end
