(* ===== verification/Page_Pool.thy ===== *)
theory Page_Pool
  imports Values "HOL-Library.Multiset"
begin

text \<open>
  The page cache (\<^verbatim>\<open>value/fiberheap/pagepool.rs\<close>) and the mapped page under it
  (\<^verbatim>\<open>pagepool/page.rs\<close>). Addresses and byte counts are natural numbers below the machine's
  word; \<^verbatim>\<open>x & !(n - 1)\<close> for a power of two \<open>n\<close> is rounding down to a multiple of \<open>n\<close>. What the
  operating system and the Rust layout fix is the record \<open>platform\<close>; the address \<^verbatim>\<open>mmap\<close>
  answers is an argument of the operations that call it. The process-wide gauge
  \<^verbatim>\<open>MAPPED_BYTES\<close> is kept as this pool's share of it.
\<close>

section \<open>The platform\<close>

record platform =
  base_page :: nat
  obj_size :: nat
  obj_align :: nat
  obj_bytes :: "heap_object \<Rightarrow> nat list"
  guard_armed :: bool
  scrub_armed :: bool

definition MIN_BASE_PAGE :: nat where "MIN_BASE_PAGE = 4096"
definition HEADER_SIZE :: nat where "HEADER_SIZE = 16"
definition NUM_CLASSES :: nat where "NUM_CLASSES = 11"

definition is_pow2 :: "nat \<Rightarrow> bool" where
  "is_pow2 n \<longleftrightarrow> (\<exists>k. n = 2 ^ k)"

text \<open>\<^verbatim>\<open>usize::trailing_zeros\<close>, \<^verbatim>\<open>usize::next_power_of_two\<close> and masking.\<close>

fun tz :: "nat \<Rightarrow> nat" where
  "tz n = (if n = 0 then 64 else if even n then Suc (tz (n div 2)) else 0)"

declare tz.simps [simp del]

function npot_from :: "nat \<Rightarrow> nat \<Rightarrow> nat" where
  "npot_from k n = (if n \<le> 2 ^ k then 2 ^ k else npot_from (Suc k) n)"
  by pat_completeness auto
termination
  by (relation "measure (\<lambda>(k, n). n - 2 ^ k)") (auto simp: not_le intro!: diff_less_mono2)

declare npot_from.simps [simp del]

definition next_power_of_two :: "nat \<Rightarrow> nat" where
  "next_power_of_two n = npot_from 0 n"

definition mask_down :: "nat \<Rightarrow> nat \<Rightarrow> nat" where
  "mask_down n x = x - x mod n"

definition align_up :: "nat \<Rightarrow> nat \<Rightarrow> nat" where
  "align_up n x = mask_down n (x + n - 1)"

text \<open>The executable test \<^verbatim>\<open>is_power_of_two\<close>.\<close>

definition is_power_of_two :: "nat \<Rightarrow> bool" where
  "is_power_of_two n \<longleftrightarrow> n \<noteq> 0 \<and> next_power_of_two n = n"

text \<open>The OS-reported page size is signed: a failing \<^verbatim>\<open>sysconf\<close> answers -1.\<close>

definition derive_base_page :: "int \<Rightarrow> nat" where
  "derive_base_page os_page =
     (if 0 \<le> os_page \<and> MIN_BASE_PAGE \<le> nat os_page \<and> is_power_of_two (nat os_page)
      then nat os_page else MIN_BASE_PAGE)"

definition size_class_of :: "nat \<Rightarrow> nat \<Rightarrow> nat" where
  "size_class_of base sz = tz sz - tz base"

definition class_size_of :: "nat \<Rightarrow> nat \<Rightarrow> nat" where
  "class_size_of base cls = push_bit cls base"

section \<open>Bytes\<close>

type_synonym bytes = "nat \<Rightarrow> nat"

definition write_bytes :: "nat \<Rightarrow> nat list \<Rightarrow> bytes \<Rightarrow> bytes" where
  "write_bytes a bs m = (\<lambda>x. if a \<le> x \<and> x < a + length bs then bs ! (x - a) else m x)"

definition zero_bytes :: "nat \<Rightarrow> nat \<Rightarrow> bytes \<Rightarrow> bytes" where
  "zero_bytes a n m = (\<lambda>x. if a \<le> x \<and> x < a + n then 0 else m x)"

section \<open>Mapped pages\<close>

record trim =
  t_base :: nat
  t_prefix :: nat
  t_suffix :: nat

definition trim_new :: "nat \<Rightarrow> nat \<Rightarrow> nat \<Rightarrow> trim" where
  "trim_new raw alloc len =
     (let base = mask_down len (raw + len - 1); prefix = base - raw in
      \<lparr>t_base = base, t_prefix = prefix, t_suffix = alloc - prefix - len\<rparr>)"

record mmap_page =
  ptr :: nat
  page_len :: nat
  file_backed :: bool

record page_dirty =
  d_objects :: "nat \<times> nat"
  d_data :: "nat \<times> nat"

definition dirty_new :: "nat \<times> nat \<Rightarrow> nat \<times> nat \<Rightarrow> page_dirty" where
  "dirty_new objects data = \<lparr>d_objects = objects, d_data = data\<rparr>"

definition clamp_span :: "nat \<Rightarrow> nat \<times> nat \<Rightarrow> nat \<times> nat" where
  "clamp_span len r = (min (fst r) len, min (snd r) len)"

definition dirty_spans :: "page_dirty \<Rightarrow> nat \<Rightarrow> (nat \<times> nat) list" where
  "dirty_spans d len = [clamp_span len (d_objects d), clamp_span len (d_data d)]"

fun page_reset_spans :: "mmap_page \<Rightarrow> (nat \<times> nat) list \<Rightarrow> bytes \<Rightarrow> nat \<times> bytes" where
  "page_reset_spans pg [] m = (0, m)"
| "page_reset_spans pg ((s, e) # spans) m =
     (if e < s then page_reset_spans pg spans m
      else (let (w, m') = page_reset_spans pg spans (zero_bytes (ptr pg + s) (e - s) m)
            in (e - s + w, m')))"

definition page_reset :: "mmap_page \<Rightarrow> page_dirty \<Rightarrow> bytes \<Rightarrow> nat \<times> bytes" where
  "page_reset pg d m = page_reset_spans pg (dirty_spans d (page_len pg)) m"

section \<open>The pool\<close>

record page_pool =
  free_lists :: "mmap_page list list"
  cached_bytes :: nat
  max_cached :: nat
  initial_page_size :: nat
  claims :: nat
  recycles :: nat
  mapped :: nat

definition new_page_pool :: "nat \<Rightarrow> nat \<Rightarrow> page_pool" where
  "new_page_pool initial max_c =
     \<lparr>free_lists = replicate NUM_CLASSES [], cached_bytes = 0, max_cached = max_c,
      initial_page_size = initial, claims = 0, recycles = 0, mapped = 0\<rparr>"

text \<open>
  A fresh mapping. \<open>mm n\<close> is the address \<^verbatim>\<open>mmap\<close> answers for \<open>n\<close> bytes, \<^const>\<open>None\<close> on failure.
\<close>

definition mmap_page_raw :: "(nat \<Rightarrow> nat option) \<Rightarrow> nat \<Rightarrow> mmap_page option" where
  "mmap_page_raw mm len =
     map_option (\<lambda>p. \<lparr>ptr = p, page_len = len, file_backed = False\<rparr>) (mm len)"

definition mmap_page_new :: "platform \<Rightarrow> (nat \<Rightarrow> nat option) \<Rightarrow> nat \<Rightarrow> mmap_page option" where
  "mmap_page_new pf mm len =
     (if len = base_page pf then mmap_page_raw mm len
      else (let alloc = len * 2 in
        case mm alloc of
          None \<Rightarrow> None
        | Some raw \<Rightarrow>
            (let t = trim_new raw alloc len in
             Some \<lparr>ptr = t_base t, page_len = len, file_backed = False\<rparr>)))"

definition from_fixed_mapping :: "nat \<Rightarrow> nat \<Rightarrow> page_pool \<Rightarrow> mmap_page \<times> page_pool" where
  "from_fixed_mapping p len pool =
     (\<lparr>ptr = p, page_len = len, file_backed = True\<rparr>, pool\<lparr>mapped := mapped pool + len\<rparr>)"

definition drop_page :: "mmap_page \<Rightarrow> page_pool \<Rightarrow> page_pool" where
  "drop_page pg pool = pool\<lparr>mapped := mapped pool - page_len pg\<rparr>"

definition size_class :: "platform \<Rightarrow> nat \<Rightarrow> nat" where
  "size_class pf sz = size_class_of (base_page pf) sz"

definition page_size_for :: "platform \<Rightarrow> nat \<Rightarrow> nat" where
  "page_size_for pf want = max (next_power_of_two want) (base_page pf)"

definition claim ::
  "platform \<Rightarrow> (nat \<Rightarrow> nat option) \<Rightarrow> nat \<Rightarrow> page_pool \<Rightarrow> (mmap_page \<times> page_pool) option" where
  "claim pf mm want pool =
     (let size = page_size_for pf want;
          pool1 = pool\<lparr>claims := claims pool + 1\<rparr>;
          cls = size_class pf size;
          fresh = (case mmap_page_new pf mm size of
                     None \<Rightarrow> None
                   | Some pg \<Rightarrow> Some (pg, pool1\<lparr>mapped := mapped pool1 + size\<rparr>))
      in if cls < NUM_CLASSES then
           (case vpop (free_lists pool1 ! cls) of
              Some (pg, rest) \<Rightarrow>
                Some (pg, pool1\<lparr>free_lists := (free_lists pool1)[cls := rest],
                                cached_bytes := cached_bytes pool1 - page_len pg,
                                recycles := recycles pool1 + 1\<rparr>)
            | None \<Rightarrow> fresh)
         else fresh)"

definition release ::
  "platform \<Rightarrow> mmap_page \<Rightarrow> page_dirty \<Rightarrow> page_pool \<times> bytes \<Rightarrow> page_pool \<times> bytes" where
  "release pf pg dirty st =
     (let (pool, m) = st in
      if guard_armed pf then (pool, m)
      else if file_backed pg then (drop_page pg pool, m)
      else
        (let size = page_len pg; cls = size_class pf (page_size_for pf size) in
         if cls < NUM_CLASSES \<and> cached_bytes pool + size \<le> max_cached pool then
           (pool\<lparr>cached_bytes := cached_bytes pool + size,
                 free_lists := (free_lists pool)[cls := vpush (free_lists pool ! cls) pg]\<rparr>,
            if scrub_armed pf then snd (page_reset pg dirty m) else m)
         else (drop_page pg pool, m)))"

section \<open>Arithmetic of page sizes\<close>

lemma tz_power [simp]: "tz (2 ^ k) = k"
  by (induction k) (simp_all add: tz.simps [of "Suc 0"] tz.simps [of "2 * 2 ^ k" for k])

lemma npot_from_props:
  "\<exists>j \<ge> k. npot_from k n = 2 ^ j \<and> n \<le> 2 ^ j \<and> (j = k \<or> 2 ^ (j - 1) < n)"
proof (induction k n rule: npot_from.induct)
  case (1 k n)
  show ?case
  proof (cases "n \<le> 2 ^ k")
    case True
    then show ?thesis by (auto simp: npot_from.simps [of k n])
  next
    case False
    with 1 obtain j where j: "j \<ge> Suc k" "npot_from (Suc k) n = 2 ^ j" "n \<le> 2 ^ j"
      "j = Suc k \<or> 2 ^ (j - 1) < n" by blast
    with False show ?thesis
      by (intro exI [of _ j]) (auto simp: npot_from.simps [of k n])
  qed
qed

lemma next_power_of_two_obtain:
  obtains j where "next_power_of_two n = 2 ^ j" "n \<le> 2 ^ j"
  using npot_from_props [of 0 n] unfolding next_power_of_two_def by blast

lemma npot_power: "i \<le> k \<Longrightarrow> npot_from i (2 ^ k) = 2 ^ k"
proof (induction "k - i" arbitrary: i)
  case (Suc d)
  then have "\<not> (2::nat) ^ k \<le> 2 ^ i" by (simp add: not_le)
  with Suc show ?case by (simp add: npot_from.simps [of i])
qed (simp add: npot_from.simps)

lemma next_power_of_two_power [simp]: "next_power_of_two (2 ^ k) = 2 ^ k"
  by (simp add: next_power_of_two_def npot_power)

lemma is_power_of_two_iff: "is_power_of_two n \<longleftrightarrow> is_pow2 n"
  unfolding is_power_of_two_def is_pow2_def
  by (metis next_power_of_two_obtain next_power_of_two_power power_not_zero zero_neq_numeral)

lemma mask_down_dvd: "n dvd mask_down n x"
  by (simp add: mask_down_def dvd_minus_mod)

lemma mask_down_le: "mask_down n x \<le> x"
  by (simp add: mask_down_def)

lemma mask_down_gt: "0 < n \<Longrightarrow> x < mask_down n x + n"
  by (metis add.commute add_less_cancel_left le_add_diff_inverse mask_down_def mod_less_divisor
      mod_less_eq_dividend)

lemma align_up_props:
  assumes "0 < n"
  shows "n dvd align_up n x" "x \<le> align_up n x" "align_up n x < x + n"
proof -
  show "n dvd align_up n x" by (simp add: align_up_def mask_down_dvd)
  show "x \<le> align_up n x" using mask_down_gt [OF assms, of "x + n - 1"] by (simp add: align_up_def)
  show "align_up n x < x + n" using mask_down_le [of n "x + n - 1"] assms by (simp add: align_up_def)
qed

lemma align_up_least:
  assumes "0 < n" "n dvd y" "x \<le> y"
  shows "align_up n x \<le> y"
proof (rule ccontr)
  assume "\<not> align_up n x \<le> y"
  then have lt: "y < align_up n x" by simp
  from align_up_props [OF assms(1), of x] have d: "n dvd align_up n x" "align_up n x < x + n" by auto
  from lt d(1) assms(2) have "n dvd align_up n x - y" by (simp add: dvd_diff_nat)
  with lt have "n \<le> align_up n x - y" by (simp add: dvd_imp_le)
  with lt d(2) assms(3) show False by linarith
qed

lemma align_up_id: "0 < n \<Longrightarrow> n dvd x \<Longrightarrow> align_up n x = x"
  using align_up_least [of n x x] align_up_props(2) [of n x] by simp

definition platform_ok :: "platform \<Rightarrow> bool" where
  "platform_ok pf \<longleftrightarrow>
     is_power_of_two (base_page pf) \<and> MIN_BASE_PAGE \<le> base_page pf
     \<and> obj_align pf \<in> {1, 2, 4, 8, 16} \<and> 0 < obj_size pf
     \<and> 2 * HEADER_SIZE + obj_size pf \<le> base_page pf"

definition mmap_ok :: "platform \<Rightarrow> (nat \<Rightarrow> nat option) \<Rightarrow> bool" where
  "mmap_ok pf mm \<longleftrightarrow> (\<forall>n a. mm n = Some a \<longrightarrow> base_page pf dvd a)"

text \<open>A host with 4 KiB pages and 64-byte object slots, for the examples below.\<close>

definition sample_platform :: platform where
  "sample_platform = \<lparr>base_page = 2 ^ 12, obj_size = 64, obj_align = 8,
     obj_bytes = (\<lambda>_. replicate 64 0), guard_armed = False, scrub_armed = False\<rparr>"

lemma sample_platform_ok: "platform_ok sample_platform"
  by (simp add: sample_platform_def platform_ok_def is_power_of_two_iff is_pow2_def
      MIN_BASE_PAGE_def HEADER_SIZE_def exI [of _ 12])

lemma platform_base:
  assumes "platform_ok pf"
  obtains b where "base_page pf = 2 ^ b" "12 \<le> b"
proof -
  from assms obtain b where b: "base_page pf = 2 ^ b"
    by (auto simp: platform_ok_def is_power_of_two_iff is_pow2_def)
  have "12 \<le> b"
  proof (rule ccontr)
    assume "\<not> 12 \<le> b"
    then have "(2::nat) ^ b < 2 ^ 12" by (intro power_strict_increasing) auto
    with assms b show False by (simp add: platform_ok_def MIN_BASE_PAGE_def)
  qed
  with b that show ?thesis by blast
qed

lemma page_size_for_obtain:
  assumes "platform_ok pf"
  obtains j b where "page_size_for pf n = 2 ^ j" "base_page pf = 2 ^ b" "b \<le> j" "12 \<le> b" "n \<le> 2 ^ j"
proof -
  obtain b where b: "base_page pf = 2 ^ b" "12 \<le> b" using platform_base [OF assms] .
  obtain i where i: "next_power_of_two n = 2 ^ i" "n \<le> 2 ^ i" by (rule next_power_of_two_obtain)
  have "max ((2::nat) ^ i) (2 ^ b) = 2 ^ max i b"
    by (cases "i \<le> b") (auto simp: max_def)
  with i b have "page_size_for pf n = 2 ^ max i b" by (simp add: page_size_for_def)
  moreover have "n \<le> 2 ^ max i b"
    using i(2) by (rule order_trans) (simp add: power_increasing)
  ultimately show ?thesis using that b by (meson max.cobounded2)
qed

section \<open>The pool invariant\<close>

definition page_ok :: "platform \<Rightarrow> mmap_page \<Rightarrow> bool" where
  "page_ok pf pg \<longleftrightarrow>
     is_pow2 (page_len pg) \<and> base_page pf \<le> page_len pg \<and> page_len pg dvd ptr pg"

definition pool_ok :: "platform \<Rightarrow> page_pool \<Rightarrow> bool" where
  "pool_ok pf pool \<longleftrightarrow>
     length (free_lists pool) = NUM_CLASSES
     \<and> (\<forall>c < NUM_CLASSES. \<forall>pg \<in> set (free_lists pool ! c).
          page_len pg = class_size_of (base_page pf) c \<and> page_ok pf pg \<and> \<not> file_backed pg)
     \<and> cached_bytes pool = sum_list (map page_len (concat (free_lists pool)))
     \<and> cached_bytes pool \<le> max_cached pool"

text \<open>The pages of a pool, cached ones first, and the gauge that counts them.\<close>

definition cached_pages :: "page_pool \<Rightarrow> mmap_page multiset" where
  "cached_pages pool = mset (concat (free_lists pool))"

definition gauge_ok :: "page_pool \<Rightarrow> mmap_page multiset \<Rightarrow> bool" where
  "gauge_ok pool out \<longleftrightarrow> mapped pool = cached_bytes pool + sum_mset (image_mset page_len out)"

lemma mset_concat_update:
  assumes "c < length xss"
  shows "mset (concat (xss[c := ys])) + mset (xss ! c) = mset (concat xss) + mset ys"
  using assms
proof (induction xss arbitrary: c)
  case (Cons xs xss)
  show ?case
  proof (cases c)
    case (Suc n)
    with Cons.IH [of n] Cons.prems show ?thesis by (simp add: add.assoc)
  qed (simp add: ac_simps)
qed simp

lemma sum_list_mset: "sum_list (map f xs) = sum_mset (image_mset f (mset xs))"
  for f :: "'a \<Rightarrow> nat"
  by (induction xs) simp_all

lemma cached_bytes_mset:
  "pool_ok pf pool \<Longrightarrow> cached_bytes pool = sum_mset (image_mset page_len (cached_pages pool))"
  by (simp add: pool_ok_def cached_pages_def sum_list_mset)

lemma new_page_pool_ok: "pool_ok pf (new_page_pool i m)" "gauge_ok (new_page_pool i m) {#}"
  by (simp_all add: pool_ok_def new_page_pool_def gauge_ok_def)

lemma size_class_power:
  assumes "base_page pf = 2 ^ b" "b \<le> j"
  shows "size_class pf (2 ^ j) = j - b" "class_size_of (base_page pf) (j - b) = 2 ^ j"
  using assms
  by (simp_all add: size_class_def size_class_of_def class_size_of_def push_bit_eq_mult
      flip: power_add)

lemma trim_new_props:
  assumes "0 < len" "2 * len \<le> alloc"
  shows "len dvd t_base (trim_new raw alloc len)" "raw \<le> t_base (trim_new raw alloc len)"
    "t_prefix (trim_new raw alloc len) = t_base (trim_new raw alloc len) - raw"
    "t_prefix (trim_new raw alloc len) + len + t_suffix (trim_new raw alloc len) = alloc"
    "t_prefix (trim_new raw alloc len) < len"
  using align_up_props [OF assms(1), of raw] assms(2)
  by (simp_all add: trim_new_def Let_def align_up_def)

lemma mmap_page_new_ok:
  assumes pf: "platform_ok pf" and mm: "mmap_ok pf mm"
    and new: "mmap_page_new pf mm (page_size_for pf n) = Some pg"
  shows "page_ok pf pg" "page_len pg = page_size_for pf n" "\<not> file_backed pg"
proof -
  obtain j b where j: "page_size_for pf n = 2 ^ j" "base_page pf = 2 ^ b" "b \<le> j" "n \<le> 2 ^ j"
    by (rule page_size_for_obtain [OF pf])
  show "page_len pg = page_size_for pf n" "\<not> file_backed pg" using new
    by (auto simp: mmap_page_new_def mmap_page_raw_def Let_def split: if_splits option.splits)
  with new j mm show "page_ok pf pg"
    by (auto simp: mmap_page_new_def mmap_page_raw_def Let_def page_ok_def is_pow2_def mmap_ok_def
        power_increasing trim_new_props(1) split: if_splits option.splits)
qed

lemma pool_ok_update:
  assumes ok: "pool_ok pf pool" and c: "c < NUM_CLASSES"
    and pages: "\<forall>pg \<in> set ys. page_len pg = class_size_of (base_page pf) c \<and> page_ok pf pg
      \<and> \<not> file_backed pg"
    and bytes: "n + sum_list (map page_len (free_lists pool ! c))
      = cached_bytes pool + sum_list (map page_len ys)" "n \<le> max_cached pool"
  shows "pool_ok pf (pool\<lparr>free_lists := (free_lists pool)[c := ys], cached_bytes := n\<rparr>)"
proof -
  have len: "length (free_lists pool) = NUM_CLASSES" using ok by (simp add: pool_ok_def)
  with c have cl: "c < length (free_lists pool)" by simp
  have "sum_list (map page_len (concat ((free_lists pool)[c := ys])))
      + sum_list (map page_len (free_lists pool ! c))
      = cached_bytes pool + sum_list (map page_len ys)"
    using arg_cong [OF mset_concat_update [OF cl, of ys], of "\<lambda>m. sum_mset (image_mset page_len m)"] ok
    by (simp add: sum_list_mset pool_ok_def)
  with bytes ok c pages len show ?thesis
    by (simp add: pool_ok_def nth_list_update)
qed

lemma pool_ok_cong:
  "pool_ok pf (pool\<lparr>claims := a\<rparr>) = pool_ok pf pool"
  "pool_ok pf (pool\<lparr>recycles := a\<rparr>) = pool_ok pf pool"
  "pool_ok pf (pool\<lparr>mapped := a\<rparr>) = pool_ok pf pool"
  by (simp_all add: pool_ok_def)

lemma butlast_sum: "xs \<noteq> [] \<Longrightarrow>
  sum_list (map f xs) = sum_list (map f (butlast xs)) + f (last xs)" for f :: "'a \<Rightarrow> nat"
  by (induction xs rule: rev_induct) auto

lemma mset_butlast: "xs \<noteq> [] \<Longrightarrow> mset xs = mset (butlast xs) + {#last xs#}"
  by (induction xs rule: rev_induct) auto

lemma claim_result:
  assumes "platform_ok pf" "claim pf mm want pool = Some (pg, pool')"
  obtains (recycled) c where "c = size_class pf (page_size_for pf want)" "c < NUM_CLASSES"
      "free_lists pool ! c \<noteq> []" "pg = last (free_lists pool ! c)"
      "pool' = pool\<lparr>claims := claims pool + 1,
         free_lists := (free_lists pool)[c := butlast (free_lists pool ! c)],
         cached_bytes := cached_bytes pool - page_len pg, recycles := recycles pool + 1\<rparr>"
  | (fresh) "mmap_page_new pf mm (page_size_for pf want) = Some pg"
      "pool' = pool\<lparr>claims := claims pool + 1, mapped := mapped pool + page_size_for pf want\<rparr>"
  using assms(2)
  by (auto simp: claim_def Let_def vpop_def split: if_splits option.splits)

lemma cached_page:
  assumes "platform_ok pf" "pool_ok pf pool" "c = size_class pf (page_size_for pf want)"
    "c < NUM_CLASSES" "pg \<in> set (free_lists pool ! c)"
  shows "page_len pg = page_size_for pf want" "page_ok pf pg" "\<not> file_backed pg"
    "page_len pg \<le> cached_bytes pool"
proof -
  obtain j b where j: "page_size_for pf want = 2 ^ j" "base_page pf = 2 ^ b" "b \<le> j"
    by (rule page_size_for_obtain [OF assms(1)])
  from assms j size_class_power [OF j(2,3)]
  show "page_len pg = page_size_for pf want" "page_ok pf pg" "\<not> file_backed pg"
    by (auto simp: pool_ok_def)
  from assms(2,4,5) have "pg \<in> set (concat (free_lists pool))"
    by (auto simp: pool_ok_def intro!: bexI [of _ "free_lists pool ! c"])
  then have "page_len pg \<le> sum_list (map page_len (concat (free_lists pool)))"
    by (intro member_le_sum_list) auto
  with assms(2) show "page_len pg \<le> cached_bytes pool" by (simp add: pool_ok_def)
qed

lemma claim_ok:
  assumes pf: "platform_ok pf" and mm: "mmap_ok pf mm" and ok: "pool_ok pf pool"
    and cl: "claim pf mm want pool = Some (pg, pool')"
  shows "page_ok pf pg \<and> page_len pg = page_size_for pf want \<and> \<not> file_backed pg
    \<and> pool_ok pf pool'"
  using pf cl
proof (cases rule: claim_result)
  case (recycled c)
  then have pg: "pg \<in> set (free_lists pool ! c)" by simp
  note cp = cached_page [OF pf ok recycled(1,2) pg]
  have "pool_ok pf (pool\<lparr>free_lists := (free_lists pool)[c := butlast (free_lists pool ! c)],
      cached_bytes := cached_bytes pool - page_len pg\<rparr>)"
    using ok recycled(2,3) cp butlast_sum [OF recycled(3), of page_len]
    by (intro pool_ok_update) (auto simp: recycled(4) [symmetric] pool_ok_def dest: in_set_butlastD)
  then have "pool_ok pf pool'" by (simp add: recycled(5) pool_ok_def)
  with cp show ?thesis by simp
next
  case fresh
  with mmap_page_new_ok [OF pf mm] ok show ?thesis by (simp add: pool_ok_cong pool_ok_def)
qed

section \<open>Pages in use\<close>

definition page_at :: "nat \<Rightarrow> mmap_page \<Rightarrow> bool" where
  "page_at a pg \<longleftrightarrow> ptr pg \<le> a \<and> a < ptr pg + page_len pg"

definition uses :: "mmap_page multiset \<Rightarrow> nat \<Rightarrow> nat" where
  "uses pages a = size (filter_mset (page_at a) pages)"

text \<open>\<^verbatim>\<open>mmap\<close> without \<^verbatim>\<open>MAP_FIXED\<close> answers a range no live mapping covers.\<close>

definition mmap_fresh :: "(nat \<Rightarrow> nat option) \<Rightarrow> mmap_page multiset \<Rightarrow> bool" where
  "mmap_fresh mm pages \<longleftrightarrow>
     (\<forall>n a x. mm n = Some a \<longrightarrow> a \<le> x \<longrightarrow> x < a + n \<longrightarrow> uses pages x = 0)"

lemma mmap_page_new_range:
  assumes "mmap_page_new pf mm len = Some pg" "0 < len" "page_at x pg"
  shows "\<exists>n a. mm n = Some a \<and> a \<le> x \<and> x < a + n"
proof (cases "len = base_page pf")
  case True
  with assms show ?thesis
    by (intro exI [of _ len] exI [of _ "ptr pg"])
      (auto simp: mmap_page_new_def mmap_page_raw_def page_at_def)
next
  case False
  with assms(1) obtain raw where raw: "mm (len * 2) = Some raw"
    and pg: "ptr pg = t_base (trim_new raw (len * 2) len)" "page_len pg = len"
    by (auto simp: mmap_page_new_def Let_def split: option.splits)
  from trim_new_props [of len "len * 2" raw] assms(2) pg assms(3) raw show ?thesis
    by (intro exI [of _ "len * 2"] exI [of _ raw]) (auto simp: page_at_def)
qed

lemma claim_pages:
  assumes pf: "platform_ok pf" and ok: "pool_ok pf pool"
    and cl: "claim pf mm want pool = Some (pg, pool')"
  shows "cached_pages pool' + {#pg#} = cached_pages pool \<and> mapped pool' = mapped pool
    \<or> cached_pages pool' = cached_pages pool \<and> cached_bytes pool' = cached_bytes pool
      \<and> mapped pool' = mapped pool + page_size_for pf want
      \<and> mmap_page_new pf mm (page_size_for pf want) = Some pg"
  using pf cl
proof (cases rule: claim_result)
  case (recycled c)
  then have "c < length (free_lists pool)" using ok by (simp add: pool_ok_def)
  from mset_concat_update [OF this, of "butlast (free_lists pool ! c)"] recycled(3)
  have "mset (concat ((free_lists pool)[c := butlast (free_lists pool ! c)]))
      + {#last (free_lists pool ! c)#} = mset (concat (free_lists pool))"
    by (simp add: mset_butlast [OF recycled(3)])
  with recycled show ?thesis by (simp add: cached_pages_def)
qed (simp add: cached_pages_def)

lemma release_pages:
  assumes pf: "platform_ok pf" and ok: "pool_ok pf pool" and pg: "page_ok pf pg"
    and rl: "release pf pg d (pool, m) = (pool', m')"
  shows "pool_ok pf pool' \<and>
    (guard_armed pf \<and> pool' = pool
     \<or> \<not> guard_armed pf \<and> cached_pages pool' = cached_pages pool + {#pg#} \<and> mapped pool' = mapped pool
     \<or> \<not> guard_armed pf \<and> cached_pages pool' = cached_pages pool
       \<and> cached_bytes pool' = cached_bytes pool \<and> mapped pool' = mapped pool - page_len pg)"
proof -
  define c where "c = size_class pf (page_size_for pf (page_len pg))"
  consider (guard) "guard_armed pf" "pool' = pool"
    | (drop) "\<not> guard_armed pf" "pool' = drop_page pg pool"
    | (cache) "\<not> guard_armed pf" "c < NUM_CLASSES" "cached_bytes pool + page_len pg \<le> max_cached pool"
        "\<not> file_backed pg"
        "pool' = pool\<lparr>cached_bytes := cached_bytes pool + page_len pg,
           free_lists := (free_lists pool)[c := vpush (free_lists pool ! c) pg]\<rparr>"
    using rl by (auto simp: release_def Let_def c_def split: if_splits)
  then show ?thesis
  proof cases
    case drop
    with ok show ?thesis by (simp add: drop_page_def pool_ok_cong cached_pages_def)
  next
    case cache
    from pg obtain j where j: "page_len pg = 2 ^ j" by (auto simp: page_ok_def is_pow2_def)
    obtain b where b: "base_page pf = 2 ^ b" by (rule platform_base [OF pf])
    with pg j have "b \<le> j" by (simp add: page_ok_def)
    with b j have "page_size_for pf (page_len pg) = 2 ^ j"
      by (simp add: page_size_for_def max_absorb1)
    with size_class_power [OF b \<open>b \<le> j\<close>] j have cls: "class_size_of (base_page pf) c = page_len pg"
      by (simp add: c_def)
    have cl: "c < length (free_lists pool)" using ok cache(2) by (simp add: pool_ok_def)
    have "pool_ok pf (pool\<lparr>free_lists := (free_lists pool)[c := vpush (free_lists pool ! c) pg],
        cached_bytes := cached_bytes pool + page_len pg\<rparr>)"
      using ok cache(2,3,4) pg cls by (intro pool_ok_update) (auto simp: vpush_def pool_ok_def)
    moreover have "mset (concat ((free_lists pool)[c := vpush (free_lists pool ! c) pg]))
        = mset (concat (free_lists pool)) + {#pg#}"
      using mset_concat_update [OF cl, of "vpush (free_lists pool ! c) pg"] by (simp add: vpush_def)
    ultimately show ?thesis using cache by (simp add: pool_ok_def cached_pages_def)
  qed (use ok in simp)
qed

section \<open>Histories of a pool\<close>

text \<open>
  A pool and the pages it has handed out, over any sequence of claims, releases and adopted
  image pages. A guarded release leaves the page mapped and never hands it out again.
\<close>

inductive pool_history :: "platform \<Rightarrow> page_pool \<Rightarrow> mmap_page multiset \<Rightarrow> bool" for pf where
  start: "pool_history pf (new_page_pool i m) {#}"
| claimed: "pool_history pf pool out \<Longrightarrow> mmap_ok pf mm \<Longrightarrow> mmap_fresh mm (cached_pages pool + out) \<Longrightarrow>
    claim pf mm want pool = Some (pg, pool') \<Longrightarrow> pool_history pf pool' (out + {#pg#})"
| released: "pool_history pf pool (out + {#pg#}) \<Longrightarrow> release pf pg d (pool, b) = (pool', b') \<Longrightarrow>
    pool_history pf pool' (if guard_armed pf then out + {#pg#} else out)"
| adopted: "pool_history pf pool out \<Longrightarrow> is_pow2 n \<Longrightarrow> base_page pf \<le> n \<Longrightarrow> n dvd a \<Longrightarrow>
    \<forall>x. a \<le> x \<and> x < a + n \<longrightarrow> uses (cached_pages pool + out) x = 0 \<Longrightarrow>
    from_fixed_mapping a n pool = (pg, pool') \<Longrightarrow> pool_history pf pool' (out + {#pg#})"

definition pool_inv :: "platform \<Rightarrow> page_pool \<Rightarrow> mmap_page multiset \<Rightarrow> bool" where
  "pool_inv pf pool out \<longleftrightarrow>
     pool_ok pf pool \<and> gauge_ok pool out \<and> (\<forall>pg \<in># out. page_ok pf pg)
     \<and> (\<forall>a. uses (cached_pages pool + out) a \<le> 1)"

lemma uses_add [simp]: "uses (p + q) a = uses p a + uses q a"
  by (simp add: uses_def)

lemma uses_empty [simp]: "uses {#} a = 0"
  by (simp add: uses_def)

lemma uses_add_mset [simp]: "uses (add_mset pg q) a = uses q a + (if page_at a pg then 1 else 0)"
  by (simp add: uses_def)

lemma pool_inv_claimed:
  assumes pf: "platform_ok pf" and inv: "pool_inv pf pool out" and mm: "mmap_ok pf mm"
    and fresh: "mmap_fresh mm (cached_pages pool + out)"
    and cl: "claim pf mm want pool = Some (pg, pool')"
  shows "pool_inv pf pool' (out + {#pg#})"
proof -
  have ok: "pool_ok pf pool" using inv by (simp add: pool_inv_def)
  note c = claim_ok [OF pf mm ok cl]
  have pos: "0 < page_size_for pf want" by (rule page_size_for_obtain [OF pf, of want]) simp
  from claim_pages [OF pf ok cl] show ?thesis
  proof (elim disjE conjE)
    assume e: "cached_pages pool' + {#pg#} = cached_pages pool" "mapped pool' = mapped pool"
    from arg_cong [OF e(1), of "\<lambda>q. sum_mset (image_mset page_len q)"] c ok inv e(2)
      cached_bytes_mset [of pf pool']
    have "gauge_ok pool' (out + {#pg#})"
      by (simp add: gauge_ok_def pool_inv_def cached_bytes_mset)
    moreover have "uses (cached_pages pool' + (out + {#pg#})) a = uses (cached_pages pool + out) a" for a
      using arg_cong [OF e(1), of "\<lambda>q. uses q a"] by simp
    ultimately show ?thesis using c inv by (simp only: pool_inv_def) simp
  next
    assume e: "cached_pages pool' = cached_pages pool" "cached_bytes pool' = cached_bytes pool"
      "mapped pool' = mapped pool + page_size_for pf want"
      "mmap_page_new pf mm (page_size_for pf want) = Some pg"
    have "page_at a pg \<Longrightarrow> uses (cached_pages pool + out) a = 0" for a
      using mmap_page_new_range [OF e(4) pos] fresh unfolding mmap_fresh_def by blast
    with e c inv show ?thesis by (auto simp: pool_inv_def gauge_ok_def)
  qed
qed

lemma pool_inv_released:
  assumes pf: "platform_ok pf" and inv: "pool_inv pf pool (out + {#pg#})"
    and rl: "release pf pg d (pool, b) = (pool', b')"
  shows "pool_inv pf pool' (if guard_armed pf then out + {#pg#} else out)"
proof -
  from inv have ok: "pool_ok pf pool" "page_ok pf pg" and g: "gauge_ok pool (out + {#pg#})"
    and u: "\<forall>a. uses (cached_pages pool) a + uses out a + (if page_at a pg then 1 else 0) \<le> 1"
    by (simp_all add: pool_inv_def)
  note r = release_pages [OF pf ok rl]
  have le: "uses (cached_pages pool') a + uses out a \<le> 1" if "\<not> guard_armed pf" for a
    using r spec [OF u, of a] that by (auto split: if_splits)
  have "gauge_ok pool' out" if "\<not> guard_armed pf"
    using r g that cached_bytes_mset [OF ok(1)] cached_bytes_mset [of pf pool']
    by (auto simp: gauge_ok_def)
  with r le have rest: ?thesis if "\<not> guard_armed pf"
    using that inv by (simp add: pool_inv_def)
  show ?thesis
  proof (cases "guard_armed pf")
    case True
    with r have "pool' = pool" by auto
    with True inv show ?thesis by simp
  qed (rule rest)
qed

section \<open>Properties\<close>

text \<open>
  C18: The page cache never gives one page away twice. Over any sequence of claims, releases
  and adopted image pages, no address lies in two pages of the pool (cached, held by a region
  or leaked by the guard), cached pages sit in the list of their size class, aligned to their
  own length, within the byte limit, and the gauge of mapped bytes is the sum of the two.
\<close>

theorem page_cache_safe:
  assumes "platform_ok pf" "pool_history pf pool out"
  shows "pool_inv pf pool out"
  using assms(2)
proof induction
  case (start i m)
  then show ?case using new_page_pool_ok(1) [of pf i m] new_page_pool_ok(2) [of i m]
    by (simp add: pool_inv_def cached_pages_def new_page_pool_def uses_def)
next
  case (claimed pool out mm want pg pool')
  with assms(1) show ?case by (blast intro: pool_inv_claimed)
next
  case (released pool out pg d b pool' b')
  with assms(1) show ?case by (blast intro: pool_inv_released)
next
  case (adopted pool out n a pg pool')
  then show ?case
    by (auto simp: from_fixed_mapping_def pool_inv_def pool_ok_cong gauge_ok_def cached_pages_def
        page_ok_def page_at_def)
qed

theorem page_cache_safe_witness:
  "\<exists>pf pool out. platform_ok pf \<and> pool_history pf pool out \<and> out \<noteq> {#} \<and> pool_inv pf pool out"
proof -
  define pf where "pf = sample_platform"
  have ok: "platform_ok pf" by (simp add: pf_def sample_platform_ok)
  have c: "claim pf (\<lambda>n. Some (2 ^ 13)) (2 ^ 12) (new_page_pool 4096 8192) =
      Some (\<lparr>ptr = 2 ^ 13, page_len = 2 ^ 12, file_backed = False\<rparr>,
        (new_page_pool 4096 8192)\<lparr>claims := 1, mapped := 2 ^ 12\<rparr>)"
    unfolding claim_def page_size_for_def Let_def next_power_of_two_power
    by (simp add: pf_def sample_platform_def size_class_def size_class_of_def new_page_pool_def vpop_def
        mmap_page_new_def mmap_page_raw_def NUM_CLASSES_def)
  have "pool_history pf (new_page_pool 4096 8192) {#}" by (rule pool_history.start)
  from pool_history.claimed [OF this _ _ c]
  have h: "pool_history pf ((new_page_pool 4096 8192)\<lparr>claims := 1, mapped := 2 ^ 12\<rparr>)
      ({#} + {#\<lparr>ptr = 2 ^ 13, page_len = 2 ^ 12, file_backed = False\<rparr>#})"
    by (simp add: mmap_ok_def pf_def sample_platform_def mmap_fresh_def cached_pages_def new_page_pool_def uses_def)
  show ?thesis by (intro exI conjI, rule ok, rule h, simp, rule page_cache_safe [OF ok h])
qed

end
