(* ===== verification/Delivery.thy ===== *)
theory Delivery
  imports Values
begin

text \<open>
  The delivery ledger of a fiber's current park (\<^verbatim>\<open>value/fiber/delivery.rs\<close>), one
  definition per method, and the ledger as a labelled transition system: every method is a
  step, and the references a step hands out are counted against the parks that recorded them.
\<close>

section \<open>Raise sites\<close>

datatype raise_site = Emit | Call | NoResult | TailRefused

definition delivers :: "raise_site \<Rightarrow> bool" where
  "delivers site \<longleftrightarrow> site \<noteq> NoResult"

definition owes_mint :: "raise_site \<Rightarrow> bool" where
  "owes_mint site \<longleftrightarrow> (case site of Call \<Rightarrow> True | TailRefused \<Rightarrow> True | _ \<Rightarrow> False)"

definition parks_frame :: "raise_site \<Rightarrow> bool" where
  "parks_frame site \<longleftrightarrow> site \<noteq> TailRefused"

section \<open>The ledger\<close>

record delivery =
  minted :: "evalue option"
  bodyless :: "evalue option"
  undelivered :: "(64 word \<times> evalue) option"
  resume_unfunded :: bool

definition new_delivery :: delivery where
  "new_delivery = \<lparr>minted = None, bodyless = None, undelivered = None, resume_unfunded = False\<rparr>"

definition record_park :: "64 word \<Rightarrow> evalue \<Rightarrow> delivery \<Rightarrow> delivery" where
  "record_park bits v d =
     d\<lparr>undelivered := (if as_heap_ptr v \<noteq> None then Some (bits, v) else None)\<rparr>"

definition park_primitive :: "64 word \<Rightarrow> evalue \<Rightarrow> delivery \<Rightarrow> delivery" where
  "park_primitive bits v d = record_park bits v (d\<lparr>resume_unfunded := True\<rparr>)"

definition park_emit :: "64 word \<Rightarrow> evalue \<Rightarrow> delivery \<Rightarrow> delivery" where
  "park_emit bits v d = record_park bits v d"

definition park_bodyless :: "64 word \<Rightarrow> evalue \<Rightarrow> delivery \<Rightarrow> delivery" where
  "park_bodyless bits v d =
     record_park bits v (d\<lparr>resume_unfunded := True, bodyless := Some v\<rparr>)"

definition park_denial :: "64 word \<Rightarrow> evalue \<Rightarrow> delivery \<Rightarrow> delivery" where
  "park_denial bits v d = park_bodyless bits v d"

definition park_emit_denial :: "64 word \<Rightarrow> evalue \<Rightarrow> delivery \<Rightarrow> delivery" where
  "park_emit_denial bits v d = record_park bits v (d\<lparr>bodyless := Some v\<rparr>)"

definition park_request :: "64 word \<Rightarrow> evalue \<Rightarrow> delivery \<Rightarrow> delivery" where
  "park_request bits v d = park_bodyless bits v d"

definition record_mint :: "evalue \<Rightarrow> delivery \<Rightarrow> delivery" where
  "record_mint v d = d\<lparr>minted := Some v\<rparr>"

definition names :: "evalue option \<Rightarrow> evalue \<Rightarrow> bool" where
  "names rec v = (case rec of None \<Rightarrow> False | Some r \<Rightarrow> bit_identical r v)"

definition park_error :: "raise_site \<Rightarrow> evalue \<Rightarrow> delivery \<Rightarrow> delivery" where
  "park_error site v d =
     (if names (bodyless d) v then d else d\<lparr>resume_unfunded := owes_mint site\<rparr>)"

definition raise_in_park :: "evalue \<Rightarrow> delivery \<Rightarrow> delivery" where
  "raise_in_park v d = d\<lparr>minted := Some v, bodyless := None, undelivered := None\<rparr>"

definition install_abort :: "evalue \<Rightarrow> delivery \<Rightarrow> delivery" where
  "install_abort v d =
     d\<lparr>minted := Some v, bodyless := None, undelivered := None, resume_unfunded := False\<rparr>"

definition take_resume_funding :: "delivery \<Rightarrow> bool \<times> delivery" where
  "take_resume_funding d =
     (resume_unfunded d, d\<lparr>minted := None, undelivered := None, resume_unfunded := False\<rparr>)"

definition displace :: "delivery \<Rightarrow> delivery" where
  "displace d = d\<lparr>minted := None, bodyless := None, undelivered := None\<rparr>"

definition discharge :: "delivery \<Rightarrow> delivery" where
  "discharge d = d\<lparr>minted := None, bodyless := None, undelivered := None, resume_unfunded := False\<rparr>"

definition mint_names :: "delivery \<Rightarrow> evalue \<Rightarrow> bool" where
  "mint_names d v \<longleftrightarrow> names (minted d) v"

definition take_bodyless :: "delivery \<Rightarrow> evalue option \<times> delivery" where
  "take_bodyless d = (bodyless d, d\<lparr>bodyless := None\<rparr>)"

definition take_undelivered :: "delivery \<Rightarrow> (64 word \<times> evalue) option \<times> delivery" where
  "take_undelivered d = (undelivered d, d\<lparr>undelivered := None\<rparr>)"

text \<open>
  The two consumers at the heap seam (\<^verbatim>\<open>vm/fiber/refcount.rs\<close>), as the payloads whose
  region each of them decrefs, in order.
\<close>

definition displaced_bodyless ::
  "(64 word \<times> evalue) option \<Rightarrow> delivery \<Rightarrow> evalue option \<times> delivery" where
  "displaced_bodyless sig d =
     (let (rec, d') = take_bodyless d in
      (case (rec, sig) of
         (Some r, Some (_, v)) \<Rightarrow> if bit_identical r v then Some v else None
       | _ \<Rightarrow> None, d'))"

definition abandoned_park ::
  "(64 word \<times> evalue) option \<Rightarrow> delivery \<Rightarrow> evalue list \<times> delivery" where
  "abandoned_park live d =
     (case take_undelivered d of
        (None, d') \<Rightarrow> ([], d')
      | (Some (_, v), d') \<Rightarrow>
          if \<not> (case live of None \<Rightarrow> False | Some (_, u) \<Rightarrow> bit_identical u v) then ([], d')
          else (let (rec, d'') = take_bodyless d' in
                ((if names rec v then [v] else []) @ [v], d'')))"

lemma names_iff [simp]: "names r v \<longleftrightarrow> r = Some v"
  by (cases r) (simp_all add: names_def)

lemmas ledger_defs = record_park_def park_primitive_def park_emit_def park_bodyless_def
  park_denial_def park_emit_denial_def park_request_def record_mint_def park_error_def
  raise_in_park_def install_abort_def take_resume_funding_def displace_def discharge_def
  take_bodyless_def take_undelivered_def displaced_bodyless_def abandoned_park_def

section \<open>The ledger as a transition system\<close>

datatype ledger_op =
    ParkPrimitive "64 word" evalue
  | ParkEmit "64 word" evalue
  | ParkDenial "64 word" evalue
  | ParkEmitDenial "64 word" evalue
  | ParkRequest "64 word" evalue
  | RecordMint evalue
  | ParkError raise_site evalue
  | RaiseInPark evalue
  | InstallAbort evalue
  | TakeResumeFunding
  | Displace
  | Discharge
  | ReleaseDisplaced "(64 word \<times> evalue) option"
  | ReleaseAbandoned "(64 word \<times> evalue) option"

text \<open>What a step hands out: the resume mint, and the payloads it releases a reference of.\<close>

datatype handed = ResumeMint | AllocRef evalue | EscapeRef evalue

fun ledger_step :: "ledger_op \<Rightarrow> delivery \<Rightarrow> handed list \<times> delivery" where
  "ledger_step (ParkPrimitive b v) d = ([], park_primitive b v d)"
| "ledger_step (ParkEmit b v) d = ([], park_emit b v d)"
| "ledger_step (ParkDenial b v) d = ([], park_denial b v d)"
| "ledger_step (ParkEmitDenial b v) d = ([], park_emit_denial b v d)"
| "ledger_step (ParkRequest b v) d = ([], park_request b v d)"
| "ledger_step (RecordMint v) d = ([], record_mint v d)"
| "ledger_step (ParkError s v) d = ([], park_error s v d)"
| "ledger_step (RaiseInPark v) d = ([], raise_in_park v d)"
| "ledger_step (InstallAbort v) d = ([], install_abort v d)"
| "ledger_step TakeResumeFunding d =
     (let (m, d') = take_resume_funding d in (if m then [ResumeMint] else [], d'))"
| "ledger_step Displace d = ([], displace d)"
| "ledger_step Discharge d = ([], discharge d)"
| "ledger_step (ReleaseDisplaced s) d =
     (let (r, d') = displaced_bodyless s d in (map AllocRef (case r of None \<Rightarrow> [] | Some v \<Rightarrow> [v]), d'))"
| "ledger_step (ReleaseAbandoned l) d =
     (let (vs, d') = abandoned_park l d in
      (map AllocRef (butlast vs) @ map EscapeRef (drop (length vs - 1) vs), d'))"

fun ledger_run :: "ledger_op list \<Rightarrow> delivery \<Rightarrow> handed list \<times> delivery" where
  "ledger_run [] d = ([], d)"
| "ledger_run (x # xs) d =
     (let (h, d') = ledger_step x d; (hs, d'') = ledger_run xs d' in (h @ hs, d''))"

text \<open>The references the parks of a run recorded, by kind.\<close>

fun recorded :: "handed \<Rightarrow> ledger_op \<Rightarrow> nat" where
  "recorded ResumeMint (ParkPrimitive _ _) = 1"
| "recorded ResumeMint (ParkDenial _ _) = 1"
| "recorded ResumeMint (ParkRequest _ _) = 1"
| "recorded ResumeMint (ParkError s _) = (if owes_mint s then 1 else 0)"
| "recorded (AllocRef v) (ParkDenial _ u) = (if u = v then 1 else 0)"
| "recorded (AllocRef v) (ParkEmitDenial _ u) = (if u = v then 1 else 0)"
| "recorded (AllocRef v) (ParkRequest _ u) = (if u = v then 1 else 0)"
| "recorded (EscapeRef v) (ParkPrimitive _ u) = (if u = v \<and> is_heap v then 1 else 0)"
| "recorded (EscapeRef v) (ParkEmit _ u) = (if u = v \<and> is_heap v then 1 else 0)"
| "recorded (EscapeRef v) (ParkDenial _ u) = (if u = v \<and> is_heap v then 1 else 0)"
| "recorded (EscapeRef v) (ParkEmitDenial _ u) = (if u = v \<and> is_heap v then 1 else 0)"
| "recorded (EscapeRef v) (ParkRequest _ u) = (if u = v \<and> is_heap v then 1 else 0)"
| "recorded _ _ = 0"

text \<open>What the ledger still holds of a kind.\<close>

fun held :: "handed \<Rightarrow> delivery \<Rightarrow> nat" where
  "held ResumeMint d = (if resume_unfunded d then 1 else 0)"
| "held (AllocRef v) d = (if bodyless d = Some v then 1 else 0)"
| "held (EscapeRef v) d = (if map_option snd (undelivered d) = Some v then 1 else 0)"

lemma ledger_step_conserves:
  assumes "ledger_step x d = (h, d')"
  shows "count_list h e + held e d' \<le> held e d + recorded e x"
  using assms
  by (cases x; cases e)
    (auto simp: ledger_defs as_heap_ptr_def Let_def split: if_splits option.splits)

lemma ledger_run_conserves:
  "ledger_run xs d = (h, d') \<Longrightarrow>
     count_list h e + held e d' \<le> held e d + sum_list (map (recorded e) xs)"
proof (induction xs arbitrary: d h)
  case (Cons x xs)
  obtain h1 d1 where s: "ledger_step x d = (h1, d1)" by fastforce
  obtain h2 d2 where r: "ledger_run xs d1 = (h2, d2)" by fastforce
  from Cons.prems s r have e: "h = h1 @ h2" "d' = d2" by (auto simp: Let_def)
  from Cons.IH [of d1 h2] r ledger_step_conserves [OF s, of e] e show ?case
    by (simp add: count_list_append)
qed simp

section \<open>Properties\<close>

text \<open>
  C19: The ledger is affine. Over any sequence of its operations from a fresh ledger, no
  reference is handed out more often than a park recorded it: the resume mint at most once
  per park that owes one, the allocation reference of a runtime-built payload at most once
  per park that named it, and the escape retain at most once per park of that heap value.
\<close>

theorem ledger_affine:
  "count_list (fst (ledger_run xs new_delivery)) e \<le> sum_list (map (recorded e) xs)"
proof -
  obtain h d' where r: "ledger_run xs new_delivery = (h, d')" by fastforce
  have "held e new_delivery = 0" by (cases e) (simp_all add: new_delivery_def)
  with ledger_run_conserves [OF r, of e] r show ?thesis by simp
qed


end
