(* ===== verification/Fuel.thy ===== *)
theory Fuel
  imports Signals
begin

text \<open>
  A fiber's instruction budget and the kill word (\<^verbatim>\<open>value/fiber/fuel.rs\<close>), and the charge
  every branch and call takes (\<^verbatim>\<open>charge_fuel\<close> in \<^verbatim>\<open>vm/dispatch/interp/opcodes.rs\<close>). Both
  words are kept at 64 bits, so the distance between the budgets and the unmetered word is
  the one the code relies on.
\<close>

type_synonym fuel = "64 word"

definition SLACK :: "64 word" where "SLACK = 0"
definition PULLED :: "64 word" where "PULLED = - 1"
definition LARGEST :: "64 word" where "LARGEST = 0x7FFFFFFFFFFFFFFF"
definition UNMETERED :: "64 word" where "UNMETERED = push_bit 63 1 + push_bit 62 1"

definition pull :: "64 word \<Rightarrow> 64 word" where
  "pull limit = PULLED"

definition pulled :: "64 word \<Rightarrow> bool" where
  "pulled limit \<longleftrightarrow> limit = PULLED"

definition is_below :: "fuel \<Rightarrow> 64 word \<Rightarrow> bool" where
  "is_below f limit \<longleftrightarrow> f < limit"

definition unmetered :: fuel where
  "unmetered = UNMETERED"

definition budget :: "64 word \<Rightarrow> fuel option" where
  "budget n = (if n \<le> LARGEST then Some n else None)"

definition remaining :: "fuel \<Rightarrow> 64 word option" where
  "remaining f = (if f \<le> LARGEST then Some f else None)"

definition is_metered :: "fuel \<Rightarrow> bool" where
  "is_metered f \<longleftrightarrow> f \<le> LARGEST"

definition spend :: "fuel \<Rightarrow> fuel" where
  "spend f = f - (if f \<noteq> 0 then 1 else 0)"

definition charge :: "fuel \<Rightarrow> bool \<times> fuel" where
  "charge f = (if f = 0 then (False, f) else (True, f - 1))"



section \<open>Facts about single charges\<close>

lemma LARGEST_unat: "unat LARGEST = 2 ^ 63 - 1"
  by (simp add: LARGEST_def)

lemma UNMETERED_unat: "unat UNMETERED = 2 ^ 63 + 2 ^ 62"
  by (simp add: UNMETERED_def)

lemma not_below_slack [simp]: "\<not> is_below f SLACK"
  by (simp add: is_below_def SLACK_def)




lemma unat_spend: "unat (spend f) = unat f - 1"
proof (cases "f = 0")
  case False
  then have "1 \<le> f" by (simp add: word_le_nat_alt unat_gt_0 Suc_le_eq)
  with False show ?thesis by (simp add: spend_def unat_sub)
qed (simp add: spend_def)

lemma spend_zero [simp]: "spend 0 = 0"
  by (simp add: spend_def)

lemma charge_spend: "charge f = (f \<noteq> 0, spend f)"
  by (simp add: charge_def spend_def)

text \<open>A run of \<open>n\<close> charges of code that may pause, each where the last one left off.\<close>

fun charges :: "nat \<Rightarrow> fuel \<Rightarrow> bool \<times> fuel" where
  "charges 0 f = (True, f)"
| "charges (Suc n) f = (case charges n f of (ok, g) \<Rightarrow>
     if ok then charge g else (False, g))"

lemma charges_count:
  "n \<le> unat f \<Longrightarrow> fst (charges n f) \<and> unat (snd (charges n f)) = unat f - n"
proof (induction n)
  case (Suc n)
  obtain ok g where g: "charges n f = (ok, g)" by (cases "charges n f")
  with Suc have ok: "ok" "unat g = unat f - n" by auto
  with Suc.prems have "g \<noteq> 0" by (auto simp: unat_eq_0)
  with g ok show ?case by (simp add: charge_spend unat_spend)
qed simp

lemma charges_stop:
  "\<not> fst (charges (Suc (unat f)) f)"
proof -
  obtain ok g where g: "charges (unat f) f = (ok, g)" by (cases "charges (unat f) f")
  with charges_count [of "unat f" f] have "g = 0" by (simp add: unat_eq_0)
  with g show ?thesis by (simp add: charge_def)
qed

section \<open>Properties\<close>

text \<open>
  C32: A budget of \<open>n\<close> units buys exactly \<open>n\<close> charges: every run of at most \<open>n\<close> charges
  succeeds and leaves the difference, which \<^verbatim>\<open>remaining\<close> reports, and the next charge is
  refused. A budget is granted exactly up to the largest integer.
\<close>

theorem budget_buys_exactly:
  assumes "budget n = Some f" "k \<le> unat n"
  shows "fst (charges k f)
    \<and> map_option unat (remaining (snd (charges k f))) = Some (unat n - k)
    \<and> \<not> fst (charges (Suc (unat n)) f)"
proof -
  from assms have f: "f = n" "n \<le> LARGEST" by (auto simp: budget_def split: if_splits)
  have ok: "fst (charges k f)" and left: "unat (snd (charges k f)) = unat n - k"
    using f charges_count [of k n] assms by simp_all
  then have "snd (charges k f) \<le> n" by (simp add: word_le_nat_alt)
  with f(2) have "snd (charges k f) \<le> LARGEST" by (rule order_trans [rotated])
  with ok left show ?thesis using f charges_stop [of n] by (simp add: remaining_def)
qed

theorem budget_buys_exactly_witness:
  "fst (charges 3 5) \<and> map_option unat (remaining (snd (charges 3 5))) = Some (5 - 3)
   \<and> \<not> fst (charges 6 5)"
proof -
  have b: "budget 5 = Some 5" by (simp add: budget_def LARGEST_def)
  show ?thesis using budget_buys_exactly [OF b, of 3] by simp
qed



text \<open>
  C34: An unmetered fiber is never paused for fuel and never reads as metered in any run of
  fewer than \<open>2 ^ 62\<close> charges, the distance the code leaves above the budgets.
\<close>

theorem unmetered_never_pauses:
  "n < 2 ^ 62 \<Longrightarrow>
     fst (charges n unmetered) \<and> \<not> is_metered (snd (charges n unmetered))"
proof -
  assume n: "n < 2 ^ 62"
  then have "n \<le> unat unmetered" by (simp add: unmetered_def UNMETERED_unat)
  from charges_count [OF this] have c: "fst (charges n unmetered)"
    "unat (snd (charges n unmetered)) = 2 ^ 63 + 2 ^ 62 - n"
    by (simp_all add: unmetered_def UNMETERED_unat)
  with n show ?thesis by (simp add: is_metered_def word_le_nat_alt LARGEST_unat)
qed

theorem unmetered_never_pauses_witness:
  "fst (charges 1000 unmetered) \<and> \<not> is_metered (snd (charges 1000 unmetered))"
  using unmetered_never_pauses [of 1000] by simp

end
