(* ===== verification/Fibers.thy ===== *)
theory Fibers
  imports Delivery Fuel
begin

text \<open>
  Fibers and their parks (\<^verbatim>\<open>value/fiber.rs\<close>, \<^verbatim>\<open>frame.rs\<close>, \<^verbatim>\<open>dues.rs\<close>, \<^verbatim>\<open>parked.rs\<close>,
  \<^verbatim>\<open>status.rs\<close>): the region dues of an activation, the frames a park saves, and what a fiber
  that can never run again strands. The trace-only fields of a fiber (its call stack, its
  paused callers, the error location) and the debug-build borrow snapshots are left out.
\<close>

section \<open>Activation dues\<close>

record activation_dues =
  owner_node :: "nat option"
  deferred :: "nat list"

definition no_dues :: activation_dues where
  "no_dues = \<lparr>owner_node = None, deferred = []\<rparr>"

definition with_owner_node :: "nat \<Rightarrow> activation_dues" where
  "with_owner_node n = \<lparr>owner_node = Some n, deferred = []\<rparr>"

definition dues_is_empty :: "activation_dues \<Rightarrow> bool" where
  "dues_is_empty a \<longleftrightarrow> owner_node a = None \<and> deferred a = []"

definition defer_region :: "nat \<Rightarrow> activation_dues \<Rightarrow> activation_dues" where
  "defer_region r a = (if r \<in> set (deferred a) then a else a\<lparr>deferred := vpush (deferred a) r\<rparr>)"

definition take_deferred :: "activation_dues \<Rightarrow> nat list \<times> activation_dues" where
  "take_deferred a = (deferred a, a\<lparr>deferred := []\<rparr>)"

section \<open>Frames\<close>

record mapped_region =
  m_region :: nat
  m_gen :: nat

record code =
  code_signal :: signal
  frame_release_slots :: "nat list"
  frame_release_regions :: "nat list"

record bytecode_frame =
  f_code :: code
  f_env :: "evalue list"
  f_ip :: nat
  f_stack :: "evalue list"
  push_resume_value :: bool
  activation_region_map :: "(nat \<times> mapped_region) list"
  f_dues :: activation_dues
  f_current_closure :: evalue

datatype suspended_frame =
    Bytecode bytecode_frame
  | FiberResume (resume_handle: nat) (resume_value: evalue)

section \<open>Fibers\<close>

datatype fiber_status = New | Alive | Paused | Dead | Error

record native_iter =
  elements :: "evalue list"
  cursor :: nat

record fiber =
  stack :: "evalue list"
  status :: fiber_status
  fmask :: "64 word"
  parent_value :: "evalue option"
  child_value :: "evalue option"
  fclosure :: closure
  closure_value :: evalue
  param_frames :: "(nat \<times> evalue) list list"
  param_baseline_seeded :: bool
  signal_slot :: "(64 word \<times> evalue) option"
  ledger :: delivery
  suspended :: "suspended_frame list option"
  activation_region_maps :: "(nat \<times> mapped_region) list list"
  dues_stack :: "activation_dues list"
  fiber_owner_node :: "nat option"
  current_closure :: evalue
  call_depth :: nat
  fuel_word :: fuel
  withheld :: "64 word"
  iter :: "native_iter option"

definition new_fiber :: "closure \<Rightarrow> 64 word \<Rightarrow> fiber" where
  "new_fiber c m =
     \<lparr>stack = [], status = New, fmask = m, parent_value = None, child_value = None,
      fclosure = c, closure_value = NIL_V, param_frames = [], param_baseline_seeded = False,
      signal_slot = None, ledger = new_delivery, suspended = None,
      activation_region_maps = [[]], dues_stack = [no_dues], fiber_owner_node = None,
      current_closure = NIL_V, call_depth = 0, fuel_word = unmetered, withheld = EMPTY_BITS,
      iter = None\<rparr>"

definition native_iter_fiber :: "closure \<Rightarrow> evalue list \<Rightarrow> 64 word \<Rightarrow> fiber" where
  "native_iter_fiber noop_closure es m =
     (new_fiber noop_closure m)
       \<lparr>status := Paused, iter := Some \<lparr>elements = es, cursor = 0\<rparr>\<rparr>"

section \<open>What a parked chain owes\<close>

record parked_dues =
  nodes :: "nat list"
  p_deferred :: "nat list"
  owed :: "evalue list"
  owed_regions :: "mapped_region list"

definition no_parked_dues :: parked_dues where
  "no_parked_dues = \<lparr>nodes = [], p_deferred = [], owed = [], owed_regions = []\<rparr>"

definition frame_owed :: "bytecode_frame \<Rightarrow> evalue list" where
  "frame_owed f =
     concat (map (\<lambda>s. if s < length (f_stack f) \<and> as_heap_ptr (f_stack f ! s) \<noteq> None
                      then [f_stack f ! s] else [])
       (frame_release_slots (f_code f)))"

definition frame_owed_regions :: "bytecode_frame \<Rightarrow> mapped_region list" where
  "frame_owed_regions f =
     List.map_filter (map_of (activation_region_map f)) (frame_release_regions (f_code f))"

fun add_frame_dues :: "parked_dues \<Rightarrow> suspended_frame \<Rightarrow> parked_dues" where
  "add_frame_dues d (FiberResume h v) = d"
| "add_frame_dues d (Bytecode f) =
     d\<lparr>nodes := nodes d @ (case owner_node (f_dues f) of None \<Rightarrow> [] | Some n \<Rightarrow> [n]),
       p_deferred := p_deferred d @ deferred (f_dues f),
       owed := owed d @ frame_owed f,
       owed_regions := owed_regions d @ frame_owed_regions f\<rparr>"

definition parked_dues_of :: "suspended_frame list \<Rightarrow> parked_dues" where
  "parked_dues_of frames = foldl add_frame_dues no_parked_dues frames"

record parked_state =
  dues :: parked_dues
  p_signal :: "(64 word \<times> evalue) option"
  protect :: "evalue option"

definition owns_signal :: "suspended_frame list \<Rightarrow> bool" where
  "owns_signal frames = (case frames of Bytecode _ # _ \<Rightarrow> True | _ \<Rightarrow> False)"

text \<open>
  The second arm's guard takes the bodyless record whether or not it matches, as the source's
  does; the guards are tried in order and the first is evaluated without an effect.
\<close>

definition take_parked_signal ::
  "bool \<Rightarrow> fiber \<Rightarrow> (64 word \<times> evalue) option \<times> fiber" where
  "take_parked_signal own fb =
     (case signal_slot fb of
        None \<Rightarrow> (None, fb)
      | Some (bits, v) \<Rightarrow>
          if own \<and> \<not> is_terminal_signal bits then (Some (bits, v), fb\<lparr>signal_slot := None\<rparr>)
          else if own then
            (let (rec, l) = take_bodyless (ledger fb) in
             (if names rec v then Some (bits, v) else None, fb\<lparr>ledger := l\<rparr>))
          else (None, fb))"

definition take_parked_state :: "fiber \<Rightarrow> parked_state \<times> fiber" where
  "take_parked_state fb =
     (let frames = (case suspended fb of None \<Rightarrow> [] | Some fs \<Rightarrow> fs);
          fb1 = fb\<lparr>suspended := None\<rparr>;
          (sig, fb2) = take_parked_signal (owns_signal frames) fb1;
          carried = map_option snd (case sig of None \<Rightarrow> signal_slot fb2 | Some s \<Rightarrow> Some s);
          prot = (case carried of None \<Rightarrow> None
                  | Some v \<Rightarrow> if mint_names (ledger fb2) v then None else Some v);
          fb3 = (if sig \<noteq> None then fb2\<lparr>ledger := discharge (ledger fb2)\<rparr> else fb2)
      in (\<lparr>dues = parked_dues_of frames, p_signal = sig, protect = prot\<rparr>, fb3))"

section \<open>Facts\<close>

lemma defer_region_distinct: "distinct (deferred a) \<Longrightarrow> distinct (deferred (defer_region r a))"
  by (simp add: defer_region_def vpush_def)

lemma defer_region_set: "set (deferred (defer_region r a)) = insert r (set (deferred a))"
  by (auto simp: defer_region_def vpush_def)

lemma foldl_dues:
  "nodes (foldl add_frame_dues d fs) =
     nodes d @ concat (map (\<lambda>f. nodes (add_frame_dues no_parked_dues f)) fs)"
  "p_deferred (foldl add_frame_dues d fs) =
     p_deferred d @ concat (map (\<lambda>f. p_deferred (add_frame_dues no_parked_dues f)) fs)"
  "owed (foldl add_frame_dues d fs) =
     owed d @ concat (map (\<lambda>f. owed (add_frame_dues no_parked_dues f)) fs)"
  "owed_regions (foldl add_frame_dues d fs) =
     owed_regions d @ concat (map (\<lambda>f. owed_regions (add_frame_dues no_parked_dues f)) fs)"
proof (induction fs arbitrary: d)
  case (Cons f fs)
  case 1 show ?case using Cons.IH(1) [of "add_frame_dues d f"]
    by (cases f) (simp_all add: no_parked_dues_def)
  case 2 show ?case using Cons.IH(2) [of "add_frame_dues d f"]
    by (cases f) (simp_all add: no_parked_dues_def)
  case 3 show ?case using Cons.IH(3) [of "add_frame_dues d f"]
    by (cases f) (simp_all add: no_parked_dues_def)
  case 4 show ?case using Cons.IH(4) [of "add_frame_dues d f"]
    by (cases f) (simp_all add: no_parked_dues_def)
qed simp_all

lemma frame_owed_heap: "v \<in> set (frame_owed f) \<Longrightarrow> is_heap v"
  by (auto simp: frame_owed_def as_heap_ptr_def split: if_splits)

lemma parked_dues_of_append:
  "nodes (parked_dues_of (fs @ gs)) = nodes (parked_dues_of fs) @ nodes (parked_dues_of gs)"
  "p_deferred (parked_dues_of (fs @ gs)) = p_deferred (parked_dues_of fs) @ p_deferred (parked_dues_of gs)"
  "owed (parked_dues_of (fs @ gs)) = owed (parked_dues_of fs) @ owed (parked_dues_of gs)"
  "owed_regions (parked_dues_of (fs @ gs)) = owed_regions (parked_dues_of fs) @ owed_regions (parked_dues_of gs)"
  by (simp_all add: parked_dues_of_def foldl_dues no_parked_dues_def)

lemma take_parked_signal_frame [simp]:
  "suspended (snd (take_parked_signal own fb)) = suspended fb"
  by (auto simp: take_parked_signal_def Let_def take_bodyless_def split: option.splits prod.splits)

lemma take_parked_state_unfold:
  "take_parked_state fb =
     (let frames = (case suspended fb of None \<Rightarrow> [] | Some fs \<Rightarrow> fs);
          r = take_parked_signal (owns_signal frames) (fb\<lparr>suspended := None\<rparr>);
          carried = map_option snd (case fst r of None \<Rightarrow> signal_slot (snd r) | Some s \<Rightarrow> Some s)
      in (\<lparr>dues = parked_dues_of frames, p_signal = fst r,
           protect = (case carried of None \<Rightarrow> None
                      | Some v \<Rightarrow> if mint_names (ledger (snd r)) v then None else Some v)\<rparr>,
          if fst r \<noteq> None then (snd r)\<lparr>ledger := discharge (ledger (snd r))\<rparr> else snd r))"
  by (simp add: take_parked_state_def Let_def case_prod_unfold)

lemma suspended_after_take: "suspended (snd (take_parked_state fb)) = None"
  by (simp add: take_parked_state_unfold Let_def)

lemma ledger_after_take:
  "p_signal (fst (take_parked_state fb)) = None \<or> ledger (snd (take_parked_state fb)) = new_delivery"
  by (simp add: take_parked_state_unfold Let_def discharge_def new_delivery_def
      del: not_None_eq split_paired_All)

lemma take_parked_state_idle:
  assumes "suspended g = None"
  shows "snd (take_parked_state g) = g" "dues (fst (take_parked_state g)) = no_parked_dues"
    "p_signal (fst (take_parked_state g)) = None"
proof -
  have "g\<lparr>suspended := None\<rparr> = g" using assms by simp
  then show "snd (take_parked_state g) = g" "dues (fst (take_parked_state g)) = no_parked_dues"
    "p_signal (fst (take_parked_state g)) = None"
    using assms by (simp_all add: take_parked_state_unfold Let_def owns_signal_def
        take_parked_signal_def parked_dues_of_def split: option.splits)
qed

section \<open>Properties\<close>

text \<open>
  C21: Taking the parked state of a fiber is a single discharge. After the first take the
  chain is gone; the second take owes nothing, releases no signal and changes nothing. When
  the first reported a signal the ledger is empty, so a later resume mints nothing.
\<close>

theorem parked_state_taken_once:
  "let fb' = snd (take_parked_state fb); again = take_parked_state fb' in
     suspended fb' = None
     \<and> dues (fst again) = no_parked_dues \<and> p_signal (fst again) = None \<and> snd again = fb'
     \<and> (p_signal (fst (take_parked_state fb)) = None \<or> ledger fb' = new_delivery)"
  using suspended_after_take [of fb] ledger_after_take [of fb]
    take_parked_state_idle [OF suspended_after_take [of fb]] by (simp add: Let_def)

text \<open>
  C22: Which parked signal a discharge reports. It reports one exactly when the suspend ran on
  this fiber (its innermost frame is its own bytecode) and the signal is not terminal, or is
  the terminal payload the runtime built itself. A reported signal that is not terminal leaves
  the slot; a terminal one stays for the fiber's reader. The payload left standing is the
  signal's own, unless the raise minted its delivery.
\<close>

theorem parked_signal_reported:
  "let own = owns_signal (case suspended fb of None \<Rightarrow> [] | Some fs \<Rightarrow> fs);
       p = fst (take_parked_state fb); fb' = snd (take_parked_state fb) in
     p_signal p = (case signal_slot fb of
         None \<Rightarrow> None
       | Some (b, v) \<Rightarrow> if own \<and> (if is_terminal_signal b then bodyless (ledger fb) = Some v else True)
                        then Some (b, v) else None)
     \<and> signal_slot fb' = (case signal_slot fb of
         None \<Rightarrow> None
       | Some (b, v) \<Rightarrow> if own \<and> \<not> is_terminal_signal b then None else Some (b, v))
     \<and> protect p = (case signal_slot fb of
         None \<Rightarrow> None
       | Some (b, v) \<Rightarrow> if mint_names (ledger fb) v then None else Some v)"
  by (cases "signal_slot fb")
    (auto simp: take_parked_state_unfold Let_def take_parked_signal_def take_bodyless_def
      mint_names_def split: prod.splits)

end
