(* ===== verification/Cross_Refs.thy ===== *)
theory Cross_Refs
  imports Fibers
begin

text \<open>
  The content scan of a heap object: every value it holds in another region
  (\<^verbatim>\<open>find_object_cross_refs\<close> in \<^verbatim>\<open>value/fiberheap/regionpool/introspect.rs\<close> and the fiber arm
  in \<^verbatim>\<open>introspect/fiber.rs\<close>). The scan is parametrised by the store's resolution of a pointer
  to its owning region and by the table of fibers a handle reaches (\<^const>\<open>None\<close> while the
  fiber runs or is borrowed).
\<close>

section \<open>The values an object holds\<close>

definition backing_values :: "nat \<Rightarrow> 'a region_slice \<Rightarrow> evalue list" where
  "backing_values t s = (if slice_is_empty s then [] else [from_heap_ptr (slice_ptr s) t])"

definition entry_values :: "(table_key \<times> evalue) list \<Rightarrow> evalue list" where
  "entry_values es = concat (map (\<lambda>(k, v). key_heap_values k @ [v]) es)"

definition store_values :: "('a \<Rightarrow> evalue list) \<Rightarrow> 'a mstore \<Rightarrow> evalue list" where
  "store_values f s = (case try_read s of None \<Rightarrow> [] | Some c \<Rightarrow> f c)"

definition fiber_edges :: "fiber option \<Rightarrow> evalue list" where
  "fiber_edges slot =
     (case slot of
        None \<Rightarrow> [NIL_V, NIL_V]
      | Some fb \<Rightarrow>
          backing_values TAG_ARRAY (env (fclosure fb))
          @ (if template (fclosure fb) = NIL_V then [] else [template (fclosure fb)])
          @ slice_items (env (fclosure fb))
          @ [case signal_slot fb of
               None \<Rightarrow> NIL_V
             | Some (bits, v) \<Rightarrow> if is_terminal_signal bits then v else NIL_V]
          @ [closure_value fb]
          @ (if param_baseline_seeded fb then
               (case param_frames fb of [] \<Rightarrow> [] | base # _ \<Rightarrow> map snd base) else []))"

fun content_values :: "(nat \<Rightarrow> fiber option) \<Rightarrow> heap_object \<Rightarrow> evalue list" where
  "content_values fib (LArrayMut data _) = store_values id data"
| "content_values fib (LStructMut data _) = store_values entry_values data"
| "content_values fib (LBox cell _) = [cell]"
| "content_values fib (CaptureCell cell _ _) = [cell]"
| "content_values fib (LSetMut data _) = store_values id data"
| "content_values fib (HClosure c _) =
     backing_values TAG_ARRAY (env c) @ slice_items (env c) @ [template c]"
| "content_values fib (HPair a b _) = [a, b]"
| "content_values fib (LArray es _) = slice_items es"
| "content_values fib (LStruct data _) = entry_values (slice_items data)"
| "content_values fib (LSet data _) = slice_items data"
| "content_values fib (Parameter _ d _) = [d]"
| "content_values fib (LString s _) = backing_values TAG_BYTES s"
| "content_values fib (LBytes s _) = backing_values TAG_BYTES s"
| "content_values fib (LStringMut _ _) = []"
| "content_values fib (LBytesMut _ _) = []"
| "content_values fib (HFloat _) = []"
| "content_values fib (LibHandle _) = []"
| "content_values fib (HFiber h _) = fiber_edges (fib h)"
| "content_values fib (ClosureTemplate t) =
     from_heap_ptr (payload_backing t) TAG_ARRAY # constants t"
| "content_values fib (ThreadHandle _ _) = []"
| "content_values fib (HSyntax _ _) = []"
| "content_values fib (FFISignature _) = []"
| "content_values fib (FFIType _) = []"
| "content_values fib (ManagedPointer _ _) = []"
| "content_values fib (External _ _) = []"

section \<open>The scan\<close>

definition check_ref :: "nat \<Rightarrow> (nat \<Rightarrow> nat) \<Rightarrow> evalue \<Rightarrow> nat list" where
  "check_ref own owner v =
     (case as_heap_ptr v of
        None \<Rightarrow> []
      | Some p \<Rightarrow> if 1 < owner p \<and> owner p \<noteq> own then [owner p] else [])"

definition find_object_cross_refs ::
  "(nat \<Rightarrow> fiber option) \<Rightarrow> (nat \<Rightarrow> nat) \<Rightarrow> nat \<Rightarrow> heap_object \<Rightarrow> nat list" where
  "find_object_cross_refs fib owner own obj =
     concat (map (check_ref own owner) (traits obj # content_values fib obj))"

lemma check_ref_nil [simp]: "check_ref own owner NIL_V = []"
  by (simp add: check_ref_def)

lemma check_ref_set:
  "r \<in> set (check_ref own owner v) \<longleftrightarrow>
     (\<exists>p. as_heap_ptr v = Some p \<and> r = owner p \<and> 1 < r \<and> r \<noteq> own)"
  by (cases "as_heap_ptr v") (auto simp: check_ref_def)

lemma cross_refs_set:
  "r \<in> set (find_object_cross_refs fib owner own obj) \<longleftrightarrow>
     (\<exists>v \<in> set (traits obj # content_values fib obj). \<exists>p.
        as_heap_ptr v = Some p \<and> r = owner p \<and> 1 < r \<and> r \<noteq> own)"
  by (simp add: find_object_cross_refs_def check_ref_set)

text \<open>The scan depends on the store only through the owners of the pointers it reads.\<close>

lemma cross_refs_cong:
  assumes "\<And>v p. v \<in> set (traits obj # content_values fib obj) \<Longrightarrow> as_heap_ptr v = Some p \<Longrightarrow>
             owner p = owner' p"
  shows "find_object_cross_refs fib owner own obj = find_object_cross_refs fib owner' own obj"
  unfolding find_object_cross_refs_def
  by (rule arg_cong [where f = concat], rule map_cong)
    (use assms in \<open>auto simp: check_ref_def split: option.splits\<close>)

section \<open>Properties\<close>

text \<open>
  C36: The teardown tables cover the scan. An object with a reference into another region is
  of a variant that is dropped or walked for references at its region's free, with the managed
  pointer the one exception: its only references are those of its trait table.
\<close>

theorem scanned_objects_are_walked:
  assumes "find_object_cross_refs fib owner own obj \<noteq> []"
  shows "needs_drop (obj_tag obj) \<or> holds_value_refs (obj_tag obj)
    \<or> (\<exists>a t. obj = ManagedPointer a t
         \<and> find_object_cross_refs fib owner own obj = check_ref own owner t)"
  using assms by (cases obj) (simp_all add: find_object_cross_refs_def)

theorem scanned_objects_are_walked_witness:
  "let p = HPair \<lparr>tag = 16, payload = 4096\<rparr> NIL_V NIL_V in
     find_object_cross_refs (\<lambda>_. None) (\<lambda>p. p div 4096 + 2) 2 p \<noteq> []
     \<and> (needs_drop (obj_tag p) \<or> holds_value_refs (obj_tag p)
        \<or> (\<exists>a t. p = ManagedPointer a t
             \<and> find_object_cross_refs (\<lambda>_. None) (\<lambda>p. p div 4096 + 2) 2 p
               = check_ref 2 (\<lambda>p. p div 4096 + 2) t))"
  using scanned_objects_are_walked
    [of "\<lambda>_. None" "\<lambda>p. p div 4096 + 2" 2 "HPair \<lparr>tag = 16, payload = 4096\<rparr> NIL_V NIL_V"]
  by (simp add: find_object_cross_refs_def check_ref_def as_heap_ptr_def is_heap_def
      TAG_HEAP_START_def Let_def)


end
