(* ===== verification/Region_Pool.thy ===== *)
theory Region_Pool
  imports Page_Pool Cross_Refs
begin

text \<open>
  The storage of one region (\<^verbatim>\<open>value/fiberheap/regionpool.rs\<close> with \<^verbatim>\<open>header.rs\<close>, \<^verbatim>\<open>image.rs\<close>
  and \<^verbatim>\<open>introspect.rs\<close>): the page header and the masked walk that finds it, the two cursors of a
  page, allocation of objects and inline data, adoption of an image and teardown. Memory is the
  bytes of the address space, the heap objects written into it, and the fibers behind the
  handles; the bytes an object or a slice item occupies are the layout's and come from the
  platform or an argument.
\<close>

record memory =
  mbytes :: bytes
  objs :: "nat \<Rightarrow> heap_object option"
  fibs :: "nat \<Rightarrow> fiber option"

definition empty_memory :: memory where
  "empty_memory = \<lparr>mbytes = (\<lambda>_. 0), objs = (\<lambda>_. None), fibs = (\<lambda>_. None)\<rparr>"

section \<open>The page header\<close>

definition read32 :: "bytes \<Rightarrow> nat \<Rightarrow> nat" where
  "read32 m a = m a + 256 * m (a + 1) + 65536 * m (a + 2) + 16777216 * m (a + 3)"

definition le32 :: "nat \<Rightarrow> nat list" where
  "le32 v = [v mod 256, v div 256 mod 256, v div 65536 mod 256, v div 16777216 mod 256]"

record page_stamp =
  generation :: nat
  store :: nat

definition default_stamp :: page_stamp where
  "default_stamp = \<lparr>generation = 0, store = 0\<rparr>"

definition PAGE_MAGIC :: nat where "PAGE_MAGIC = 0x00E11E5C"

definition size_tag :: "nat \<Rightarrow> nat" where
  "size_tag sz = or (push_bit 8 PAGE_MAGIC) (tz sz)"

definition header_write :: "nat \<Rightarrow> nat \<Rightarrow> page_stamp \<Rightarrow> nat \<Rightarrow> bytes \<Rightarrow> bytes" where
  "header_write base rid stamp len m =
     write_bytes base
       (le32 rid @ le32 (generation stamp) @ le32 (store stamp) @ le32 (size_tag len)) m"

definition header_if_valid :: "bytes \<Rightarrow> nat \<Rightarrow> nat \<Rightarrow> (nat \<times> page_stamp) option" where
  "header_if_valid m addr sz =
     (let b = mask_down sz addr in
      if read32 m (b + 12) = size_tag sz
      then Some (read32 m b, \<lparr>generation = read32 m (b + 4), store = read32 m (b + 8)\<rparr>)
      else None)"

text \<open>The walk over the alignments \<open>2 ^ k\<close>; doubling \<open>2 ^ 63\<close> shifts the size to zero.\<close>

function header_walk :: "bytes \<Rightarrow> nat \<Rightarrow> nat \<Rightarrow> nat \<times> page_stamp" where
  "header_walk m addr k =
     (if 64 \<le> k then (0, default_stamp)
      else (case header_if_valid m addr (2 ^ k) of
              Some h \<Rightarrow> h
            | None \<Rightarrow> header_walk m addr (Suc k)))"
  by pat_completeness auto
termination
  by (relation "measure (\<lambda>(m, addr, k). 64 - k)") auto

declare header_walk.simps [simp del]

definition header_of_page_ptr :: "bytes \<Rightarrow> nat \<Rightarrow> nat \<Rightarrow> nat \<times> page_stamp" where
  "header_of_page_ptr m addr min_page_size = header_walk m addr (tz min_page_size)"

definition region_of_page_ptr :: "bytes \<Rightarrow> nat \<Rightarrow> nat \<Rightarrow> nat" where
  "region_of_page_ptr m addr min_page_size = fst (header_of_page_ptr m addr min_page_size)"

section \<open>Pages of a region\<close>

record region_page =
  rpage :: mmap_page
  obj_cursor :: nat
  data_cursor :: nat

definition region_page_new :: "mmap_page \<Rightarrow> nat \<Rightarrow> page_stamp \<Rightarrow> bytes \<Rightarrow> region_page \<times> bytes" where
  "region_page_new pg rid stamp m =
     (\<lparr>rpage = pg, obj_cursor = HEADER_SIZE, data_cursor = page_len pg\<rparr>,
      header_write (ptr pg) rid stamp (page_len pg) m)"

definition page_remaining :: "region_page \<Rightarrow> nat" where
  "page_remaining rp = data_cursor rp - obj_cursor rp"

definition try_alloc_obj ::
  "platform \<Rightarrow> region_page \<Rightarrow> bytes \<Rightarrow> (nat \<times> region_page \<times> bytes) option" where
  "try_alloc_obj pf rp m =
     (let sz = obj_size pf; al = obj_align pf;
          aligned0 = align_up al (obj_cursor rp);
          boundary = align_up (base_page pf) aligned0;
          crosses = boundary < aligned0 + sz;
          aligned = (if crosses then align_up al (boundary + HEADER_SIZE) else aligned0)
      in if data_cursor rp < aligned + sz then None
         else Some (ptr (rpage rp) + aligned, rp\<lparr>obj_cursor := aligned + sz\<rparr>,
                    if crosses then zero_bytes (ptr (rpage rp) + boundary) HEADER_SIZE m else m))"

definition page_alloc_data :: "nat \<Rightarrow> nat \<Rightarrow> region_page \<Rightarrow> (nat \<times> region_page) option" where
  "page_alloc_data sz al rp =
     (if data_cursor rp < sz then None
      else (let start = mask_down al (data_cursor rp - sz) in
            if start < obj_cursor rp then None
            else Some (ptr (rpage rp) + start, rp\<lparr>data_cursor := start\<rparr>)))"

definition release_into :: "platform \<Rightarrow> region_page \<Rightarrow> page_pool \<times> bytes \<Rightarrow> page_pool \<times> bytes" where
  "release_into pf rp st =
     release pf (rpage rp)
       (dirty_new (HEADER_SIZE, obj_cursor rp) (data_cursor rp, page_len (rpage rp))) st"

definition page_contains :: "region_page \<Rightarrow> nat \<Rightarrow> bool" where
  "page_contains rp a \<longleftrightarrow> ptr (rpage rp) \<le> a \<and> a < ptr (rpage rp) + page_len (rpage rp)"

section \<open>The pool of a region\<close>

definition MAX_PAGE_SIZE :: nat where "MAX_PAGE_SIZE = push_bit 22 1"

record image_span =
  span_start :: nat
  span_end :: nat
  span_pages :: nat

record region_pool =
  rpages :: "region_page list"
  region_id :: nat
  stamp :: page_stamp
  obj_count :: nat
  dtors :: "nat list"
  ref_objs :: "nat list"
  next_page_size :: nat
  image :: "image_span option"

definition region_pool_new :: "nat \<Rightarrow> page_stamp \<Rightarrow> nat \<Rightarrow> region_pool" where
  "region_pool_new rid st initial =
     \<lparr>rpages = [], region_id = rid, stamp = st, obj_count = 0, dtors = [], ref_objs = [],
      next_page_size = initial, image = None\<rparr>"

definition add_page ::
  "platform \<Rightarrow> (nat \<Rightarrow> nat option) \<Rightarrow> region_pool \<Rightarrow> page_pool \<Rightarrow> bytes
     \<Rightarrow> (region_pool \<times> page_pool \<times> bytes) option" where
  "add_page pf mm r pool m =
     (case claim pf mm (next_page_size r) pool of
        None \<Rightarrow> None
      | Some (pg, pool') \<Rightarrow>
          (let (rp, m') = region_page_new pg (region_id r) (stamp r) m in
           Some (r\<lparr>rpages := vpush (rpages r) rp,
                   next_page_size := min (2 * next_page_size r) MAX_PAGE_SIZE\<rparr>, pool', m')))"

definition set_last_page :: "region_page \<Rightarrow> region_pool \<Rightarrow> region_pool" where
  "set_last_page rp r = r\<lparr>rpages := (rpages r)[length (rpages r) - 1 := rp]\<rparr>"

definition write_obj :: "platform \<Rightarrow> nat \<Rightarrow> heap_object \<Rightarrow> memory \<Rightarrow> memory" where
  "write_obj pf p ob mem =
     mem\<lparr>mbytes := write_bytes p (obj_bytes pf ob) (mbytes mem), objs := (objs mem)(p \<mapsto> ob)\<rparr>"

text \<open>Allocation in the last page, if there is one with room.\<close>

definition alloc_last :: "platform \<Rightarrow> region_pool \<Rightarrow> bytes \<Rightarrow> (nat \<times> region_pool \<times> bytes) option" where
  "alloc_last pf r m =
     (if rpages r = [] then None
      else (case try_alloc_obj pf (last (rpages r)) m of
              None \<Rightarrow> None
            | Some (p, rp, m') \<Rightarrow> Some (p, set_last_page rp r, m')))"

definition alloc_obj_raw ::
  "platform \<Rightarrow> (nat \<Rightarrow> nat option) \<Rightarrow> heap_object \<Rightarrow> region_pool \<Rightarrow> page_pool \<Rightarrow> memory
     \<Rightarrow> (nat \<times> region_pool \<times> page_pool \<times> memory) option" where
  "alloc_obj_raw pf mm ob r pool mem =
     (case alloc_last pf r (mbytes mem) of
        Some (p, r', m') \<Rightarrow> Some (p, r', pool, write_obj pf p ob (mem\<lparr>mbytes := m'\<rparr>))
      | None \<Rightarrow>
          (case add_page pf mm r pool (mbytes mem) of
             None \<Rightarrow> None
           | Some (r1, pool1, m1) \<Rightarrow>
               (case alloc_last pf r1 m1 of
                  None \<Rightarrow> None
                | Some (p, r2, m2) \<Rightarrow>
                    Some (p, r2, pool1, write_obj pf p ob (mem\<lparr>mbytes := m2\<rparr>)))))"

text \<open>The route of an object into the teardown tables.\<close>

definition track_obj :: "nat \<Rightarrow> heap_tag \<Rightarrow> region_pool \<Rightarrow> region_pool" where
  "track_obj p t r =
     (if needs_drop t then r\<lparr>dtors := vpush (dtors r) p\<rparr>
      else if holds_value_refs t then r\<lparr>ref_objs := vpush (ref_objs r) p\<rparr>
      else r)"

definition alloc_obj ::
  "platform \<Rightarrow> (nat \<Rightarrow> nat option) \<Rightarrow> heap_object \<Rightarrow> region_pool \<Rightarrow> page_pool \<Rightarrow> memory
     \<Rightarrow> (evalue \<times> region_pool \<times> page_pool \<times> memory) option" where
  "alloc_obj pf mm ob r pool mem =
     (case value_tag ob of
        None \<Rightarrow> None
      | Some vt \<Rightarrow>
          (case alloc_obj_raw pf mm ob r pool mem of
             None \<Rightarrow> None
           | Some (p, r', pool', mem') \<Rightarrow>
               (let r'' = track_obj p (obj_tag ob) r' in
                Some (from_heap_ptr p vt, r''\<lparr>obj_count := obj_count r'' + 1\<rparr>, pool', mem'))))"

text \<open>The doubling loop of \<^verbatim>\<open>alloc_data\<close>; \<^const>\<open>None\<close> is a loop that never ends.\<close>

partial_function (option) grow_to :: "nat \<Rightarrow> nat \<Rightarrow> nat option" where
  "grow_to n m = (if n < m then grow_to (n * 2) m else Some n)"

definition data_last :: "nat \<Rightarrow> nat \<Rightarrow> region_pool \<Rightarrow> (nat \<times> region_pool) option" where
  "data_last sz al r =
     (if rpages r = [] then None
      else (case page_alloc_data sz al (last (rpages r)) of
              None \<Rightarrow> None
            | Some (p, rp) \<Rightarrow> Some (p, set_last_page rp r)))"

definition alloc_data ::
  "platform \<Rightarrow> (nat \<Rightarrow> nat option) \<Rightarrow> nat \<Rightarrow> nat \<Rightarrow> region_pool \<Rightarrow> page_pool \<Rightarrow> bytes
     \<Rightarrow> (nat \<times> region_pool \<times> page_pool \<times> bytes) option" where
  "alloc_data pf mm sz al r pool m =
     (if sz = 0 then Some (1, r, pool, m)
      else (case data_last sz al r of
        Some (p, r') \<Rightarrow> Some (p, r', pool, m)
      | None \<Rightarrow>
          (case grow_to (next_page_size r) (HEADER_SIZE + sz + al) of
             None \<Rightarrow> None
           | Some n \<Rightarrow>
               (case add_page pf mm (r\<lparr>next_page_size := n\<rparr>) pool m of
                  None \<Rightarrow> None
                | Some (r1, pool1, m1) \<Rightarrow>
                    (case data_last sz al r1 of
                       None \<Rightarrow> None
                     | Some (p, r2) \<Rightarrow> Some (p, r2, pool1, m1))))))"

text \<open>
  A slice copied into the region. \<open>esz\<close>, \<open>eal\<close> and \<open>enc\<close> are the item type's layout; the length
  is stored in 32 bits, as \<^verbatim>\<open>items.len() as u32\<close>.
\<close>

definition alloc_region_slice ::
  "platform \<Rightarrow> (nat \<Rightarrow> nat option) \<Rightarrow> nat \<Rightarrow> nat \<Rightarrow> ('a \<Rightarrow> nat list) \<Rightarrow> 'a list
     \<Rightarrow> region_pool \<Rightarrow> page_pool \<Rightarrow> memory
     \<Rightarrow> ('a region_slice \<times> region_pool \<times> page_pool \<times> memory) option" where
  "alloc_region_slice pf mm esz eal enc items r pool mem =
     (if items = [] then Some (RegionSlice eal [], r, pool, mem)
      else (case alloc_data pf mm (esz * length items) eal r pool (mbytes mem) of
              None \<Rightarrow> None
            | Some (p, r', pool', m') \<Rightarrow>
                Some (RegionSlice p (take (length items mod (u32_max + 1)) items), r', pool',
                      mem\<lparr>mbytes := write_bytes p (concat (map enc items)) m'\<rparr>)))"

text \<open>Teardown answers the objects freed; the destructors run in reverse allocation order.\<close>

definition dropped_objs :: "region_pool \<Rightarrow> nat list" where
  "dropped_objs r = filter (\<lambda>p. p \<noteq> 0) (rev (dtors r))"

definition pool_teardown ::
  "platform \<Rightarrow> region_pool \<Rightarrow> page_pool \<Rightarrow> bytes \<Rightarrow> nat \<times> region_pool \<times> page_pool \<times> bytes" where
  "pool_teardown pf r pool m =
     (let (pool', m') = fold (release_into pf) (rpages r) (pool, m) in
      (obj_count r,
       r\<lparr>dtors := [], ref_objs := [], rpages := [], image := None, obj_count := 0\<rparr>, pool', m'))"

section \<open>Image pages\<close>

definition image_contains :: "region_pool \<Rightarrow> nat \<Rightarrow> bool" where
  "image_contains r a =
     (case image r of None \<Rightarrow> False | Some s \<Rightarrow> span_start s \<le> a \<and> a < span_end s)"

fun adopt_pages ::
  "region_pool \<Rightarrow> (mmap_page \<times> nat \<times> nat) list \<Rightarrow> (nat \<times> nat) option \<Rightarrow> bytes
     \<Rightarrow> region_pool \<times> (nat \<times> nat) option \<times> bytes" where
  "adopt_pages r [] iv m = (r, iv, m)"
| "adopt_pages r ((pg, oc, dc) # rest) iv m =
     (let base = ptr pg; end' = base + page_len pg;
          iv' = (case iv of None \<Rightarrow> Some (base, end')
                 | Some (s, e) \<Rightarrow> Some (min s base, max e end'));
          (rp, m') = region_page_new pg (region_id r) (stamp r) m
      in adopt_pages (r\<lparr>rpages := vpush (rpages r) (rp\<lparr>obj_cursor := oc, data_cursor := dc\<rparr>)\<rparr>)
           rest iv' m')"

definition adopt_image ::
  "region_pool \<Rightarrow> (mmap_page \<times> nat \<times> nat) list \<Rightarrow> bytes \<Rightarrow> region_pool \<times> bytes" where
  "adopt_image r pgs m =
     (let (r', iv, m') = adopt_pages r pgs None m in
      (case iv of
         None \<Rightarrow> r'
       | Some (s, e) \<Rightarrow>
           r'\<lparr>image := Some \<lparr>span_start = s, span_end = e, span_pages = length (rpages r')\<rparr>\<rparr>, m'))"

definition install_object_index :: "(nat \<times> heap_tag) list \<Rightarrow> region_pool \<Rightarrow> region_pool" where
  "install_object_index xs r =
     (let r' = fold (\<lambda>(p, t). track_obj p t) xs r in r'\<lparr>obj_count := obj_count r' + length xs\<rparr>)"

section \<open>What a pool says about itself\<close>

definition allocated_bytes :: "region_pool \<Rightarrow> nat" where
  "allocated_bytes r = sum_list (map (\<lambda>rp. page_len (rpage rp)) (rpages r))"

definition page_ranges :: "region_pool \<Rightarrow> (nat \<times> nat) list" where
  "page_ranges r =
     map (\<lambda>rp. (ptr (rpage rp), ptr (rpage rp) + page_len (rpage rp))) (rpages r)"

definition owns :: "region_pool \<Rightarrow> nat \<Rightarrow> bool" where
  "owns r a \<longleftrightarrow>
     image_contains r a
     \<or> list_ex (\<lambda>rp. page_contains rp a)
         (drop (case image r of None \<Rightarrow> 0 | Some s \<Rightarrow> span_pages s) (rpages r))"

definition live_objects :: "(nat \<Rightarrow> heap_object option) \<Rightarrow> region_pool \<Rightarrow> heap_object list" where
  "live_objects ob r =
     List.map_filter ob (filter (\<lambda>p. p \<noteq> 0) (dtors r @ ref_objs r))"

definition find_region_cross_refs ::
  "memory \<Rightarrow> (nat \<Rightarrow> nat) \<Rightarrow> nat \<Rightarrow> region_pool \<Rightarrow> nat list" where
  "find_region_cross_refs mem owner own r =
     concat (map (find_object_cross_refs (fibs mem) owner own) (live_objects (objs mem) r))"

section \<open>Headers\<close>

lemma read32_le32:
  assumes "v \<le> u32_max" "\<And>i. i < 4 \<Longrightarrow> m (a + i) = le32 v ! i"
  shows "read32 m a = v"
proof -
  have "m a = v mod 256" "m (a + 1) = v div 256 mod 256" "m (a + 2) = v div 65536 mod 256"
    "m (a + 3) = v div 16777216 mod 256"
    using assms(2) [of 0] assms(2) [of 1] assms(2) [of 2] assms(2) [of 3]
    by (simp_all add: le32_def numeral_2_eq_2 numeral_3_eq_3)
  moreover have "v div 16777216 mod 256 = v div 16777216" using assms(1) by (simp add: u32_max_def)
  moreover have "v div 65536 = v div 256 div 256" "v div 16777216 = v div 65536 div 256"
    by (simp_all add: div_mult2_eq [symmetric])
  moreover have "v mod 256 + 256 * (v div 256) = v"
    "v div 256 mod 256 + 256 * (v div 256 div 256) = v div 256"
    "v div 65536 mod 256 + 256 * (v div 65536 div 256) = v div 65536"
    by (simp_all only: mod_mult_div_eq)
  ultimately show ?thesis unfolding read32_def by linarith
qed

lemma size_tag_take: "tz sz \<le> 64 \<Longrightarrow> take_bit 8 (size_tag sz) = tz sz"
  by (simp add: size_tag_def PAGE_MAGIC_def take_bit_or take_bit_push_bit take_bit_nat_eq_self_iff)

lemma size_tag_neq: "i < 64 \<Longrightarrow> j < 64 \<Longrightarrow> i \<noteq> j \<Longrightarrow> size_tag (2 ^ i) \<noteq> size_tag (2 ^ j)"
  using size_tag_take [of "2 ^ i"] size_tag_take [of "2 ^ j"] by auto

lemma size_tag_pos: "size_tag sz \<noteq> 0"
  unfolding size_tag_def or_eq_0_iff by (simp add: PAGE_MAGIC_def)

lemma size_tag_bound: "tz sz \<le> 64 \<Longrightarrow> size_tag sz \<le> u32_max"
proof -
  assume "tz sz \<le> 64"
  then have "take_bit 32 (tz sz) = tz sz" by (intro take_bit_nat_eq_self) simp
  then have "take_bit 32 (size_tag sz) = size_tag sz"
    by (simp add: size_tag_def PAGE_MAGIC_def take_bit_or)
  then show ?thesis using take_bit_nat_less_exp [of 32 "size_tag sz"] by (simp add: u32_max_def)
qed

lemma read32_other:
  assumes "\<And>i. i < 4 \<Longrightarrow> m (a + i) = m' (a + i)"
  shows "read32 m a = read32 m' a"
  using assms [of 0] assms [of 1] assms [of 2] assms [of 3] by (simp add: read32_def)

lemma header_write_reads:
  assumes "rid \<le> u32_max" "generation st \<le> u32_max" "store st \<le> u32_max" "tz len \<le> 64"
  shows "read32 (header_write a rid st len m) a = rid"
    "read32 (header_write a rid st len m) (a + 4) = generation st"
    "read32 (header_write a rid st len m) (a + 8) = store st"
    "read32 (header_write a rid st len m) (a + 12) = size_tag len"
proof -
  have n: "length (le32 v) = 4" for v by (simp add: le32_def)
  have at: "header_write a rid st len m (a + (d + i)) =
      (le32 rid @ le32 (generation st) @ le32 (store st) @ le32 (size_tag len)) ! (d + i)"
    if "d + i < 16" for d i
    using that by (simp add: header_write_def write_bytes_def n)
  show "read32 (header_write a rid st len m) a = rid"
    by (rule read32_le32 [OF assms(1)]) (use at [of 0] in \<open>simp add: nth_append n\<close>)
  show "read32 (header_write a rid st len m) (a + 4) = generation st"
    by (rule read32_le32 [OF assms(2)]) (use at [of 4] in \<open>simp add: nth_append n add.assoc\<close>)
  show "read32 (header_write a rid st len m) (a + 8) = store st"
    by (rule read32_le32 [OF assms(3)]) (use at [of 8] in \<open>simp add: nth_append n add.assoc\<close>)
  show "read32 (header_write a rid st len m) (a + 12) = size_tag len"
    by (rule read32_le32 [OF size_tag_bound [OF assms(4)]])
      (use at [of 12] in \<open>simp add: nth_append n add.assoc\<close>)
qed

lemma header_walk_finds:
  assumes "i \<le> j" "j < 64" "\<And>k. i \<le> k \<Longrightarrow> k < j \<Longrightarrow> header_if_valid m a (2 ^ k) = None"
    "header_if_valid m a (2 ^ j) = Some h"
  shows "header_walk m a i = h"
  using assms
proof (induction "j - i" arbitrary: i)
  case 0
  then show ?case by (simp add: header_walk.simps)
next
  case (Suc d)
  then have "header_if_valid m a (2 ^ i) = None" by auto
  with Suc show ?case by (simp add: header_walk.simps [of m a i])
qed

text \<open>Whatever the bytes say, the walk answers a header that self-validates or none at all.\<close>

lemma header_walk_cases:
  "header_walk m a i = (0, default_stamp)
   \<or> (\<exists>k. i \<le> k \<and> k < 64 \<and> header_if_valid m a (2 ^ k) = Some (header_walk m a i))"
proof (induction m a i rule: header_walk.induct)
  case (1 m a k)
  show ?case
  proof (cases "k < 64 \<and> header_if_valid m a (2 ^ k) = None")
    case True
    then have e: "header_walk m a k = header_walk m a (Suc k)"
      by (simp add: header_walk.simps [of m a k])
    from True 1 show ?thesis unfolding e by (meson Suc_leD not_le)
  next
    case False
    then show ?thesis by (cases "header_if_valid m a (2 ^ k)")
      (auto simp: header_walk.simps [of m a k])
  qed
qed

end
