(* ===== verification/Region_Layout.thy ===== *)
theory Region_Layout
  imports Region_Pool
begin

text \<open>
  The layout of a region page: the two cursors never cross, object slots never overlap and
  never cover the header-sized bytes at a base page boundary, and the masked walk from any
  object pointer finds the header of its own page. A fresh page is always large enough.
\<close>

section \<open>Cursors\<close>

definition clear_of_headers :: "platform \<Rightarrow> nat \<Rightarrow> nat \<Rightarrow> bool" where
  "clear_of_headers pf s e \<longleftrightarrow> (\<forall>q. base_page pf dvd q \<longrightarrow> e \<le> q \<or> q + HEADER_SIZE \<le> s)"

definition cursor_clear :: "platform \<Rightarrow> nat \<Rightarrow> bool" where
  "cursor_clear pf c \<longleftrightarrow> (\<forall>q. base_page pf dvd q \<longrightarrow> c \<le> q \<or> q + HEADER_SIZE \<le> c)"

lemma cursor_clearD: "cursor_clear pf c \<Longrightarrow> base_page pf dvd q \<Longrightarrow> q < c \<Longrightarrow> q + HEADER_SIZE \<le> c"
  unfolding cursor_clear_def by (meson not_le)

lemma clearD: "clear_of_headers pf s e \<Longrightarrow> base_page pf dvd q \<Longrightarrow> q < e \<Longrightarrow> q + HEADER_SIZE \<le> s"
  unfolding clear_of_headers_def by (meson not_le)

definition rp_ok :: "platform \<Rightarrow> region_page \<Rightarrow> bool" where
  "rp_ok pf rp \<longleftrightarrow>
     page_ok pf (rpage rp) \<and> HEADER_SIZE \<le> obj_cursor rp \<and> obj_cursor rp \<le> data_cursor rp
     \<and> data_cursor rp \<le> page_len (rpage rp)
     \<and> cursor_clear pf (obj_cursor rp)"

lemma rp_okD:
  assumes "rp_ok pf rp"
  shows "page_ok pf (rpage rp)" "HEADER_SIZE \<le> obj_cursor rp" "obj_cursor rp \<le> data_cursor rp"
    "data_cursor rp \<le> page_len (rpage rp)"
    "cursor_clear pf (obj_cursor rp)"
  using assms by (simp_all only: rp_ok_def)

lemma rp_okI:
  "page_ok pf (rpage rp) \<Longrightarrow> HEADER_SIZE \<le> obj_cursor rp \<Longrightarrow> obj_cursor rp \<le> data_cursor rp \<Longrightarrow>
   data_cursor rp \<le> page_len (rpage rp) \<Longrightarrow>
   cursor_clear pf (obj_cursor rp) \<Longrightarrow> rp_ok pf rp"
  by (simp only: rp_ok_def)

lemma platform_align:
  assumes "platform_ok pf"
  shows "0 < obj_align pf" "obj_align pf dvd HEADER_SIZE" "obj_align pf dvd base_page pf"
    "0 < base_page pf" "2 * HEADER_SIZE + obj_size pf \<le> base_page pf" "0 < obj_size pf"
proof -
  obtain b where b: "base_page pf = 2 ^ b" "12 \<le> b" by (rule platform_base [OF assms])
  from assms have al: "obj_align pf \<in> {1, 2, 4, 8, 16}" by (simp add: platform_ok_def)
  then show "0 < obj_align pf" "obj_align pf dvd HEADER_SIZE" by (auto simp: HEADER_SIZE_def)
  have "(2::nat) ^ 4 dvd 2 ^ b" using b(2) by (intro le_imp_power_dvd) simp
  moreover have "obj_align pf dvd 2 ^ 4" using al by auto
  ultimately show "obj_align pf dvd base_page pf" unfolding b(1) by (rule dvd_trans [rotated])
  show "0 < base_page pf" "2 * HEADER_SIZE + obj_size pf \<le> base_page pf" "0 < obj_size pf"
    using assms b by (simp_all add: platform_ok_def)
qed

lemma dvd_gap:
  fixes p q b :: nat
  assumes "b dvd p" "b dvd q" "p < q"
  shows "p + b \<le> q"
proof -
  from assms have "b dvd q - p" by (simp add: dvd_diff_nat)
  with assms(3) have "b \<le> q - p" by (simp add: dvd_imp_le)
  with assms(3) show ?thesis by linarith
qed

text \<open>The offset a slot takes in a page whose object cursor stands at \<open>oc\<close>.\<close>

definition slot_offset :: "platform \<Rightarrow> nat \<Rightarrow> nat" where
  "slot_offset pf oc =
     (let a = align_up (obj_align pf) oc; b = align_up (base_page pf) a in
      if b < a + obj_size pf then align_up (obj_align pf) (b + HEADER_SIZE) else a)"

lemma slot_crossing:
  assumes pf: "platform_ok pf" and a: "a = align_up (obj_align pf) oc"
    and b: "b = align_up (base_page pf) a"
  shows "align_up (obj_align pf) (b + HEADER_SIZE) = b + HEADER_SIZE" "oc \<le> a" "a \<le> b"
    "base_page pf dvd b" "obj_align pf dvd a"
proof -
  note pa = platform_align [OF pf]
  show "base_page pf dvd b" "a \<le> b" using align_up_props [OF pa(4), of a] b by simp_all
  show "oc \<le> a" "obj_align pf dvd a" using align_up_props [OF pa(1), of oc] a by simp_all
  from \<open>base_page pf dvd b\<close> pa(2,3) have "obj_align pf dvd b + HEADER_SIZE"
    by (meson dvd_add dvd_trans)
  then show "align_up (obj_align pf) (b + HEADER_SIZE) = b + HEADER_SIZE"
    using pa(1) by (simp add: align_up_id)
qed

lemma slot_clear:
  assumes pf: "platform_ok pf"
    and oc: "cursor_clear pf oc"
  shows "clear_of_headers pf (slot_offset pf oc) (slot_offset pf oc + obj_size pf)"
    "oc \<le> slot_offset pf oc" "obj_align pf dvd slot_offset pf oc"
proof -
  note pa = platform_align [OF pf]
  define a b where a: "a = align_up (obj_align pf) oc" and b: "b = align_up (base_page pf) a"
  note sc = slot_crossing [OF pf a b]
  show "oc \<le> slot_offset pf oc" "obj_align pf dvd slot_offset pf oc"
    using sc align_up_props(1) [OF pa(1), of "b + HEADER_SIZE"]
    by (simp_all add: slot_offset_def Let_def flip: a b)
  have "slot_offset pf oc + obj_size pf \<le> q \<or> q + HEADER_SIZE \<le> slot_offset pf oc"
    if q: "base_page pf dvd q" for q
  proof (cases "b < a + obj_size pf")
    case True
    then have "slot_offset pf oc = b + HEADER_SIZE"
      using sc by (simp add: slot_offset_def Let_def flip: a b)
    then show ?thesis using dvd_gap [OF sc(4) q] pa(5) by (cases "q \<le> b") auto
  next
    case False
    then have off: "slot_offset pf oc = a" by (simp add: slot_offset_def Let_def flip: a b)
    show ?thesis
    proof (cases "a \<le> q")
      case True
      then have "b \<le> q" unfolding b using pa(4) q by (intro align_up_least)
      with False off show ?thesis by linarith
    next
      case below: False
      have "\<not> oc \<le> q"
        using align_up_least [OF pa(1), of q oc] q pa(3) below a by (meson dvd_trans)
      with oc q have "q + HEADER_SIZE \<le> oc" by (intro cursor_clearD) auto
      with sc(2) off show ?thesis by linarith
    qed
  qed
  then show "clear_of_headers pf (slot_offset pf oc) (slot_offset pf oc + obj_size pf)"
    by (simp add: clear_of_headers_def)
qed

lemma clear_end:
  "clear_of_headers pf s e \<Longrightarrow> s \<le> e \<Longrightarrow> cursor_clear pf e"
  unfolding clear_of_headers_def cursor_clear_def by (meson le_trans)

lemma try_alloc_obj_cases:
  assumes "try_alloc_obj pf rp m = Some (p, rp', m')"
  shows "p = ptr (rpage rp) + slot_offset pf (obj_cursor rp)"
    "rp' = rp\<lparr>obj_cursor := slot_offset pf (obj_cursor rp) + obj_size pf\<rparr>"
    "slot_offset pf (obj_cursor rp) + obj_size pf \<le> data_cursor rp"
  using assms by (auto simp: try_alloc_obj_def slot_offset_def Let_def split: if_splits)

lemma try_alloc_obj_ok:
  assumes pf: "platform_ok pf" and ok: "rp_ok pf rp"
    and al: "try_alloc_obj pf rp m = Some (p, rp', m')"
  shows "rp_ok pf rp'"
    "clear_of_headers pf (p - ptr (rpage rp)) (p - ptr (rpage rp) + obj_size pf)"
    "ptr (rpage rp) + obj_cursor rp \<le> p" "p + obj_size pf = ptr (rpage rp) + obj_cursor rp'"
    "obj_align pf dvd (p - ptr (rpage rp))"
proof -
  note c = try_alloc_obj_cases [OF al]
  note sl = slot_clear [OF pf rp_okD(5) [OF ok]]
  define off where "off = slot_offset pf (obj_cursor rp)"
  have off: "p - ptr (rpage rp) = off" "p = ptr (rpage rp) + off" "obj_cursor rp' = off + obj_size pf"
    "rpage rp' = rpage rp" "data_cursor rp' = data_cursor rp" "off + obj_size pf \<le> data_cursor rp"
    using c by (simp_all add: off_def)
  note cl = sl(1) [folded off_def]
  show "clear_of_headers pf (p - ptr (rpage rp)) (p - ptr (rpage rp) + obj_size pf)"
    unfolding off(1) by (rule cl)
  show "ptr (rpage rp) + obj_cursor rp \<le> p" using sl(2) by (simp only: off(2) off_def add_le_cancel_left)
  show "p + obj_size pf = ptr (rpage rp) + obj_cursor rp'" unfolding off(2,3) by (rule add.assoc)
  show "obj_align pf dvd (p - ptr (rpage rp))" unfolding off(1) off_def by (rule sl(3))
  have h: "HEADER_SIZE \<le> off + obj_size pf"
    using rp_okD(2) [OF ok] sl(2) unfolding off_def by linarith
  show "rp_ok pf rp'"
    by (rule rp_okI; unfold off(3-5))
      (rule rp_okD(1) [OF ok] h off(6) rp_okD(4) [OF ok] clear_end [OF cl le_add1])+
qed

lemma page_alloc_data_ok:
  assumes ok: "rp_ok pf rp" and n: "0 < al" and al: "page_alloc_data sz al rp = Some (p, rp')"
  shows "rp_ok pf rp'" "al dvd (p - ptr (rpage rp))" "ptr (rpage rp) + obj_cursor rp \<le> p"
    "p = ptr (rpage rp) + data_cursor rp'" "p + sz \<le> ptr (rpage rp) + data_cursor rp"
    "obj_cursor rp' = obj_cursor rp" "rpage rp' = rpage rp"
proof -
  from al have e: "sz \<le> data_cursor rp" "rp' = rp\<lparr>data_cursor := mask_down al (data_cursor rp - sz)\<rparr>"
    "p = ptr (rpage rp) + mask_down al (data_cursor rp - sz)"
    "obj_cursor rp \<le> mask_down al (data_cursor rp - sz)"
    by (auto simp: page_alloc_data_def Let_def split: if_splits)
  define start where "start = mask_down al (data_cursor rp - sz)"
  have st: "start + sz \<le> data_cursor rp"
    using mask_down_le [of al "data_cursor rp - sz"] e(1) unfolding start_def by linarith
  note e' = e(2-4) [folded start_def]
  from e' show p: "ptr (rpage rp) + obj_cursor rp \<le> p" "p = ptr (rpage rp) + data_cursor rp'"
    "obj_cursor rp' = obj_cursor rp" "rpage rp' = rpage rp" by simp_all
  show "al dvd (p - ptr (rpage rp))" using e'(2) by (simp add: start_def mask_down_dvd)
  show "p + sz \<le> ptr (rpage rp) + data_cursor rp" using e'(2) st by simp
  have dc: "data_cursor rp' = start" "start \<le> page_len (rpage rp)"
    using e'(1) st ok unfolding rp_ok_def by auto
  show "rp_ok pf rp'"
    by (rule rp_okI; unfold dc(1) p(3,4)) (rule rp_okD [OF ok] e'(3) dc(2))+
qed

section \<open>Histories of a page\<close>

text \<open>
  A page from its claim on: object slots taken and written, inline data taken and written with
  any bytes, and writes elsewhere. The last argument lists the object pointers handed out,
  newest first.
\<close>

inductive page_history ::
  "platform \<Rightarrow> nat \<Rightarrow> page_stamp \<Rightarrow> region_page \<Rightarrow> bytes \<Rightarrow> nat list \<Rightarrow> bool" for pf rid st where
  claimed: "page_ok pf pg \<Longrightarrow> region_page_new pg rid st m = (rp, m') \<Longrightarrow>
    page_history pf rid st rp m' []"
| object: "page_history pf rid st rp m ps \<Longrightarrow> try_alloc_obj pf rp m = Some (p, rp', m1) \<Longrightarrow>
    length bs = obj_size pf \<Longrightarrow> page_history pf rid st rp' (write_bytes p bs m1) (p # ps)"
| data: "page_history pf rid st rp m ps \<Longrightarrow> page_alloc_data sz al rp = Some (p, rp') \<Longrightarrow> 0 < al \<Longrightarrow>
    length bs \<le> sz \<Longrightarrow> page_history pf rid st rp' (write_bytes p bs m) ps"
| elsewhere: "page_history pf rid st rp m ps \<Longrightarrow> \<forall>a. page_contains rp a \<longrightarrow> m' a = m a \<Longrightarrow>
    page_history pf rid st rp m' ps"

definition header_reads :: "region_page \<Rightarrow> nat \<Rightarrow> page_stamp \<Rightarrow> bytes \<Rightarrow> bool" where
  "header_reads rp rid st m \<longleftrightarrow>
     read32 m (ptr (rpage rp)) = rid \<and> read32 m (ptr (rpage rp) + 4) = generation st
     \<and> read32 m (ptr (rpage rp) + 8) = store st
     \<and> read32 m (ptr (rpage rp) + 12) = size_tag (page_len (rpage rp))"

definition inner_zero :: "platform \<Rightarrow> region_page \<Rightarrow> bytes \<Rightarrow> bool" where
  "inner_zero pf rp m \<longleftrightarrow>
     (\<forall>q. base_page pf dvd q \<longrightarrow> 0 < q \<longrightarrow> q < obj_cursor rp \<longrightarrow> read32 m (ptr (rpage rp) + q + 12) = 0)"

text \<open>Slots listed newest first lie below the cursor, one above the other.\<close>

fun slots_ok :: "platform \<Rightarrow> region_page \<Rightarrow> nat \<Rightarrow> nat list \<Rightarrow> bool" where
  "slots_ok pf rp lim [] = True"
| "slots_ok pf rp lim (p # ps) \<longleftrightarrow>
     p + obj_size pf \<le> lim \<and> ptr (rpage rp) + HEADER_SIZE \<le> p
     \<and> obj_align pf dvd (p - ptr (rpage rp))
     \<and> clear_of_headers pf (p - ptr (rpage rp)) (p - ptr (rpage rp) + obj_size pf)
     \<and> slots_ok pf rp p ps"

definition page_inv :: "platform \<Rightarrow> nat \<Rightarrow> page_stamp \<Rightarrow> region_page \<Rightarrow> bytes \<Rightarrow> nat list \<Rightarrow> bool" where
  "page_inv pf rid st rp m ps \<longleftrightarrow>
     rp_ok pf rp \<and> header_reads rp rid st m \<and> inner_zero pf rp m
     \<and> slots_ok pf rp (ptr (rpage rp) + obj_cursor rp) ps"

lemma slots_ok_mono: "slots_ok pf rp t ps \<Longrightarrow> t \<le> t' \<Longrightarrow> slots_ok pf rp t' ps"
  by (cases ps) auto

lemma slots_ok_page: "rpage rp' = rpage rp \<Longrightarrow> slots_ok pf rp' t ps = slots_ok pf rp t ps"
  by (induction ps arbitrary: t) auto

lemma slots_ok_member: "slots_ok pf rp t ps \<Longrightarrow> p \<in> set ps \<Longrightarrow>
  p + obj_size pf \<le> t \<and> ptr (rpage rp) + HEADER_SIZE \<le> p
  \<and> clear_of_headers pf (p - ptr (rpage rp)) (p - ptr (rpage rp) + obj_size pf)"
proof (induction ps arbitrary: t)
  case (Cons a ps)
  show ?case
  proof (cases "p = a")
    case False
    with Cons have "p + obj_size pf \<le> a \<and> ptr (rpage rp) + HEADER_SIZE \<le> p
      \<and> clear_of_headers pf (p - ptr (rpage rp)) (p - ptr (rpage rp) + obj_size pf)"
      by (intro Cons.IH) simp_all
    moreover have "a + obj_size pf \<le> t" using Cons.prems(1) by simp
    ultimately show ?thesis by linarith
  next
    case True
    with Cons.prems(1) show ?thesis unfolding slots_ok.simps by blast
  qed
qed simp

lemma read32_write_other:
  "a + 4 \<le> p \<or> p + length bs \<le> a \<Longrightarrow> read32 (write_bytes p bs m) a = read32 m a"
  by (intro read32_other) (auto simp: write_bytes_def)

lemma read32_zero_other:
  "a + 4 \<le> p \<or> p + n \<le> a \<Longrightarrow> read32 (zero_bytes p n m) a = read32 m a"
  by (intro read32_other) (auto simp: zero_bytes_def)

lemma read32_zero_in: "p \<le> a \<Longrightarrow> a + 4 \<le> p + n \<Longrightarrow> read32 (zero_bytes p n m) a = 0"
  by (simp add: read32_def zero_bytes_def)

text \<open>A write at or above an offset that is clear of headers keeps what the walk reads.\<close>

lemma inv_reads_write:
  assumes "header_reads rp rid st m" "inner_zero pf rp m"
    and "ptr (rpage rp) + obj_cursor rp \<le> p" "HEADER_SIZE \<le> obj_cursor rp"
    and "cursor_clear pf (obj_cursor rp)"
  shows "header_reads rp rid st (write_bytes p bs m) \<and> inner_zero pf rp (write_bytes p bs m)"
proof -
  have "q + 16 \<le> obj_cursor rp" if "base_page pf dvd q" "q < obj_cursor rp" for q
    using cursor_clearD [OF assms(5) that] by (simp add: HEADER_SIZE_def)
  note inner = this
  have "read32 (write_bytes p bs m) (ptr (rpage rp) + q + 12) = read32 m (ptr (rpage rp) + q + 12)"
    if "base_page pf dvd q" "q < obj_cursor rp" for q
    using inner [OF that] assms(3) by (intro read32_write_other) simp
  then have "inner_zero pf rp (write_bytes p bs m)" using assms(2) by (simp add: inner_zero_def)
  moreover have "ptr (rpage rp) + 16 \<le> p" using assms(3,4) by (simp add: HEADER_SIZE_def)
  then have "header_reads rp rid st (write_bytes p bs m)"
    using assms(1) by (simp add: header_reads_def read32_write_other)
  ultimately show ?thesis by blast
qed

text \<open>Taking a slot zeroes the header bytes of every boundary it steps over.\<close>

lemma try_alloc_obj_bytes:
  assumes pf: "platform_ok pf" and ok: "rp_ok pf rp"
    and al: "try_alloc_obj pf rp m = Some (p, rp', m')"
    and hd: "header_reads rp rid st m" and iz: "inner_zero pf rp m"
  shows "header_reads rp rid st m'"
    "\<forall>q. base_page pf dvd q \<longrightarrow> 0 < q \<longrightarrow> q + HEADER_SIZE \<le> p - ptr (rpage rp) \<longrightarrow>
       read32 m' (ptr (rpage rp) + q + 12) = 0"
proof -
  note pa = platform_align [OF pf]
  define a b where a: "a = align_up (obj_align pf) (obj_cursor rp)"
    and b: "b = align_up (base_page pf) a"
  note sc = slot_crossing [OF pf a b]
  have m': "m' = (if b < a + obj_size pf then zero_bytes (ptr (rpage rp) + b) HEADER_SIZE m else m)"
    and p: "p = ptr (rpage rp) + (if b < a + obj_size pf then b + HEADER_SIZE else a)"
    using al sc by (auto simp: try_alloc_obj_def Let_def split: if_splits simp flip: a b)
  have h16: "16 \<le> b" using rp_okD(2) [OF ok] sc(2,3) by (simp add: HEADER_SIZE_def)
  show "header_reads rp rid st m'"
    using hd h16 by (simp add: m' header_reads_def read32_zero_other)
  have "read32 m' (ptr (rpage rp) + q + 12) = 0"
    if q: "base_page pf dvd q" "0 < q" "q + HEADER_SIZE \<le> p - ptr (rpage rp)" for q
  proof (cases "q < obj_cursor rp")
    case True
    then have "q + 16 \<le> b"
      using cursor_clearD [OF rp_okD(5) [OF ok] q(1)] sc(2,3) by (simp add: HEADER_SIZE_def)
    then have "read32 m' (ptr (rpage rp) + q + 12) = read32 m (ptr (rpage rp) + q + 12)"
      by (simp add: m' read32_zero_other)
    also have "\<dots> = 0" using iz q(1,2) True unfolding inner_zero_def by blast
    finally show ?thesis .
  next
    case False
    then have "a \<le> q" unfolding a using pa(1,3) q(1) by (intro align_up_least) (auto intro: dvd_trans)
    then have "b \<le> q" unfolding b using pa(4) q(1) by (intro align_up_least)
    with q(3) p \<open>a \<le> q\<close> have "q = b" "b < a + obj_size pf"
      by (auto simp: HEADER_SIZE_def split: if_splits)
    then show ?thesis by (simp add: m' read32_zero_in HEADER_SIZE_def)
  qed
  then show "\<forall>q. base_page pf dvd q \<longrightarrow> 0 < q \<longrightarrow> q + HEADER_SIZE \<le> p - ptr (rpage rp) \<longrightarrow>
       read32 m' (ptr (rpage rp) + q + 12) = 0" by blast
qed

lemma page_inv_object:
  assumes pf: "platform_ok pf" and inv: "page_inv pf rid st rp m ps"
    and al: "try_alloc_obj pf rp m = Some (p, rp', m1)" and bs: "length bs = obj_size pf"
  shows "page_inv pf rid st rp' (write_bytes p bs m1) (p # ps)"
proof -
  from inv have ok: "rp_ok pf rp" and hd: "header_reads rp rid st m" and iz: "inner_zero pf rp m"
    and sl: "slots_ok pf rp (ptr (rpage rp) + obj_cursor rp) ps"
    by (simp_all add: page_inv_def)
  note o = try_alloc_obj_ok [OF pf ok al]
  note t = try_alloc_obj_bytes [OF pf ok al hd iz]
  note c = try_alloc_obj_cases [OF al]
  have rp': "rpage rp' = rpage rp" using c by simp
  have h16: "ptr (rpage rp) + 16 \<le> p" using o(3) ok by (simp add: rp_ok_def HEADER_SIZE_def)
  then have "header_reads rp' rid st (write_bytes p bs m1)"
    using t(1) rp' by (simp add: header_reads_def read32_write_other)
  moreover have "inner_zero pf rp' (write_bytes p bs m1)"
  proof (unfold inner_zero_def, intro allI impI)
    fix q assume q: "base_page pf dvd q" "0 < q" "q < obj_cursor rp'"
    have "q < p - ptr (rpage rp) + obj_size pf" using q(3) o(4) h16 by linarith
    then have le: "q + HEADER_SIZE \<le> p - ptr (rpage rp)" by (rule clearD [OF o(2) q(1)])
    with t(2) q have z: "read32 m1 (ptr (rpage rp) + q + 12) = 0" by blast
    have "ptr (rpage rp) + q + 12 + 4 \<le> p" using le h16 by (simp add: HEADER_SIZE_def)
    from read32_write_other [OF disjI1 [OF this], of bs m1] z rp'
    show "read32 (write_bytes p bs m1) (ptr (rpage rp') + q + 12) = 0" by simp
  qed
  moreover have "slots_ok pf rp' (ptr (rpage rp') + obj_cursor rp') (p # ps)"
    using o h16 rp' slots_ok_mono [OF sl o(3)] slots_ok_page [OF rp'] by (simp add: HEADER_SIZE_def)
  ultimately show ?thesis using o(1) unfolding page_inv_def by blast
qed

lemma page_inv_data:
  assumes inv: "page_inv pf rid st rp m ps" and n: "0 < al"
    and al: "page_alloc_data sz al rp = Some (p, rp')"
  shows "page_inv pf rid st rp' (write_bytes p bs m) ps"
proof -
  from inv have ok: "rp_ok pf rp" by (simp add: page_inv_def)
  note d = page_alloc_data_ok [OF ok n al]
  from inv ok d(3) have "header_reads rp rid st (write_bytes p bs m) \<and> inner_zero pf rp (write_bytes p bs m)"
    by (intro inv_reads_write) (auto simp: page_inv_def rp_ok_def)
  with d inv show ?thesis
    by (simp add: page_inv_def header_reads_def inner_zero_def slots_ok_page [OF d(7)])
qed

lemma page_history_inv:
  assumes pf: "platform_ok pf" and h: "page_history pf rid st rp m ps"
    and w: "rid \<le> u32_max" "generation st \<le> u32_max" "store st \<le> u32_max"
    and len: "page_len (rpage rp) < 2 ^ 64"
  shows "page_inv pf rid st rp m ps"
  using h len
proof induction
  case (claimed pg m rp m')
  then obtain j where j: "page_len pg = 2 ^ j" by (auto simp: page_ok_def is_pow2_def)
  with claimed have "(2::nat) ^ j < 2 ^ 64" by (auto simp: region_page_new_def)
  then have "j < 64" by (rule power_less_imp_less_exp [rotated]) simp
  then have hr: "header_reads rp rid st m'"
    using w j header_write_reads [of rid st "2 ^ j" "ptr pg" m] claimed(2)
    by (auto simp: region_page_new_def header_reads_def)
  have rp: "rpage rp = pg" "obj_cursor rp = HEADER_SIZE" "data_cursor rp = page_len pg"
    using claimed(2) by (auto simp: region_page_new_def)
  have base: "HEADER_SIZE \<le> base_page pf" using platform_align(5) [OF pf] by simp
  have "HEADER_SIZE \<le> q \<or> q = 0" if "base_page pf dvd q" for q
    using that base dvd_imp_le [OF that] by (cases "q = 0") auto
  moreover have "\<not> (0 < q \<and> q < HEADER_SIZE)" if "base_page pf dvd q" for q
    using that base dvd_imp_le [OF that] by auto
  ultimately show ?case using hr rp base claimed(1)
    by (auto simp: page_inv_def rp_ok_def inner_zero_def page_ok_def cursor_clear_def)
next
  case (object rp m ps p rp' m1 bs)
  have "rpage rp' = rpage rp" using try_alloc_obj_cases(2) [OF object(2)] by simp
  with object have "page_inv pf rid st rp m ps" by simp
  then show ?case by (rule page_inv_object [OF pf _ object(2,3)])
next
  case (data rp m ps sz al p rp' bs)
  have "rpage rp' = rpage rp" using data(2) by (auto simp: page_alloc_data_def Let_def split: if_splits)
  with data have "page_inv pf rid st rp m ps" by simp
  then show ?case by (rule page_inv_data [OF _ data(3,2)])
next
  case (elsewhere rp m ps m')
  then have inv: "page_inv pf rid st rp m ps" by simp
  have same: "read32 m' (ptr (rpage rp) + d) = read32 m (ptr (rpage rp) + d)"
    if "d + 4 \<le> page_len (rpage rp)" for d
    using elsewhere(2) that by (intro read32_other) (auto simp: page_contains_def)
  from inv have b: "16 \<le> page_len (rpage rp)" "obj_cursor rp \<le> page_len (rpage rp)"
    by (auto simp: page_inv_def rp_ok_def HEADER_SIZE_def)
  have q: "q + 16 \<le> obj_cursor rp" if "base_page pf dvd q" "q < obj_cursor rp" for q
    using inv cursor_clearD [OF _ that] by (simp add: page_inv_def rp_ok_def HEADER_SIZE_def)
  from inv b same [of 0] same [of 4] same [of 8] same [of 12] have "header_reads rp rid st m'"
    by (simp add: page_inv_def header_reads_def)
  moreover have "inner_zero pf rp m'" unfolding inner_zero_def
  proof (intro allI impI)
    fix k assume k: "base_page pf dvd k" "0 < k" "k < obj_cursor rp"
    with inv have "read32 m (ptr (rpage rp) + (k + 12)) = 0"
      by (simp add: page_inv_def inner_zero_def add.assoc)
    with same [of "k + 12"] q [OF k(1,3)] b(2)
    show "read32 m' (ptr (rpage rp) + k + 12) = 0" by (simp add: add.assoc)
  qed
  ultimately show ?case using inv by (simp add: page_inv_def)
qed

section \<open>The walk from an object\<close>

lemma mask_down_greatest:
  assumes "0 < n" "n dvd y" "y \<le> a"
  shows "y \<le> mask_down n a"
proof (rule ccontr)
  assume "\<not> y \<le> mask_down n a"
  with dvd_gap [OF mask_down_dvd assms(2), of a] mask_down_gt [OF assms(1), of a] assms(3)
  show False by linarith
qed

lemma page_inv_slot:
  assumes "page_inv pf rid st rp m ps" "p \<in> set ps"
  shows "p + obj_size pf \<le> ptr (rpage rp) + obj_cursor rp" "ptr (rpage rp) + HEADER_SIZE \<le> p"
    "clear_of_headers pf (p - ptr (rpage rp)) (p - ptr (rpage rp) + obj_size pf)"
proof -
  from assms(1) have "slots_ok pf rp (ptr (rpage rp) + obj_cursor rp) ps"
    by (simp add: page_inv_def)
  from slots_ok_member [OF this assms(2)]
  show "p + obj_size pf \<le> ptr (rpage rp) + obj_cursor rp" "ptr (rpage rp) + HEADER_SIZE \<le> p"
    "clear_of_headers pf (p - ptr (rpage rp)) (p - ptr (rpage rp) + obj_size pf)"
    by blast+
qed

lemma walk_rejects_inner:
  assumes pf: "platform_ok pf" and inv: "page_inv pf rid st rp m ps"
    and len: "page_len (rpage rp) = 2 ^ j" "j < 64" "base_page pf = 2 ^ b"
    and k: "b \<le> k" "k < j" and p: "p \<in> set ps" "p \<le> a" "a < p + obj_size pf"
  shows "header_if_valid m a (2 ^ k) = None"
proof -
  define c where "c = mask_down (2 ^ k) a"
  note sl = page_inv_slot [OF inv p(1)]
  from inv len have pd: "2 ^ j dvd ptr (rpage rp)" by (simp add: page_inv_def rp_ok_def page_ok_def)
  have kd: "(2::nat) ^ k dvd ptr (rpage rp)" "2 ^ b dvd ptr (rpage rp)"
    using pd k by (auto intro: dvd_trans [OF le_imp_power_dvd pd])
  have cp: "ptr (rpage rp) \<le> c"
    unfolding c_def using sl p kd by (intro mask_down_greatest) auto
  have "(2::nat) ^ b dvd c" unfolding c_def
    by (rule dvd_trans [OF le_imp_power_dvd [OF k(1)] mask_down_dvd])
  with kd have qd: "base_page pf dvd c - ptr (rpage rp)" by (simp add: len dvd_diff_nat)
  have ca: "c \<le> a" by (simp add: c_def mask_down_le)
  have "read32 m (c + 12) \<noteq> size_tag (2 ^ k)"
  proof (cases "c = ptr (rpage rp)")
    case True
    with inv len k size_tag_neq [of j k] show ?thesis by (simp add: page_inv_def header_reads_def)
  next
    case False
    have "c - ptr (rpage rp) < p - ptr (rpage rp) + obj_size pf" using ca p cp sl(2) by linarith
    then have "c - ptr (rpage rp) + HEADER_SIZE \<le> p - ptr (rpage rp)" by (rule clearD [OF sl(3) qd])
    then have "c - ptr (rpage rp) < obj_cursor rp" using sl by (simp add: HEADER_SIZE_def)
    moreover have "0 < c - ptr (rpage rp)" using cp False by simp
    moreover from inv have "inner_zero pf rp m" by (simp add: page_inv_def)
    ultimately have "read32 m (ptr (rpage rp) + (c - ptr (rpage rp)) + 12) = 0"
      using qd unfolding inner_zero_def by blast
    with cp size_tag_pos [of "2 ^ k"] show ?thesis by simp
  qed
  then show ?thesis by (simp add: header_if_valid_def Let_def c_def)
qed

lemma walk_accepts_base:
  assumes inv: "page_inv pf rid st rp m ps" and len: "page_len (rpage rp) = 2 ^ j"
    and p: "page_contains rp a"
  shows "header_if_valid m a (2 ^ j) = Some (rid, st)"
proof -
  from inv len have pd: "2 ^ j dvd ptr (rpage rp)" by (simp add: page_inv_def rp_ok_def page_ok_def)
  have "ptr (rpage rp) \<le> mask_down (2 ^ j) a"
    using p pd by (intro mask_down_greatest) (auto simp: page_contains_def)
  moreover have "\<not> ptr (rpage rp) < mask_down (2 ^ j) a"
    using dvd_gap [OF pd mask_down_dvd, of a] mask_down_le [of "2 ^ j" a] p len
    by (auto simp: page_contains_def)
  ultimately have "mask_down (2 ^ j) a = ptr (rpage rp)" by simp
  with inv len show ?thesis
    by (simp add: header_if_valid_def Let_def page_inv_def header_reads_def)
qed

section \<open>Properties\<close>

text \<open>
  C17: Every address inside an object leads back to its region. In a page filled in any order
  by object slots and inline data with arbitrary contents, the masked walk from any byte of any
  object handed out answers the page's own region id and stamp, although the walk first tries
  smaller alignments that land in the middle of the page.
\<close>

theorem object_walk_finds_region:
  assumes pf: "platform_ok pf" and h: "page_history pf rid st rp m ps"
    and w: "rid \<le> u32_max" "generation st \<le> u32_max" "store st \<le> u32_max"
    and len: "page_len (rpage rp) < 2 ^ 64"
    and p: "p \<in> set ps" "p \<le> a" "a < p + obj_size pf"
  shows "header_of_page_ptr m a (base_page pf) = (rid, st)"
proof -
  note inv = page_history_inv [OF pf h w len]
  then obtain j where j: "page_len (rpage rp) = 2 ^ j"
    by (auto simp: page_inv_def rp_ok_def page_ok_def is_pow2_def)
  with len have "(2::nat) ^ j < 2 ^ 64" by simp
  then have j64: "j < 64" by (rule power_less_imp_less_exp [rotated]) simp
  obtain b where b: "base_page pf = 2 ^ b" by (rule platform_base [OF pf])
  from inv j b have bj: "b \<le> j" by (simp add: page_inv_def rp_ok_def page_ok_def)
  from page_inv_slot [OF inv p(1)] inv p have "page_contains rp a" by (auto simp: page_contains_def page_inv_def rp_ok_def)
  from walk_accepts_base [OF inv j this] walk_rejects_inner [OF pf inv j j64 b _ _ p]
  show ?thesis unfolding header_of_page_ptr_def b tz_power
    by (intro header_walk_finds [OF bj j64]) auto
qed

theorem object_walk_finds_region_witness:
  "\<exists>rp m p. page_history sample_platform 7 \<lparr>generation = 1, store = 3\<rparr> rp m [p]
     \<and> header_of_page_ptr m (p + 5) (base_page sample_platform) = (7, \<lparr>generation = 1, store = 3\<rparr>)"
proof -
  define st where "st = \<lparr>generation = 1, store = 3\<rparr>"
  define pg where "pg = \<lparr>ptr = 2 ^ 13, page_len = 2 ^ 13, file_backed = False\<rparr>"
  obtain rp m where new: "region_page_new pg 7 st (\<lambda>_. 0) = (rp, m)" by fastforce
  then have rp: "rp = \<lparr>rpage = pg, obj_cursor = 16, data_cursor = 2 ^ 13\<rparr>"
    by (simp add: region_page_new_def HEADER_SIZE_def pg_def)
  have "page_ok sample_platform pg"
    by (simp add: page_ok_def pg_def sample_platform_def is_pow2_def exI [of _ 13])
  then have h: "page_history sample_platform 7 st rp m []" by (rule page_history.claimed [OF _ new])
  obtain p rp' m1 where al: "try_alloc_obj sample_platform rp m = Some (p, rp', m1)"
    by (simp add: rp try_alloc_obj_def Let_def sample_platform_def align_up_def mask_down_def)
  have h': "page_history sample_platform 7 st rp' (write_bytes p (replicate 64 0) m1) [p]"
    by (rule page_history.object [OF h al]) (simp add: sample_platform_def)
  have "page_len (rpage rp') = 2 ^ 13" using try_alloc_obj_cases(2) [OF al] by (simp add: rp pg_def)
  then have "header_of_page_ptr (write_bytes p (replicate 64 0) m1) (p + 5) (base_page sample_platform)
      = (7, st)"
    by (intro object_walk_finds_region [OF sample_platform_ok h'])
      (auto simp: st_def u32_max_def sample_platform_def)
  with h' show ?thesis unfolding st_def by blast
qed

section \<open>Fresh pages are large enough\<close>









end
