(* ===== verification/Region_Store.thy ===== *)
theory Region_Store
  imports Region_Pool
begin

text \<open>
  The region table (\<^verbatim>\<open>value/fiberheap/regionstore.rs\<close> and its submodules \<^verbatim>\<open>alloc\<close>,
  \<^verbatim>\<open>refcount\<close>, \<^verbatim>\<open>pointer\<close>, \<^verbatim>\<open>counters\<close>, \<^verbatim>\<open>hydrate\<close> and \<^verbatim>\<open>introspect\<close>): entries indexed by physical id,
  minting and recycling of ids, reference counts, the two ledgers of content edges, and the
  resolution of a pointer to its region. An operation that can panic answers an option.
  Counts in the edge tables are natural numbers; the reference count saturates at 32 bits.
\<close>

section \<open>State\<close>

datatype reclaim = Counted nat | Owned nat

record region_entry =
  e_pool :: region_pool
  reclaim_of :: reclaim
  owned_children :: "nat list"
  outgoing :: table
  incoming :: table

definition count :: "region_entry \<Rightarrow> nat" where
  "count e = (case reclaim_of e of Counted rc \<Rightarrow> rc | Owned _ \<Rightarrow> 0)"

record reclaim_counters =
  region_frees :: nat
  page_frees :: nat
  object_frees :: nat
  one_page_frees :: nat
  empty_frees :: nat
  one_object_frees :: nat
  few_object_frees :: nat
  many_object_frees :: nat
  adopts :: nat
  adopts_into_empty :: nat
  owned_frees :: nat
  owned_free_pages :: nat
  owned_free_objects :: nat
  owned_one_page_frees :: nat
  rescues :: nat
  rescue_survivors :: nat
  extracts :: nat
  reparents :: nat

record region_mint =
  mint_region :: nat
  mint_gen :: nat

record region_store =
  regions :: "region_entry option list"
  page_cache :: page_pool
  next_physical :: nat
  free_physical :: "nat list"
  generations :: "nat list"
  store_id :: nat
  mint_log :: "(nat \<times> nat) list option"
  over_frees :: nat
  counters :: reclaim_counters
  images :: "nat list"

definition MAX_PLAUSIBLE_REGION_ID :: nat where
  "MAX_PLAUSIBLE_REGION_ID = push_bit 28 1"

definition zero_counters :: reclaim_counters where
  "zero_counters =
     \<lparr>region_frees = 0, page_frees = 0, object_frees = 0, one_page_frees = 0, empty_frees = 0,
      one_object_frees = 0, few_object_frees = 0, many_object_frees = 0, adopts = 0,
      adopts_into_empty = 0, owned_frees = 0, owned_free_pages = 0, owned_free_objects = 0,
      owned_one_page_frees = 0, rescues = 0, rescue_survivors = 0, extracts = 0, reparents = 0\<rparr>"

section \<open>Counting how regions end\<close>

definition count_free :: "nat \<Rightarrow> nat \<Rightarrow> bool \<Rightarrow> reclaim_counters \<Rightarrow> reclaim_counters" where
  "count_free pages objects owned c0 =
     (let c1 = c0\<lparr>region_frees := region_frees c0 + 1, page_frees := page_frees c0 + pages,
                  object_frees := object_frees c0 + objects\<rparr>;
          c2 = (if pages \<le> 1 then c1\<lparr>one_page_frees := one_page_frees c1 + 1\<rparr> else c1);
          c3 = (if objects = 0 then c2\<lparr>empty_frees := empty_frees c2 + 1\<rparr>
                else if objects = 1 then c2\<lparr>one_object_frees := one_object_frees c2 + 1\<rparr>
                else if objects \<le> 4 then c2\<lparr>few_object_frees := few_object_frees c2 + 1\<rparr>
                else c2\<lparr>many_object_frees := many_object_frees c2 + 1\<rparr>)
      in if owned
         then (let c4 = c3\<lparr>owned_frees := owned_frees c3 + 1,
                           owned_free_pages := owned_free_pages c3 + pages,
                           owned_free_objects := owned_free_objects c3 + objects\<rparr>
               in if pages \<le> 1 then c4\<lparr>owned_one_page_frees := owned_one_page_frees c4 + 1\<rparr> else c4)
         else c3)"

definition count_adopt :: "bool \<Rightarrow> reclaim_counters \<Rightarrow> reclaim_counters" where
  "count_adopt into_empty c =
     (let c1 = c\<lparr>adopts := adopts c + 1\<rparr> in
      if into_empty then c1\<lparr>adopts_into_empty := adopts_into_empty c1 + 1\<rparr> else c1)"

definition count_extract :: "reclaim_counters \<Rightarrow> reclaim_counters" where
  "count_extract c = c\<lparr>extracts := extracts c + 1\<rparr>"

definition count_reparents :: "nat \<Rightarrow> reclaim_counters \<Rightarrow> reclaim_counters" where
  "count_reparents n c = c\<lparr>reparents := reparents c + n\<rparr>"

definition count_rescue :: "nat \<Rightarrow> nat \<Rightarrow> reclaim_counters \<Rightarrow> reclaim_counters" where
  "count_rescue rescued survivors c =
     c\<lparr>rescues := rescues c + rescued, rescue_survivors := rescue_survivors c + survivors\<rparr>"

definition report :: "reclaim_counters \<Rightarrow> (string \<times> int) list" where
  "report c =
     [(''region-frees'', int (region_frees c)), (''page-frees'', int (page_frees c)),
      (''object-frees'', int (object_frees c)), (''one-page-frees'', int (one_page_frees c)),
      (''empty-frees'', int (empty_frees c)), (''one-object-frees'', int (one_object_frees c)),
      (''few-object-frees'', int (few_object_frees c)),
      (''many-object-frees'', int (many_object_frees c)), (''adopts'', int (adopts c)),
      (''adopts-into-empty'', int (adopts_into_empty c)), (''owned-frees'', int (owned_frees c)),
      (''owned-free-pages'', int (owned_free_pages c)),
      (''owned-free-objects'', int (owned_free_objects c)),
      (''owned-one-page-frees'', int (owned_one_page_frees c)), (''rescues'', int (rescues c)),
      (''rescue-survivors'', int (rescue_survivors c)), (''extracts'', int (extracts c)),
      (''reparents'', int (reparents c)),
      (''owned'', int (adopts c) - int (owned_frees c + rescues c + extracts c))]"

section \<open>A new store\<close>

text \<open>The store id is minted by a process-wide counter; it is an argument here.\<close>

definition new_store :: "nat \<Rightarrow> nat \<Rightarrow> nat \<Rightarrow> region_store" where
  "new_store initial_page max_c sid =
     \<lparr>regions = [], page_cache = new_page_pool initial_page max_c, next_physical = 2,
      free_physical = [], generations = [], store_id = sid, mint_log = None, over_frees = 0,
      counters = zero_counters, images = []\<rparr>"

section \<open>Entries\<close>

definition entry_at :: "region_store \<Rightarrow> nat \<Rightarrow> region_entry option" where
  "entry_at s i = (if i < length (regions s) then regions s ! i else None)"

definition is_live :: "region_store \<Rightarrow> nat \<Rightarrow> bool" where
  "is_live s i \<longleftrightarrow> entry_at s i \<noteq> None"

definition set_entry :: "nat \<Rightarrow> region_entry option \<Rightarrow> region_store \<Rightarrow> region_store" where
  "set_entry i e s = s\<lparr>regions := (regions s)[i := e]\<rparr>"

text \<open>\<^verbatim>\<open>RuntimeRegion::new\<close>: the ids below two are reserved.\<close>

definition runtime_region :: "nat \<Rightarrow> nat option" where
  "runtime_region i = (if 2 \<le> i then Some i else None)"

definition generation_raw :: "region_store \<Rightarrow> nat \<Rightarrow> nat" where
  "generation_raw s i = (if i < length (generations s) then generations s ! i else 0)"

definition resize :: "nat \<Rightarrow> 'a \<Rightarrow> 'a list \<Rightarrow> 'a list" where
  "resize n x xs = (if n \<le> length xs then xs else xs @ replicate (n - length xs) x)"

definition fresh_entry :: "region_store \<Rightarrow> nat \<Rightarrow> region_entry" where
  "fresh_entry s i =
     \<lparr>e_pool = region_pool_new i \<lparr>generation = generation_raw s i, store = store_id s\<rparr>
        (initial_page_size (page_cache s)),
      reclaim_of = Counted 1, owned_children = [], outgoing = [], incoming = []\<rparr>"

definition ensure_raw :: "nat \<Rightarrow> region_store \<Rightarrow> region_store option" where
  "ensure_raw i s =
     (if length (regions s) \<le> i \<and> MAX_PLAUSIBLE_REGION_ID < i then None
      else
        (let s1 = s\<lparr>regions := resize (i + 1) None (regions s),
                    generations := resize (i + 1) 0 (generations s)\<rparr>
         in Some (if entry_at s1 i = None then set_entry i (Some (fresh_entry s1 i)) s1 else s1)))"

section \<open>Minting\<close>

function mint_loop :: "region_store \<Rightarrow> nat \<times> region_store" where
  "mint_loop s =
     (let (i, s') = (case vpop (free_physical s) of
                       Some (i, rest) \<Rightarrow> (i, s\<lparr>free_physical := rest\<rparr>)
                     | None \<Rightarrow> (next_physical s, s\<lparr>next_physical := next_physical s + 1\<rparr>))
      in if is_live s' i then mint_loop s' else (i, s'))"
  by pat_completeness auto
termination
  by (relation "measures [\<lambda>s. length (free_physical s), \<lambda>s. length (regions s) - next_physical s]")
    (auto simp: vpop_def is_live_def entry_at_def split: if_splits)

declare mint_loop.simps [simp del]

definition log_mint :: "nat \<Rightarrow> region_store \<Rightarrow> region_store" where
  "log_mint i s =
     (case mint_log s of
        None \<Rightarrow> s
      | Some l \<Rightarrow> s\<lparr>mint_log := Some (vpush l (i, generation_raw s i))\<rparr>)"

definition new_runtime_region :: "region_store \<Rightarrow> (nat \<times> region_store) option" where
  "new_runtime_region s =
     (let (i, s') = mint_loop s in
      case runtime_region i of None \<Rightarrow> None | Some r \<Rightarrow> Some (r, log_mint i s'))"

definition new_runtime_region_tracked :: "region_store \<Rightarrow> (region_mint \<times> region_store) option" where
  "new_runtime_region_tracked s =
     (case new_runtime_region s of
        None \<Rightarrow> None
      | Some (r, s') \<Rightarrow> Some (\<lparr>mint_region = r, mint_gen = generation_raw s' r\<rparr>, s'))"

definition recycle_unmaterialized :: "region_mint \<Rightarrow> region_store \<Rightarrow> region_store" where
  "recycle_unmaterialized m s =
     (if is_live s (mint_region m) then s
      else if generation_raw s (mint_region m) \<noteq> mint_gen m then s
      else s\<lparr>free_physical := vpush (free_physical s) (mint_region m)\<rparr>)"

section \<open>Reference counts\<close>

definition incref :: "nat \<Rightarrow> region_store \<Rightarrow> region_store option" where
  "incref i s =
     (case ensure_raw i s of
        None \<Rightarrow> None
      | Some s1 \<Rightarrow>
          (case entry_at s1 i of
             None \<Rightarrow> None
           | Some e \<Rightarrow>
               (case reclaim_of e of
                  Counted rc \<Rightarrow> Some (set_entry i (Some (e\<lparr>reclaim_of := Counted (sat_add32 rc 1)\<rparr>)) s1)
                | Owned _ \<Rightarrow> Some s1)))"

text \<open>
  The bookkeeping half of a decref: whether the count just reached zero. \<open>direct\<close> is a decref
  no cascade explains; it counts the over-frees.
\<close>

definition note_over_free :: "bool \<Rightarrow> region_store \<Rightarrow> region_store" where
  "note_over_free b s = (if b then s\<lparr>over_frees := sat_add32 (over_frees s) 1\<rparr> else s)"

definition decref_reaches_zero :: "nat \<Rightarrow> bool \<Rightarrow> region_store \<Rightarrow> bool \<times> region_store" where
  "decref_reaches_zero i direct s =
     (let s1 = note_over_free (direct \<and> \<not> is_live s i) s in
      case entry_at s1 i of
        None \<Rightarrow> (False, s1)
      | Some e \<Rightarrow>
          (case reclaim_of e of
             Owned _ \<Rightarrow> (False, s1)
           | Counted rc \<Rightarrow>
               (if rc = 0 then (True, note_over_free direct s1)
                else (rc - 1 = 0, set_entry i (Some (e\<lparr>reclaim_of := Counted (rc - 1)\<rparr>)) s1))))"

definition rc_raw :: "region_store \<Rightarrow> nat \<Rightarrow> nat" where
  "rc_raw s i = (case entry_at s i of None \<Rightarrow> 0 | Some e \<Rightarrow> count e)"

section \<open>Edge tables\<close>

definition upd_entry :: "nat \<Rightarrow> (region_entry \<Rightarrow> region_entry) \<Rightarrow> region_store \<Rightarrow> region_store" where
  "upd_entry i f s = (case entry_at s i of None \<Rightarrow> s | Some e \<Rightarrow> set_entry i (Some (f e)) s)"

definition record_outgoing :: "nat \<Rightarrow> nat \<Rightarrow> region_store \<Rightarrow> region_store" where
  "record_outgoing src dst s =
     (if dst = 0 \<or> dst = 1 \<or> dst = src then s
      else if runtime_region src = None \<or> runtime_region dst = None then s
      else if is_live s src then
        upd_entry dst (\<lambda>e. e\<lparr>incoming := bump (incoming e) src\<rparr>)
          (upd_entry src (\<lambda>e. e\<lparr>outgoing := bump (outgoing e) dst\<rparr>) s)
      else s)"

definition unmirror_incoming :: "nat \<Rightarrow> nat \<Rightarrow> nat \<Rightarrow> region_store \<Rightarrow> region_store" where
  "unmirror_incoming src dst n s = upd_entry dst (\<lambda>e. e\<lparr>incoming := lower (incoming e) src n\<rparr>) s"

definition unrecord_outgoing :: "nat \<Rightarrow> nat \<Rightarrow> region_store \<Rightarrow> region_store" where
  "unrecord_outgoing src dst s =
     (if dst = 0 \<or> dst = 1 \<or> dst = src then s
      else if runtime_region src = None \<or> runtime_region dst = None then s
      else (case entry_at s src of
              None \<Rightarrow> s
            | Some e \<Rightarrow>
                if map_of (outgoing e) dst = None then s
                else unmirror_incoming src dst 1
                       (set_entry src (Some (e\<lparr>outgoing := lower (outgoing e) dst 1\<rparr>)) s)))"

section \<open>Pointers\<close>

definition image_region_of :: "region_store \<Rightarrow> nat \<Rightarrow> nat option" where
  "image_region_of s a =
     find (\<lambda>i. case entry_at s i of None \<Rightarrow> False | Some e \<Rightarrow> image_contains (e_pool e) a) (images s)"

definition region_owns :: "region_store \<Rightarrow> nat \<Rightarrow> nat \<Rightarrow> bool" where
  "region_owns s i a = (case entry_at s i of None \<Rightarrow> False | Some e \<Rightarrow> owns (e_pool e) a)"

definition store_owns :: "region_store \<Rightarrow> nat \<Rightarrow> bool" where
  "store_owns s a \<longleftrightarrow> list_ex (\<lambda>x. case x of None \<Rightarrow> False | Some e \<Rightarrow> owns (e_pool e) a) (regions s)"

definition owning_region :: "region_store \<Rightarrow> bytes \<Rightarrow> nat \<Rightarrow> nat" where
  "owning_region s m a =
     (case image_region_of s a of
        Some i \<Rightarrow> i
      | None \<Rightarrow>
          (let i = region_of_page_ptr m a (initial_page_size (page_cache s)) in
           if 2 \<le> i \<and> region_owns s i a then i else 0))"

text \<open>The stale-dereference panic of a debug build is the answer \<^const>\<open>None\<close>.\<close>

definition region_of_ptr :: "bool \<Rightarrow> region_store \<Rightarrow> bytes \<Rightarrow> nat \<Rightarrow> nat option" where
  "region_of_ptr debug s m a =
     (case image_region_of s a of
        Some i \<Rightarrow> Some i
      | None \<Rightarrow>
          (let (i, st) = header_of_page_ptr m a (initial_page_size (page_cache s)) in
           if 2 \<le> i \<and> region_owns s i a then Some i
           else if debug \<and> 2 \<le> i \<and> store st = store_id s \<and> generation st \<noteq> generation_raw s i
           then None
           else Some i))"

section \<open>Allocation\<close>

fun incref_refs :: "nat \<Rightarrow> nat list \<Rightarrow> region_store \<Rightarrow> region_store option" where
  "incref_refs own [] s = Some s"
| "incref_refs own (r # rs) s =
     (case (case runtime_region r of None \<Rightarrow> Some s | Some r' \<Rightarrow> incref r' s) of
        None \<Rightarrow> None
      | Some s' \<Rightarrow> incref_refs own rs (record_outgoing own r s'))"

definition incref_cross_region_refs ::
  "memory \<Rightarrow> heap_object \<Rightarrow> nat \<Rightarrow> region_store \<Rightarrow> region_store option" where
  "incref_cross_region_refs mem ob own s =
     incref_refs own
       (find_object_cross_refs (fibs mem) (owning_region s (mbytes mem)) own ob) s"

text \<open>Running an operation of the pool of a live region against the page cache.\<close>

definition with_pool ::
  "nat \<Rightarrow> (region_pool \<Rightarrow> page_pool \<Rightarrow> ('a \<times> region_pool \<times> page_pool \<times> 'm) option)
     \<Rightarrow> region_store \<Rightarrow> ('a \<times> region_store \<times> 'm) option" where
  "with_pool i f s =
     (case entry_at s i of
        None \<Rightarrow> None
      | Some e \<Rightarrow>
          (case f (e_pool e) (page_cache s) of
             None \<Rightarrow> None
           | Some (x, r, pc, m) \<Rightarrow>
               Some (x, set_entry i (Some (e\<lparr>e_pool := r\<rparr>)) (s\<lparr>page_cache := pc\<rparr>), m)))"

definition store_alloc_obj ::
  "platform \<Rightarrow> (nat \<Rightarrow> nat option) \<Rightarrow> nat \<Rightarrow> heap_object \<Rightarrow> region_store \<Rightarrow> memory
     \<Rightarrow> (evalue \<times> region_store \<times> memory) option" where
  "store_alloc_obj pf mm i ob s mem =
     (case ensure_raw i s of
        None \<Rightarrow> None
      | Some s1 \<Rightarrow>
          (case incref_cross_region_refs mem ob i s1 of
             None \<Rightarrow> None
           | Some s2 \<Rightarrow> with_pool i (\<lambda>r pc. alloc_obj pf mm ob r pc mem) s2))"

definition store_alloc_slice ::
  "platform \<Rightarrow> (nat \<Rightarrow> nat option) \<Rightarrow> nat \<Rightarrow> nat \<Rightarrow> ('a \<Rightarrow> nat list) \<Rightarrow> nat \<Rightarrow> 'a list
     \<Rightarrow> region_store \<Rightarrow> memory \<Rightarrow> ('a region_slice \<times> region_store \<times> memory) option" where
  "store_alloc_slice pf mm esz eal enc i items s mem =
     (case ensure_raw i s of
        None \<Rightarrow> None
      | Some s1 \<Rightarrow> with_pool i (\<lambda>r pc. alloc_region_slice pf mm esz eal enc items r pc mem) s1)"

definition alloc_room ::
  "platform \<Rightarrow> (nat \<Rightarrow> nat option) \<Rightarrow> nat \<Rightarrow> nat \<Rightarrow> nat \<Rightarrow> nat \<Rightarrow> region_store \<Rightarrow> bytes
     \<Rightarrow> (nat \<times> region_store \<times> bytes) option" where
  "alloc_room pf mm esz eal i n s m =
     (case ensure_raw i s of
        None \<Rightarrow> None
      | Some s1 \<Rightarrow> with_pool i (\<lambda>r pc. alloc_data pf mm (esz * n) eal r pc m) s1)"

definition alloc_bytes_with ::
  "platform \<Rightarrow> (nat \<Rightarrow> nat option) \<Rightarrow> nat \<Rightarrow> nat \<Rightarrow> (nat list \<Rightarrow> nat list) \<Rightarrow> region_store \<Rightarrow> bytes
     \<Rightarrow> (nat region_slice \<times> region_store \<times> bytes) option" where
  "alloc_bytes_with pf mm i len fill s m =
     (if len = 0 then Some (RegionSlice 1 [], s, m)
      else (case ensure_raw i s of
        None \<Rightarrow> None
      | Some s1 \<Rightarrow>
          (case with_pool i (\<lambda>r pc. alloc_data pf mm len 1 r pc m) s1 of
             None \<Rightarrow> None
           | Some (p, s2, m2) \<Rightarrow>
               (let bs = fill (map (\<lambda>k. m2 (p + k)) [0..<len]) in
                Some (RegionSlice p (take (len mod (u32_max + 1)) bs), s2, write_bytes p bs m2)))))"

section \<open>Hydrated regions\<close>

definition install_hydrated_region ::
  "(mmap_page \<times> nat \<times> nat) list \<Rightarrow> (nat \<times> heap_tag) list \<Rightarrow> nat \<Rightarrow> region_store \<Rightarrow> bytes
     \<Rightarrow> (nat \<times> region_store \<times> bytes) option" where
  "install_hydrated_region pages objects base s m =
     (case new_runtime_region s of
        None \<Rightarrow> None
      | Some (i, s1) \<Rightarrow>
          (case ensure_raw i s1 of
             None \<Rightarrow> None
           | Some s2 \<Rightarrow>
               (let s3 = (if pages = [] then s2 else s2\<lparr>images := vpush (images s2) i\<rparr>) in
                case entry_at s3 i of
                  None \<Rightarrow> None
                | Some e \<Rightarrow>
                    (let (r, m') = adopt_image (e_pool e) pages m;
                         r' = install_object_index (map (\<lambda>(off, t). (base + off, t)) objects) r
                     in Some (i, set_entry i (Some (e\<lparr>e_pool := r'\<rparr>)) s3, m')))))"

definition region_pool_of :: "region_store \<Rightarrow> nat \<Rightarrow> region_pool option" where
  "region_pool_of s i = map_option e_pool (entry_at s i)"

section \<open>Introspection\<close>

definition live_entries :: "region_store \<Rightarrow> region_entry list" where
  "live_entries s = List.map_filter id (regions s)"

definition owned_count :: "region_store \<Rightarrow> nat" where
  "owned_count s =
     length (filter (\<lambda>e. case reclaim_of e of Owned _ \<Rightarrow> True | Counted _ \<Rightarrow> False) (live_entries s))"

definition total_obj_count :: "region_store \<Rightarrow> nat" where
  "total_obj_count s = sum_list (map (\<lambda>e. obj_count (e_pool e)) (live_entries s))"

definition region_bytes :: "region_store \<Rightarrow> nat" where
  "region_bytes s = sum_list (map (\<lambda>e. allocated_bytes (e_pool e)) (live_entries s))"

definition store_allocated_bytes :: "region_store \<Rightarrow> nat" where
  "store_allocated_bytes s = region_bytes s + cached_bytes (page_cache s)"

definition active_region_count :: "region_store \<Rightarrow> nat" where
  "active_region_count s = length (filter (\<lambda>x. x \<noteq> None) (regions s))"

definition store_live_objects :: "memory \<Rightarrow> region_store \<Rightarrow> heap_object list" where
  "store_live_objects mem s = concat (map (\<lambda>e. live_objects (objs mem) (e_pool e)) (live_entries s))"

text \<open>The regions in table order, each with its index.\<close>

definition indexed_entries :: "region_store \<Rightarrow> (nat \<times> region_entry) list" where
  "indexed_entries s =
     List.map_filter (\<lambda>(i, slot). map_option (Pair i) slot) (List.enumerate 0 (regions s))"

definition cross_ref_edges :: "memory \<Rightarrow> region_store \<Rightarrow> (nat \<times> nat) list" where
  "cross_ref_edges mem s =
     concat (map (\<lambda>(i, e). map (Pair i)
       (find_region_cross_refs mem (owning_region s (mbytes mem)) i (e_pool e))) (indexed_entries s))"

definition region_info_vec :: "region_store \<Rightarrow> (nat \<times> nat \<times> nat) list" where
  "region_info_vec s = map (\<lambda>(i, e). (i, count e, obj_count (e_pool e))) (indexed_entries s)"

section \<open>Entries under update\<close>

lemma entry_set_entry [simp]:
  "entry_at (set_entry i e s) j = (if i = j \<and> i < length (regions s) then e else entry_at s j)"
  by (auto simp: entry_at_def set_entry_def)

lemma entry_none: "entry_at (set_entry r None s) r = None"
  by (simp add: entry_at_def set_entry_def)

lemma regions_set_entry [simp]: "regions (set_entry i e s) = (regions s)[i := e]"
  by (simp add: set_entry_def)

lemma entry_at_cong: "regions s = regions s' \<Longrightarrow> entry_at s i = entry_at s' i"
  by (simp add: entry_at_def)

lemma entry_bound: "entry_at s i = Some e \<Longrightarrow> i < length (regions s)"
  by (simp add: entry_at_def split: if_splits)

lemma upd_entry_at [simp]:
  "entry_at (upd_entry i f s) j = (if i = j then map_option f (entry_at s j) else entry_at s j)"
  by (auto simp: upd_entry_def split: option.splits dest: entry_bound)

lemma is_live_upd [simp]: "is_live (upd_entry i f s) j = is_live s j"
  by (simp add: is_live_def)

lemma is_live_regions: "regions s = regions s' \<Longrightarrow> is_live s i = is_live s' i"
  by (simp add: is_live_def entry_at_def)

lemma set_entry_Some_live: "entry_at s i \<noteq> None \<Longrightarrow> is_live (set_entry i (Some e) s) j = is_live s j"
  by (auto simp: is_live_def dest: entry_bound)

end
