(* ===== verification/Region_Forest.thy ===== *)
theory Region_Forest
  imports Region_Store
begin

text \<open>
  The ownership forest (\<^verbatim>\<open>value/fiberheap/regionstore/ownership.rs\<close>): a region is adopted into
  the subtree of an owner, extracted from it, or handed with its siblings to another owner.
\<close>

section \<open>Definitions\<close>

definition MAX_OWNER_DEPTH :: nat where "MAX_OWNER_DEPTH = 64"

definition adopt_region :: "nat \<Rightarrow> nat \<Rightarrow> region_store \<Rightarrow> region_store option" where
  "adopt_region parent child s =
     (case ensure_raw parent s of
        None \<Rightarrow> None
      | Some s1 \<Rightarrow>
          (case ensure_raw child s1 of
             None \<Rightarrow> None
           | Some s2 \<Rightarrow>
               (let s3 = upd_entry child (\<lambda>c. c\<lparr>reclaim_of := Owned parent\<rparr>) s2 in
                case entry_at s3 parent of
                  None \<Rightarrow> None
                | Some ow \<Rightarrow>
                    Some (set_entry parent (Some (ow\<lparr>owned_children := vpush (owned_children ow) child\<rparr>))
                      (s3\<lparr>counters := count_adopt (obj_count (e_pool ow) = 0) (counters s3)\<rparr>)))))"

definition region_is_owned :: "region_store \<Rightarrow> nat \<Rightarrow> bool" where
  "region_is_owned s i =
     (case entry_at s i of
        None \<Rightarrow> False
      | Some e \<Rightarrow> (case reclaim_of e of Owned _ \<Rightarrow> True | Counted _ \<Rightarrow> False))"

text \<open>The bounded walk to the root of an ownership chain.\<close>

fun owner_walk :: "nat \<Rightarrow> region_store \<Rightarrow> nat \<Rightarrow> nat" where
  "owner_walk 0 s cur = cur"
| "owner_walk (Suc n) s cur =
     (case map_option reclaim_of (entry_at s cur) of
        Some (Owned p) \<Rightarrow> owner_walk n s p
      | _ \<Rightarrow> cur)"

definition reclaim_root :: "region_store \<Rightarrow> nat \<Rightarrow> nat" where
  "reclaim_root s i = owner_walk MAX_OWNER_DEPTH s i"

text \<open>
  The walk over a region's owned subtree, a stack and a set of the ids seen; \<^const>\<open>None\<close> is an
  id past the end of the table.
\<close>

definition kids :: "region_store \<Rightarrow> nat \<Rightarrow> nat list" where
  "kids s i = (case entry_at s i of None \<Rightarrow> [] | Some e \<Rightarrow> owned_children e)"

function subtree_walk :: "region_store \<Rightarrow> nat list \<Rightarrow> nat list \<Rightarrow> nat list option" where
  "subtree_walk s stk seen =
     (case vpop stk of
        None \<Rightarrow> Some seen
      | Some (m, rest) \<Rightarrow>
          if m \<in> set seen then subtree_walk s rest seen
          else if length (regions s) \<le> m then None
          else subtree_walk s (rest @ kids s m) (m # seen))"
  by pat_completeness auto
termination
proof (relation "measures [\<lambda>(s, stk, seen). unseen (length (regions s)) seen,
    \<lambda>(s, stk, seen). length stk]", goal_cases)
  case (3 s stk seen p m rest)
  then have "unseen (length (regions s)) (m # seen) < unseen (length (regions s)) seen"
    by (intro unseen_less) auto
  then show ?case by simp
qed auto

declare subtree_walk.simps [simp del]

text \<open>The references into a region from outside a set of regions.\<close>

definition external_count :: "nat list \<Rightarrow> region_entry \<Rightarrow> nat" where
  "external_count inside e = total_where (\<lambda>k. k \<notin> set inside) (incoming e)"

definition unlink_child :: "nat \<Rightarrow> nat \<Rightarrow> region_store \<Rightarrow> region_store" where
  "unlink_child ow child s =
     upd_entry ow (\<lambda>e. e\<lparr>owned_children := filter (\<lambda>c. c \<noteq> child) (owned_children e)\<rparr>) s"

definition extract_owned_region :: "nat \<Rightarrow> region_store \<Rightarrow> region_store option" where
  "extract_owned_region child s =
     (case entry_at s child of
        None \<Rightarrow> Some s
      | Some e \<Rightarrow>
          (case reclaim_of e of
             Counted _ \<Rightarrow> Some s
           | Owned ow \<Rightarrow>
               (case subtree_walk s [child] [] of
                  None \<Rightarrow> None
                | Some sub \<Rightarrow>
                    (let s1 = set_entry child (Some (e\<lparr>reclaim_of := Counted (1 + external_count sub e)\<rparr>)) s;
                         s2 = s1\<lparr>counters := count_extract (counters s1)\<rparr>
                     in Some (unlink_child ow child s2)))))"

fun restamp_children :: "nat \<Rightarrow> nat list \<Rightarrow> region_store \<Rightarrow> region_store option" where
  "restamp_children to [] s = Some s"
| "restamp_children to (c # cs) s =
     (case entry_at s c of
        None \<Rightarrow> None
      | Some e \<Rightarrow> restamp_children to cs (set_entry c (Some (e\<lparr>reclaim_of := Owned to\<rparr>)) s))"

definition reparent_owned_children :: "nat \<Rightarrow> nat \<Rightarrow> region_store \<Rightarrow> region_store option" where
  "reparent_owned_children from to s =
     (if from = to then Some s
      else case entry_at s from of
        None \<Rightarrow> Some s
      | Some e \<Rightarrow>
          (let children = owned_children e;
               s1 = set_entry from (Some (e\<lparr>owned_children := []\<rparr>)) s
           in if children = [] then Some s1
              else (case ensure_raw to (s1\<lparr>counters := count_reparents (length children) (counters s1)\<rparr>) of
                      None \<Rightarrow> None
                    | Some s2 \<Rightarrow>
                        (case restamp_children to children s2 of
                           None \<Rightarrow> None
                         | Some s3 \<Rightarrow>
                             Some (upd_entry to (\<lambda>t. t\<lparr>owned_children := owned_children t @ children\<rparr>) s3)))))"

end
