(* ===== verification/Region_Free.thy ===== *)
theory Region_Free
  imports Region_Forest
begin

text \<open>
  The wholesale free of a region set (\<^verbatim>\<open>value/fiberheap/regionstore/free.rs\<close> and
  \<^verbatim>\<open>free/rescue.rs\<close>), the cascade it drives, the decrefs that start it (\<^verbatim>\<open>refcount.rs\<close>), the
  closed allocation scope (\<^verbatim>\<open>mintscope.rs\<close>) and the end of a store (\<^verbatim>\<open>regionstore.rs\<close>). The
  hash sets of region ids are lists. A cascade names its source only for the free log; what is
  kept of it is whether a decref is direct, that is, has no source.
\<close>

section \<open>The end of one region\<close>

definition bump_generation :: "nat \<Rightarrow> region_store \<Rightarrow> region_store" where
  "bump_generation i s =
     (if i < length (generations s)
      then s\<lparr>generations := (generations s)[i := wrap_add32 (generations s ! i) 1]\<rparr>
      else s)"

definition release_pages ::
  "platform \<Rightarrow> nat \<Rightarrow> region_entry \<Rightarrow> region_store \<Rightarrow> bytes \<Rightarrow> nat \<times> region_store \<times> bytes" where
  "release_pages pf i e s m =
     (let s1 = s\<lparr>images := filter (\<lambda>r. r \<noteq> i) (images s)\<rparr>;
          (freed, r, pc, m') = pool_teardown pf (e_pool e) (page_cache s1) m
      in (freed, bump_generation i (s1\<lparr>page_cache := pc\<rparr>), m'))"

fun teardown_slots :: "platform \<Rightarrow> nat list \<Rightarrow> region_store \<Rightarrow> bytes \<Rightarrow> region_store \<times> bytes" where
  "teardown_slots pf [] s m = (s, m)"
| "teardown_slots pf (i # is) s m =
     (case entry_at s i of
        None \<Rightarrow> teardown_slots pf is s m
      | Some e \<Rightarrow>
          (let (freed, s', m') = release_pages pf i e (set_entry i None s) m
           in teardown_slots pf is s' m'))"

definition teardown_all :: "platform \<Rightarrow> region_store \<Rightarrow> bytes \<Rightarrow> region_store \<times> bytes" where
  "teardown_all pf s m = teardown_slots pf [0..<length (regions s)] s m"

section \<open>Collecting the dying set\<close>

type_synonym candidate = "nat \<times> nat option"

function collect_dying ::
  "region_store \<Rightarrow> candidate list \<Rightarrow> candidate list \<Rightarrow> nat list \<Rightarrow> candidate list \<times> nat list" where
  "collect_dying s stk cands dying =
     (case vpop stk of
        None \<Rightarrow> (cands, dying)
      | Some ((r, ow), rest) \<Rightarrow>
          if length (regions s) \<le> r \<or> r \<in> set dying then collect_dying s rest cands dying
          else (case entry_at s r of
                  None \<Rightarrow> collect_dying s rest cands dying
                | Some e \<Rightarrow>
                    collect_dying s (rest @ map (\<lambda>c. (c, Some r)) (owned_children e))
                      (vpush cands (r, ow)) (r # dying)))"
  by pat_completeness auto
termination
proof (relation "measures [\<lambda>(s, stk, cands, dying). unseen (length (regions s)) dying,
    \<lambda>(s, stk, cands, dying). length stk]", goal_cases)
  case (4 s stk cands dying p x rest r ow e)
  then have "unseen (length (regions s)) (r # dying) < unseen (length (regions s)) dying"
    by (intro unseen_less) auto
  then show ?case by simp
qed auto

declare collect_dying.simps [simp del]

section \<open>The rescue\<close>

text \<open>Taking a region and its owned subtree out of the dying set.\<close>

function prune_subtree :: "region_store \<Rightarrow> nat list \<Rightarrow> nat list \<Rightarrow> nat list option" where
  "prune_subtree s stk dying =
     (case vpop stk of
        None \<Rightarrow> Some dying
      | Some (m, rest) \<Rightarrow>
          if m \<notin> set dying then prune_subtree s rest dying
          else if length (regions s) \<le> m then None
          else prune_subtree s (rest @ kids s m) (removeAll m dying))"
  by pat_completeness auto
termination
  by (relation "measures [\<lambda>(s, stk, dying). length dying, \<lambda>(s, stk, dying). length stk]")
    (auto simp: length_removeAll_less)

declare prune_subtree.simps [simp del]

definition externally_referenced :: "region_store \<Rightarrow> nat list \<Rightarrow> region_entry \<Rightarrow> bool" where
  "externally_referenced s dying e \<longleftrightarrow>
     list_ex (\<lambda>(src, n). src \<notin> set dying \<and> is_live s src) (incoming e)"

text \<open>One pass over the candidates: the dying set, the members rescued, whether any was.\<close>

fun rescue_pass ::
  "region_store \<Rightarrow> candidate list \<Rightarrow> nat list \<Rightarrow> (nat \<times> nat) list \<Rightarrow> bool
     \<Rightarrow> (nat list \<times> (nat \<times> nat) list \<times> bool) option" where
  "rescue_pass s [] dying rescued changed = Some (dying, rescued, changed)"
| "rescue_pass s ((r, None) # cs) dying rescued changed = rescue_pass s cs dying rescued changed"
| "rescue_pass s ((r, Some ow) # cs) dying rescued changed =
     (if r \<notin> set dying then rescue_pass s cs dying rescued changed
      else if length (regions s) \<le> r then None
      else (case entry_at s r of
              None \<Rightarrow> rescue_pass s cs dying rescued changed
            | Some e \<Rightarrow>
                if incoming e = [] \<or> \<not> externally_referenced s dying e
                then rescue_pass s cs dying rescued changed
                else (case prune_subtree s [r] dying of
                        None \<Rightarrow> None
                      | Some dying' \<Rightarrow> rescue_pass s cs dying' (vpush rescued (r, ow)) True)))"

lemma prune_Nil [simp]: "prune_subtree s [] dying = Some dying"
  by (simp add: prune_subtree.simps)

lemma prune_snoc:
  "prune_subtree s (rest @ [m]) dying =
     (if m \<notin> set dying then prune_subtree s rest dying
      else if length (regions s) \<le> m then None
      else prune_subtree s (rest @ kids s m) (removeAll m dying))"
  by (simp add: prune_subtree.simps [of s "rest @ [m]"])

lemma prune_length: "prune_subtree s stk dying = Some d \<Longrightarrow> length d \<le> length dying"
proof (induction s stk dying rule: prune_subtree.induct)
  case (1 s stk dying)
  show ?case
  proof (cases stk rule: rev_cases)
    case (snoc rest m)
    then show ?thesis using "1.prems" "1.IH" [of "(m, rest)" m rest]
      by (auto simp: prune_snoc split: if_splits intro: le_trans [OF _ length_removeAll_less_eq])
  qed (use "1.prems" in simp)
qed

lemma prune_root:
  assumes "prune_subtree s [r] dying = Some d" "r \<in> set dying"
  shows "length d < length dying"
proof -
  have "prune_subtree s (kids s r) (removeAll r dying) = Some d"
    using assms prune_snoc [of s "[]" r dying] by (simp split: if_splits)
  then show ?thesis using prune_length length_removeAll_less [OF assms(2)] by fastforce
qed

lemma rescue_pass_length:
  "rescue_pass s cs dying rescued changed = Some (d, r', ch) \<Longrightarrow>
     length d \<le> length dying \<and> (ch \<longrightarrow> changed \<or> length d < length dying)"
proof (induction s cs dying rescued changed rule: rescue_pass.induct)
  case (3 s r ow cs dying rescued changed)
  then show ?case
    by (fastforce split: if_splits option.splits dest: prune_root)
qed auto

function rescue_loop ::
  "region_store \<Rightarrow> candidate list \<Rightarrow> nat list \<Rightarrow> (nat \<times> nat) list
     \<Rightarrow> (nat list \<times> (nat \<times> nat) list) option" where
  "rescue_loop s cands dying rescued =
     (case rescue_pass s cands dying rescued False of
        None \<Rightarrow> None
      | Some (dying', rescued', changed) \<Rightarrow>
          if changed then rescue_loop s cands dying' rescued' else Some (dying', rescued'))"
  by pat_completeness auto
termination
  by (relation "measure (\<lambda>(s, cands, dying, rescued). length dying)")
    (auto dest!: sym [of _ "rescue_pass _ _ _ _ _"] rescue_pass_length)

declare rescue_loop.simps [simp del]

fun unlink_rescued :: "(nat \<times> nat) list \<Rightarrow> region_store \<Rightarrow> region_store" where
  "unlink_rescued [] s = s"
| "unlink_rescued ((r, ow) # rs) s = unlink_rescued rs (unlink_child ow r s)"

fun rebuild_counts :: "(nat \<times> nat) list \<Rightarrow> region_store \<Rightarrow> region_store option" where
  "rebuild_counts [] s = Some s"
| "rebuild_counts ((r, ow) # rs) s =
     (case subtree_walk s [r] [] of
        None \<Rightarrow> None
      | Some sub \<Rightarrow>
          (case entry_at s r of
             None \<Rightarrow> None
           | Some e \<Rightarrow>
               rebuild_counts rs
                 (set_entry r (Some (e\<lparr>reclaim_of := Counted (external_count sub e)\<rparr>)) s)))"

definition rescue_externally_referenced ::
  "candidate list \<Rightarrow> nat list \<Rightarrow> region_store \<Rightarrow> (nat list \<times> region_store) option" where
  "rescue_externally_referenced cands dying s =
     (case rescue_loop s cands dying [] of
        None \<Rightarrow> None
      | Some (dying', rescued) \<Rightarrow>
          if rescued = [] then Some (dying', s)
          else
            (let s1 = s\<lparr>counters := count_rescue (length rescued) (length dying - length dying') (counters s)\<rparr>
             in case rebuild_counts rescued (unlink_rescued rescued s1) of
                  None \<Rightarrow> None
                | Some s2 \<Rightarrow> Some (dying', s2)))"

section \<open>Unindexing, the frontier and the mirror\<close>

fun unindex_members ::
  "nat list \<Rightarrow> candidate list \<Rightarrow> region_store \<Rightarrow> (nat \<times> region_entry) list \<times> region_store" where
  "unindex_members dying [] s = ([], s)"
| "unindex_members dying ((r, ow) # cs) s =
     (if r \<notin> set dying then unindex_members dying cs s
      else (case entry_at s r of
              None \<Rightarrow> unindex_members dying cs s
            | Some e \<Rightarrow>
                (let (ms, s') = unindex_members dying cs (set_entry r None s)
                 in ((r, e\<lparr>owned_children := []\<rparr>) # ms, s'))))"

definition retired_edges ::
  "region_store \<Rightarrow> (nat \<times> region_entry) list \<Rightarrow> (nat \<times> nat \<times> nat) list" where
  "retired_edges s ms =
     concat (map (\<lambda>(r, e). map (\<lambda>(t, n). (r, t, n)) (filter (\<lambda>(t, n). is_live s t) (outgoing e))) ms)"

definition member_frontier :: "region_store \<Rightarrow> (nat \<times> region_entry) list \<Rightarrow> nat list" where
  "member_frontier s ms = concat (map (\<lambda>(r, t, n). replicate n t) (retired_edges s ms))"

fun retire_all :: "(nat \<times> nat \<times> nat) list \<Rightarrow> region_store \<Rightarrow> region_store" where
  "retire_all [] s = s"
| "retire_all ((src, dst, n) # es) s = retire_all es (unmirror_incoming src dst n s)"

section \<open>The fiber discharge\<close>

definition value_region :: "region_store \<Rightarrow> bytes \<Rightarrow> evalue \<Rightarrow> nat option" where
  "value_region s m v = map_option (owning_region s m) (as_heap_ptr v)"

definition mapping_live :: "region_store \<Rightarrow> mapped_region \<Rightarrow> bool" where
  "mapping_live s mr \<longleftrightarrow> generation_raw s (m_region mr) = m_gen mr \<and> is_live s (m_region mr)"

text \<open>The regions one fiber's parked state releases, in the order they are pushed.\<close>

definition discharge_fiber :: "region_store \<Rightarrow> bytes \<Rightarrow> fiber \<Rightarrow> nat list \<times> fiber" where
  "discharge_fiber s m fb =
     (let (p, fb1) = take_parked_state fb;
          node = (case fiber_owner_node fb1 of None \<Rightarrow> [] | Some n \<Rightarrow> [n]);
          prot = (case protect p of None \<Rightarrow> None | Some v \<Rightarrow> value_region s m v);
          owed' = concat (map (\<lambda>v. case value_region s m v of
                      None \<Rightarrow> []
                    | Some rid \<Rightarrow> if 1 < rid \<and> prot \<noteq> Some rid then [rid] else []) (owed (dues p)));
          owed_r = concat (map (\<lambda>mr. if 1 < m_region mr \<and> mapping_live s mr
                                          \<and> prot \<noteq> Some (m_region mr)
                                       then [m_region mr] else []) (owed_regions (dues p)));
          sig = (case p_signal p of
                   None \<Rightarrow> []
                 | Some (_, v) \<Rightarrow>
                     (case value_region s m v of
                        None \<Rightarrow> [] | Some rid \<Rightarrow> if 1 < rid then [rid] else []))
      in (nodes (dues p) @ p_deferred (dues p) @ node @ owed' @ owed_r @ sig,
          fb1\<lparr>fiber_owner_node := None\<rparr>))"

fun discharge_objects :: "region_store \<Rightarrow> heap_object list \<Rightarrow> memory \<Rightarrow> nat list \<times> memory" where
  "discharge_objects s [] mem = ([], mem)"
| "discharge_objects s (ob # obs) mem =
     (case ob of
        HFiber h t \<Rightarrow>
          (case fibs mem h of
             None \<Rightarrow> discharge_objects s obs mem
           | Some fb \<Rightarrow>
               (let (ids, fb') = discharge_fiber s (mbytes mem) fb;
                    (rest, mem') = discharge_objects s obs (mem\<lparr>fibs := (fibs mem)(h \<mapsto> fb')\<rparr>)
                in (ids @ rest, mem')))
      | _ \<Rightarrow> discharge_objects s obs mem)"

definition discharge_members ::
  "region_store \<Rightarrow> (nat \<times> region_entry) list \<Rightarrow> memory \<Rightarrow> nat list \<times> memory" where
  "discharge_members s ms mem =
     discharge_objects s (concat (map (\<lambda>(r, e). live_objects (objs mem) (e_pool e)) ms)) mem"

section \<open>Tearing a set down\<close>

fun release_members ::
  "platform \<Rightarrow> (nat \<times> region_entry) list \<Rightarrow> region_store \<Rightarrow> bytes \<Rightarrow> nat \<times> region_store \<times> bytes" where
  "release_members pf [] s m = (0, s, m)"
| "release_members pf ((r, e) # ms) s m =
     (let s1 = s\<lparr>counters := count_free (length (page_ranges (e_pool e))) (obj_count (e_pool e))
                    (case reclaim_of e of Owned _ \<Rightarrow> True | Counted _ \<Rightarrow> False) (counters s)\<rparr>;
          (n, s2, m2) = release_pages pf r e s1 m;
          s3 = s2\<lparr>free_physical := vpush (free_physical s2) r\<rparr>;
          (n', s4, m4) = release_members pf ms s3 m2
      in (n + n', s4, m4))"

definition teardown_set ::
  "platform \<Rightarrow> nat list \<Rightarrow> region_store \<Rightarrow> memory
     \<Rightarrow> (nat \<times> nat list \<times> region_store \<times> memory) option" where
  "teardown_set pf roots s mem =
     (let (cands, dying) = collect_dying s (map (\<lambda>r. (r, None)) roots) [] [] in
      case rescue_externally_referenced cands dying s of
        None \<Rightarrow> None
      | Some (dying', s1) \<Rightarrow>
          (let (ms, s2) = unindex_members dying' cands s1 in
           if ms = [] then Some (0, [], s2, mem)
           else
             (let frontier = member_frontier s2 ms;
                  s3 = retire_all (retired_edges s2 ms) s2;
                  (discharged, mem1) = discharge_members s3 ms mem;
                  (freed, s4, m4) = release_members pf ms s3 (mbytes mem1)
              in Some (freed, frontier @ discharged, s4, mem1\<lparr>mbytes := m4\<rparr>))))"

section \<open>What a teardown does to the table\<close>

lemma is_live_unlink [simp]: "is_live (unlink_rescued rs s) j = is_live s j"
  by (induction rs s rule: unlink_rescued.induct) (simp_all add: unlink_child_def)

lemma is_live_rebuild: "rebuild_counts rs s = Some s' \<Longrightarrow> is_live s' j = is_live s j"
  by (induction rs s rule: rebuild_counts.induct)
    (auto split: option.splits simp: set_entry_Some_live)

lemma is_live_counters [simp]: "is_live (s\<lparr>counters := c\<rparr>) j = is_live s j"
  by (rule is_live_regions) simp

lemma is_live_rescue:
  assumes "rescue_externally_referenced cands dying s = Some (d, s')"
  shows "is_live s' j = is_live s j"
proof (cases "s' = s")
  case False
  then obtain rs c where "rebuild_counts rs (unlink_rescued rs (s\<lparr>counters := c\<rparr>)) = Some s'"
    using assms by (auto simp: rescue_externally_referenced_def Let_def split: option.splits if_splits)
  from is_live_rebuild [OF this, of j] show ?thesis by simp
qed simp

lemma unindex_entry:
  "entry_at (snd (unindex_members dying cs s)) j =
     (if j \<in> set dying \<and> j \<in> fst ` set cs then None else entry_at s j)"
  by (induction dying cs s rule: unindex_members.induct)
    (auto simp: Let_def case_prod_unfold split: option.splits dest: entry_bound)

lemma unindex_member:
  "(r, e) \<in> set (fst (unindex_members dying cs s)) \<longleftrightarrow>
     r \<in> set dying \<and> r \<in> fst ` set cs
     \<and> (\<exists>e0. entry_at s r = Some e0 \<and> e = e0\<lparr>owned_children := []\<rparr>)"
  by (induction dying cs s rule: unindex_members.induct)
    (auto simp: Let_def case_prod_unfold image_iff split: option.splits dest: entry_bound)

lemma unindex_distinct: "distinct (map fst (fst (unindex_members dying cs s)))"
proof (induction dying cs s rule: unindex_members.induct)
  case (2 dying r ow cs s)
  have "r \<notin> fst ` set (fst (unindex_members dying cs (set_entry r None s)))"
    using unindex_member [of r _ dying cs "set_entry r None s"] entry_none [of r s] by fastforce
  then show ?case using 2 by (auto simp: Let_def case_prod_unfold split: option.splits)
qed simp

lemma is_live_retire [simp]: "is_live (retire_all es s) j = is_live s j"
  by (induction es s rule: retire_all.induct) (simp_all add: unmirror_incoming_def)

lemma regions_bump [simp]: "regions (bump_generation i s) = regions s"
  by (simp add: bump_generation_def)

lemma regions_release_pages [simp]: "regions (fst (snd (release_pages pf i e s m))) = regions s"
  by (simp add: release_pages_def Let_def case_prod_unfold)

lemma regions_release [simp]: "regions (fst (snd (release_members pf ms s m))) = regions s"
proof (induction ms arbitrary: s m)
  case (Cons p ms)
  then show ?case by (cases p) (simp add: Let_def case_prod_unfold)
qed simp

lemma is_live_release [simp]: "is_live (fst (snd (release_members pf ms s m))) j = is_live s j"
  by (rule is_live_regions) simp

lemma teardown_live:
  assumes "teardown_set pf roots s mem = Some (n, fr, s', mem')"
  shows "is_live s' j \<Longrightarrow> is_live s j" "fr \<noteq> [] \<Longrightarrow> \<exists>j. is_live s j \<and> \<not> is_live s' j"
proof -
  obtain cands dying where c: "collect_dying s (map (\<lambda>r. (r, None)) roots) [] [] = (cands, dying)"
    by fastforce
  obtain d s1 where r: "rescue_externally_referenced cands dying s = Some (d, s1)"
    using assms c by (auto simp: teardown_set_def split: option.splits)
  obtain ms s2 where u: "unindex_members d cands s1 = (ms, s2)" by fastforce
  have l: "is_live s' j \<longleftrightarrow> is_live s2 j" for j
    using assms c r u by (auto simp: teardown_set_def Let_def case_prod_unfold split: if_splits)
  have e: "entry_at s2 j = (if j \<in> set d \<and> j \<in> fst ` set cands then None else entry_at s1 j)" for j
    using unindex_entry [of d cands s1 j] u by simp
  show "is_live s' j \<Longrightarrow> is_live s j" for j
    using l [of j] e [of j] is_live_rescue [OF r, of j] by (simp add: is_live_def split: if_splits)
  show "\<exists>j. is_live s j \<and> \<not> is_live s' j" if "fr \<noteq> []"
  proof -
    have "ms \<noteq> []" using assms c r u that by (auto simp: teardown_set_def Let_def)
    then obtain j ej where "(j, ej) \<in> set ms" by (cases ms) auto
    then have "j \<in> set d" "j \<in> fst ` set cands" "is_live s1 j"
      using unindex_member [of j ej d cands s1] u by (auto simp: is_live_def)
    then show ?thesis using is_live_rescue [OF r, of j] l [of j] e [of j] by (auto simp: is_live_def)
  qed
qed

definition live_ids :: "region_store \<Rightarrow> nat set" where
  "live_ids s = {i. is_live s i}"

lemma finite_live [simp]: "finite (live_ids s)"
proof (rule finite_subset)
  show "live_ids s \<subseteq> {..<length (regions s)}" by (auto simp: live_ids_def is_live_def dest: entry_bound)
qed simp

lemma teardown_card:
  assumes "teardown_set pf roots s mem = Some (n, fr, s', mem')"
  shows "card (live_ids s') \<le> card (live_ids s)" "fr \<noteq> [] \<Longrightarrow> card (live_ids s') < card (live_ids s)"
proof -
  have sub: "live_ids s' \<subseteq> live_ids s" using teardown_live(1) [OF assms] by (auto simp: live_ids_def)
  then show "card (live_ids s') \<le> card (live_ids s)" by (rule card_mono [OF finite_live])
  show "card (live_ids s') < card (live_ids s)" if "fr \<noteq> []"
    using sub teardown_live(2) [OF assms that]
    by (intro psubset_card_mono [OF finite_live]) (auto simp: live_ids_def)
qed

section \<open>The cascade\<close>

text \<open>The decrefs of a frontier: the regions whose last reference went, in order.\<close>

fun cascade_decrefs :: "bool \<Rightarrow> nat list \<Rightarrow> region_store \<Rightarrow> nat list \<times> region_store" where
  "cascade_decrefs direct [] s = ([], s)"
| "cascade_decrefs direct (r # rs) s =
     (case runtime_region r of
        None \<Rightarrow> cascade_decrefs direct rs s
      | Some i \<Rightarrow>
          (let (z, s1) = decref_reaches_zero i direct s;
               (zs, s2) = cascade_decrefs direct rs s1
           in (if z then i # zs else zs, s2)))"

lemma is_live_over_free [simp]: "is_live (note_over_free b s) j = is_live s j"
  by (rule is_live_regions) (simp add: note_over_free_def)

lemma is_live_decref [simp]: "is_live (snd (decref_reaches_zero i d s)) j = is_live s j"
  by (auto simp: decref_reaches_zero_def Let_def set_entry_Some_live split: option.splits reclaim.splits)

lemma is_live_cascade [simp]: "is_live (snd (cascade_decrefs d rs s)) j = is_live s j"
  by (induction rs arbitrary: s) (simp_all add: Let_def case_prod_unfold split: option.splits)

lemma live_cascade [simp]: "live_ids (snd (cascade_decrefs d rs s)) = live_ids s"
  by (simp add: live_ids_def)

function free_cascade ::
  "platform \<Rightarrow> nat list list \<Rightarrow> region_store \<Rightarrow> memory \<Rightarrow> nat \<Rightarrow> (nat \<times> region_store \<times> memory) option" where
  "free_cascade pf wl s mem freed =
     (case vpop wl of
        None \<Rightarrow> Some (freed, s, mem)
      | Some (rset, rest) \<Rightarrow>
          (case teardown_set pf rset s mem of
             None \<Rightarrow> None
           | Some (n, frontier, s1, mem1) \<Rightarrow>
               (let (zs, s2) = cascade_decrefs (rset = []) frontier s1
                in free_cascade pf (rest @ map (\<lambda>r. [r]) zs) s2 mem1 (freed + n))))"
  by pat_completeness auto
termination
proof (relation "measures [\<lambda>(pf, wl, s, mem, freed). card (live_ids s),
    \<lambda>(pf, wl, s, mem, freed). length wl]", goal_cases)
  case (2 pf wl s mem freed p rset rest q n x frontier x' s1 mem1 y zs s2)
  then have t: "teardown_set pf rset s mem = Some (n, frontier, s1, mem1)"
    and c: "cascade_decrefs (rset = []) frontier s1 = (zs, s2)" by auto
  have "live_ids s2 = live_ids s1" using live_cascade [of "rset = []" frontier s1] c by simp
  with teardown_card [OF t] c show ?case
    using 2 by (cases "frontier = []") (auto simp: le_less)
qed simp

declare free_cascade.simps [simp del]

definition free_region_set ::
  "platform \<Rightarrow> nat list \<Rightarrow> region_store \<Rightarrow> memory \<Rightarrow> (nat \<times> region_store \<times> memory) option" where
  "free_region_set pf roots s mem = free_cascade pf [roots] s mem 0"

definition free_runtime_region_pages ::
  "platform \<Rightarrow> nat \<Rightarrow> region_store \<Rightarrow> memory \<Rightarrow> (nat \<times> region_store \<times> memory) option" where
  "free_runtime_region_pages pf i s mem = free_region_set pf [i] s mem"

definition free_region_group ::
  "platform \<Rightarrow> nat list \<Rightarrow> region_store \<Rightarrow> memory \<Rightarrow> (nat \<times> region_store \<times> memory) option" where
  "free_region_group pf members s mem = free_region_set pf members s mem"

definition decref ::
  "platform \<Rightarrow> nat \<Rightarrow> region_store \<Rightarrow> memory \<Rightarrow> (nat \<times> region_store \<times> memory) option" where
  "decref pf i s mem =
     (let (z, s1) = decref_reaches_zero i True s in
      if z then free_runtime_region_pages pf i s1 mem else Some (0, s1, mem))"

definition decref_if_present ::
  "platform \<Rightarrow> nat \<Rightarrow> region_store \<Rightarrow> memory \<Rightarrow> (nat \<times> region_store \<times> memory) option" where
  "decref_if_present pf i s mem = (if is_live s i then decref pf i s mem else Some (0, s, mem))"

section \<open>The closed allocation scope\<close>

definition begin_mint_log :: "region_store \<Rightarrow> region_store" where
  "begin_mint_log s = s\<lparr>mint_log := Some []\<rparr>"

fun mint_survivors :: "region_store \<Rightarrow> nat list \<Rightarrow> (nat \<times> nat) list \<Rightarrow> nat list \<Rightarrow> (nat \<times> nat) list" where
  "mint_survivors s prot [] seen = []"
| "mint_survivors s prot ((i, g) # l) seen =
     (if is_live s i \<and> generation_raw s i = g \<and> i \<notin> set prot \<and> i \<notin> set seen
      then (i, g) # mint_survivors s prot l (i # seen)
      else mint_survivors s prot l seen)"

definition survivor_refs :: "memory \<Rightarrow> region_store \<Rightarrow> (nat \<times> nat) list \<Rightarrow> nat list" where
  "survivor_refs mem s surv =
     concat (map (\<lambda>(i, g). case entry_at s i of
         None \<Rightarrow> []
       | Some e \<Rightarrow> find_region_cross_refs mem
           (\<lambda>p. let rid = owning_region s (mbytes mem) p in if rid \<in> fst ` set surv then rid else 0)
           i (e_pool e)) surv)"

fun release_escapes ::
  "platform \<Rightarrow> nat \<Rightarrow> nat \<Rightarrow> nat \<Rightarrow> region_store \<Rightarrow> memory \<Rightarrow> (nat \<times> region_store \<times> memory) option" where
  "release_escapes pf i g 0 s mem = Some (0, s, mem)"
| "release_escapes pf i g (Suc k) s mem =
     (if \<not> (is_live s i \<and> generation_raw s i = g) then Some (0, s, mem)
      else (case (case runtime_region i of None \<Rightarrow> Some (0, s, mem) | Some r \<Rightarrow> decref pf r s mem) of
              None \<Rightarrow> None
            | Some (n, s1, mem1) \<Rightarrow>
                (case release_escapes pf i g k s1 mem1 of
                   None \<Rightarrow> None
                 | Some (n', s2, mem2) \<Rightarrow> Some (n + n', s2, mem2))))"

fun release_survivors ::
  "platform \<Rightarrow> (nat \<times> nat \<times> nat) list \<Rightarrow> region_store \<Rightarrow> memory \<Rightarrow> (nat \<times> region_store \<times> memory) option" where
  "release_survivors pf [] s mem = Some (0, s, mem)"
| "release_survivors pf ((i, g, esc) # rest) s mem =
     (case release_escapes pf i g esc s mem of
        None \<Rightarrow> None
      | Some (n, s1, mem1) \<Rightarrow>
          (case release_survivors pf rest s1 mem1 of
             None \<Rightarrow> None
           | Some (n', s2, mem2) \<Rightarrow> Some (n + n', s2, mem2)))"

definition reclaim_mint_scope ::
  "platform \<Rightarrow> nat list \<Rightarrow> region_store \<Rightarrow> memory \<Rightarrow> (nat \<times> region_store \<times> memory) option" where
  "reclaim_mint_scope pf prot s mem =
     (case mint_log s of
        None \<Rightarrow> Some (0, s, mem)
      | Some l \<Rightarrow>
          (let s1 = s\<lparr>mint_log := None\<rparr>;
               surv = mint_survivors s1 prot l [];
               refs = survivor_refs mem s1 surv
           in if surv = [] then Some (0, s1, mem)
              else release_survivors pf
                     (map (\<lambda>(i, g). (i, g, rc_raw s1 i - count_list refs i)) surv) s1 mem))"

end
