(* ===== verification/Region_Edges.thy ===== *)
theory Region_Edges
  imports Region_Free
begin

text \<open>
  The region table seen as a graph: the reclaim mode of every region, its owned children, and
  the content edges as the source and as the target record them. What each operation of the
  store does to these views, and the walks over the forest as reachability.
\<close>

section \<open>Views\<close>

definition mode :: "region_store \<Rightarrow> nat \<Rightarrow> reclaim option" where
  "mode s i = map_option reclaim_of (entry_at s i)"

definition out_edge :: "region_store \<Rightarrow> nat \<Rightarrow> nat \<Rightarrow> nat" where
  "out_edge s a b = (case entry_at s a of None \<Rightarrow> 0 | Some e \<Rightarrow> cnt (outgoing e) b)"

definition in_edge :: "region_store \<Rightarrow> nat \<Rightarrow> nat \<Rightarrow> nat" where
  "in_edge s a b = (case entry_at s b of None \<Rightarrow> 0 | Some e \<Rightarrow> cnt (incoming e) a)"

definition in_total :: "region_store \<Rightarrow> nat \<Rightarrow> nat" where
  "in_total s b = (case entry_at s b of None \<Rightarrow> 0 | Some e \<Rightarrow> total (incoming e))"

definition tables_ok :: "region_store \<Rightarrow> bool" where
  "tables_ok s \<longleftrightarrow>
     (\<forall>i e. entry_at s i = Some e \<longrightarrow> table_ok (outgoing e) \<and> table_ok (incoming e))"

definition same_view :: "region_store \<Rightarrow> region_store \<Rightarrow> bool" where
  "same_view s s' \<longleftrightarrow>
     (\<forall>i. mode s i = mode s' i \<and> kids s i = kids s' i \<and> in_total s i = in_total s' i)
     \<and> out_edge s = out_edge s' \<and> in_edge s = in_edge s' \<and> tables_ok s = tables_ok s'"

lemma live_mode: "is_live s i \<longleftrightarrow> mode s i \<noteq> None"
  by (simp add: is_live_def mode_def)

lemma tables_okD:
  "tables_ok s \<Longrightarrow> entry_at s i = Some e \<Longrightarrow> table_ok (outgoing e) \<and> table_ok (incoming e)"
  by (simp add: tables_ok_def)

lemma out_live: "0 < out_edge s a b \<Longrightarrow> is_live s a"
  by (auto simp: out_edge_def is_live_def split: option.splits)

lemma in_live: "0 < in_edge s a b \<Longrightarrow> is_live s b"
  by (auto simp: in_edge_def is_live_def split: option.splits)

lemma kids_live: "c \<in> set (kids s p) \<Longrightarrow> is_live s p"
  by (cases "entry_at s p") (auto simp: kids_def is_live_def)

lemma in_total_zero: "tables_ok s \<Longrightarrow> in_total s b = 0 \<Longrightarrow> in_edge s a b = 0"
  using cnt_total by (fastforce simp: in_total_def in_edge_def dest: tables_okD split: option.splits)

lemma same_view_refl: "same_view s s"
  by (simp add: same_view_def)

text \<open>Two tables with the same entries up to the pools have the same views.\<close>

definition row :: "region_entry \<Rightarrow> reclaim \<times> nat list \<times> table \<times> table" where
  "row e = (reclaim_of e, owned_children e, outgoing e, incoming e)"

lemma views_row:
  "mode s i = map_option fst (map_option row (entry_at s i))"
  "kids s i = (case map_option row (entry_at s i) of None \<Rightarrow> [] | Some (m, k, oe, ie) \<Rightarrow> k)"
  "out_edge s i b = (case map_option row (entry_at s i) of None \<Rightarrow> 0 | Some (m, k, oe, ie) \<Rightarrow> cnt oe b)"
  "in_edge s a i = (case map_option row (entry_at s i) of None \<Rightarrow> 0 | Some (m, k, oe, ie) \<Rightarrow> cnt ie a)"
  "in_total s i = (case map_option row (entry_at s i) of None \<Rightarrow> 0 | Some (m, k, oe, ie) \<Rightarrow> total ie)"
  "tables_ok s = (\<forall>i. case map_option row (entry_at s i) of
     None \<Rightarrow> True | Some (m, k, oe, ie) \<Rightarrow> table_ok oe \<and> table_ok ie)"
  by (simp_all add: mode_def kids_def out_edge_def in_edge_def in_total_def tables_ok_def row_def
      option.map_comp o_def all_simps split: option.split)

lemma same_viewI:
  assumes "\<And>i. map_option row (entry_at s i) = map_option row (entry_at s' i)"
  shows "same_view s s'"
  by (simp add: same_view_def views_row assms fun_eq_iff)

lemma same_view_regions: "regions s = regions s' \<Longrightarrow> same_view s s'"
  by (rule same_viewI) (simp add: entry_at_def)

section \<open>The forest as a relation\<close>

definition owns_rel :: "region_store \<Rightarrow> (nat \<times> nat) set" where
  "owns_rel s = {(p, c). c \<in> set (kids s p)}"

definition desc :: "region_store \<Rightarrow> nat \<Rightarrow> nat set" where
  "desc s r = (owns_rel s)\<^sup>* `` {r}"

lemma desc_self [simp]: "r \<in> desc s r"
  by (simp add: desc_def)

lemma desc_kid: "x \<in> desc s r \<Longrightarrow> c \<in> set (kids s x) \<Longrightarrow> c \<in> desc s r"
  by (auto simp: desc_def owns_rel_def intro: rtrancl_into_rtrancl)

lemma desc_mono: "owns_rel s' \<subseteq> owns_rel s \<Longrightarrow> desc s' r \<subseteq> desc s r"
  using rtrancl_mono [of "owns_rel s'" "owns_rel s"] by (auto simp: desc_def)

lemma desc_closed:
  assumes "r \<in> A" "\<And>x c. x \<in> A \<Longrightarrow> c \<in> set (kids s x) \<Longrightarrow> c \<in> A"
  shows "desc s r \<subseteq> A"
proof
  fix x assume "x \<in> desc s r"
  then have "(r, x) \<in> (owns_rel s)\<^sup>*" by (simp add: desc_def)
  then show "x \<in> A" by (induction rule: rtrancl_induct) (use assms in \<open>auto simp: owns_rel_def\<close>)
qed

subsection \<open>The subtree walk\<close>

lemma walk_Nil [simp]: "subtree_walk s [] seen = Some seen"
  by (simp add: subtree_walk.simps)

lemma walk_snoc:
  "subtree_walk s (rest @ [m]) seen =
     (if m \<in> set seen then subtree_walk s rest seen
      else if length (regions s) \<le> m then None
      else subtree_walk s (rest @ kids s m) (m # seen))"
  by (simp add: subtree_walk.simps [of s "rest @ [m]"])

lemma walk_induct [case_names Nil Seen Out Step]:
  assumes "\<And>seen. P [] seen"
    and "\<And>rest m seen. m \<in> set seen \<Longrightarrow> P rest seen \<Longrightarrow> P (rest @ [m]) seen"
    and "\<And>rest m seen. m \<notin> set seen \<Longrightarrow> length (regions s) \<le> m \<Longrightarrow> P (rest @ [m]) seen"
    and "\<And>rest m seen. m \<notin> set seen \<Longrightarrow> m < length (regions s) \<Longrightarrow>
      P (rest @ kids s m) (m # seen) \<Longrightarrow> P (rest @ [m]) seen"
  shows "P stk seen"
  using assms
proof (induction s stk seen rule: subtree_walk.induct)
  case (1 s stk seen)
  show ?case
  proof (cases stk rule: rev_cases)
    case (snoc rest m)
    have "P rest seen" if "m \<in> set seen"
      using "1.IH"(1) [of "(m, rest)" m rest] snoc that "1.prems" by simp
    moreover have "P (rest @ kids s m) (m # seen)" if "m \<notin> set seen" "\<not> length (regions s) \<le> m"
      using "1.IH"(2) [of "(m, rest)" m rest] snoc that "1.prems" by simp
    ultimately show ?thesis using "1.prems" snoc by (meson not_le)
  qed (simp add: "1.prems")
qed

lemma walk_sound:
  "subtree_walk s stk seen = Some r \<Longrightarrow> set stk \<union> set seen \<subseteq> desc s x \<Longrightarrow> set r \<subseteq> desc s x"
proof (induction stk seen rule: walk_induct [where s = s])
  case (Step rest m seen)
  have "set (kids s m) \<subseteq> desc s x" using Step.prems(2) desc_kid [of m s x] by auto
  then show ?case using Step by (simp add: walk_snoc)
qed (simp_all add: walk_snoc)

lemma walk_complete:
  "subtree_walk s stk seen = Some r \<Longrightarrow>
     (\<And>x c. x \<in> set seen \<Longrightarrow> c \<in> set (kids s x) \<Longrightarrow> c \<in> set seen \<union> set stk) \<Longrightarrow>
     set stk \<union> set seen \<subseteq> set r \<and> (\<forall>x \<in> set r. set (kids s x) \<subseteq> set r)"
proof (induction stk seen rule: walk_induct [where s = s])
  case (Nil seen)
  then show ?case by fastforce
next
  case (Seen m rest seen)
  have "set m \<union> set seen \<subseteq> set r \<and> (\<forall>x \<in> set r. set (kids s x) \<subseteq> set r)"
    using Seen.prems Seen.hyps by (intro Seen.IH) (auto simp: walk_snoc)
  then show ?case using Seen.hyps by auto
next
  case (Step rest m seen)
  have "set (rest @ kids s m) \<union> set (m # seen) \<subseteq> set r \<and> (\<forall>x \<in> set r. set (kids s x) \<subseteq> set r)"
    using Step.prems Step.hyps by (intro Step.IH) (auto simp: walk_snoc)
  then show ?case by auto
qed (simp add: walk_snoc)

lemma subtree_walk_desc:
  assumes "subtree_walk s [r] [] = Some sub"
  shows "set sub = desc s r"
proof
  show "set sub \<subseteq> desc s r" using walk_sound [OF assms] by simp
  show "desc s r \<subseteq> set sub" using walk_complete [OF assms] by (intro desc_closed) auto
qed

lemma walk_total:
  assumes "\<And>x c. c \<in> set (kids s x) \<Longrightarrow> c < length (regions s)"
  shows "set stk \<subseteq> {..<length (regions s)} \<Longrightarrow> subtree_walk s stk seen \<noteq> None"
  by (induction stk seen rule: walk_induct [where s = s]) (use assms in \<open>auto simp: walk_snoc\<close>)

section \<open>What the operations do to the views\<close>

subsection \<open>Materializing a region\<close>

lemma nth_resize: "i < length xs \<Longrightarrow> resize n x xs ! i = xs ! i"
  by (simp add: resize_def nth_append)

lemma length_resize: "length (resize n x xs) = max n (length xs)"
  by (simp add: resize_def)

lemma nth_resize_new: "length xs \<le> i \<Longrightarrow> i < n \<Longrightarrow> resize n x xs ! i = x"
  by (simp add: resize_def nth_append)

lemma ensure_entry:
  assumes "ensure_raw i s = Some s'"
  shows "\<exists>e. row e = (Counted 1, [], [], []) \<and> obj_count (e_pool e) = 0 \<and>
    (\<forall>j. entry_at s' j = (if j = i \<and> entry_at s i = None then Some e else entry_at s j))"
proof -
  let ?s1 = "s\<lparr>regions := resize (i + 1) None (regions s), generations := resize (i + 1) 0 (generations s)\<rparr>"
  have s': "s' = (if entry_at ?s1 i = None then set_entry i (Some (fresh_entry ?s1 i)) ?s1 else ?s1)"
    using assms by (auto simp: ensure_raw_def Let_def split: if_splits)
  have old: "entry_at ?s1 j = entry_at s j" for j
    by (auto simp: entry_at_def length_resize nth_resize nth_resize_new)
  have "i < length (regions ?s1)" by (simp add: length_resize)
  then have "entry_at s' j = (if j = i \<and> entry_at s i = None then Some (fresh_entry ?s1 i) else entry_at s j)" for j
    using old [of i] old [of j] by (auto simp: s')
  moreover have "row (fresh_entry ?s1 i) = (Counted 1, [], [], [])"
    "obj_count (e_pool (fresh_entry ?s1 i)) = 0"
    by (simp_all add: row_def fresh_entry_def region_pool_new_def)
  ultimately show ?thesis by blast
qed

lemma ensure_rows:
  assumes "ensure_raw i s = Some s'"
  shows "map_option row (entry_at s' j) =
    (if j = i \<and> entry_at s i = None then Some (Counted 1, [], [], []) else map_option row (entry_at s j))"
proof -
  from ensure_entry [OF assms] obtain e where "row e = (Counted 1, [], [], [])"
    "entry_at s' j = (if j = i \<and> entry_at s i = None then Some e else entry_at s j)" by blast
  then show ?thesis by simp
qed

lemma ensure_views:
  assumes "ensure_raw i s = Some s'"
  shows "mode s' j = (if j = i \<and> \<not> is_live s i then Some (Counted 1) else mode s j)"
    "kids s' j = kids s j" "out_edge s' a b = out_edge s a b" "in_edge s' a b = in_edge s a b"
    "in_total s' b = in_total s b" "tables_ok s \<Longrightarrow> tables_ok s'"
  unfolding views_row ensure_rows [OF assms]
  by (auto simp: is_live_def table_simps total_def split: option.splits)

lemma ensure_live: "ensure_raw i s = Some s' \<Longrightarrow> is_live s' j \<longleftrightarrow> j = i \<or> is_live s j"
  by (auto simp: live_mode ensure_views)

lemma ensure_bound: "i \<le> MAX_PLAUSIBLE_REGION_ID \<Longrightarrow> ensure_raw i s \<noteq> None"
  by (simp add: ensure_raw_def Let_def)

lemma ensure_present: "is_live s i \<Longrightarrow> ensure_raw i s \<noteq> None"
  by (auto simp: ensure_raw_def Let_def is_live_def dest: entry_bound)

subsection \<open>Setting one entry\<close>

lemma rows_set_entry:
  "is_live s i \<Longrightarrow> map_option row (entry_at (set_entry i (Some e) s) j) =
     (if j = i then Some (row e) else map_option row (entry_at s j))"
  by (auto simp: is_live_def dest: entry_bound)

lemma set_mode_views:
  assumes "entry_at s i = Some e"
  shows "mode (set_entry i (Some (e\<lparr>reclaim_of := m\<rparr>)) s) j = (if j = i then Some m else mode s j)"
    "kids (set_entry i (Some (e\<lparr>reclaim_of := m\<rparr>)) s) j = kids s j"
    "out_edge (set_entry i (Some (e\<lparr>reclaim_of := m\<rparr>)) s) a b = out_edge s a b"
    "in_edge (set_entry i (Some (e\<lparr>reclaim_of := m\<rparr>)) s) a b = in_edge s a b"
    "in_total (set_entry i (Some (e\<lparr>reclaim_of := m\<rparr>)) s) b = in_total s b"
    "tables_ok s \<Longrightarrow> tables_ok (set_entry i (Some (e\<lparr>reclaim_of := m\<rparr>)) s)"
  using assms entry_bound [OF assms]
  by (auto simp: mode_def kids_def out_edge_def in_edge_def in_total_def tables_ok_def)

lemma upd_kids_views:
  "mode (upd_entry i (\<lambda>e. e\<lparr>owned_children := f e\<rparr>) s) j = mode s j"
  "kids (upd_entry i (\<lambda>e. e\<lparr>owned_children := f e\<rparr>) s) j =
     (if j = i then (case entry_at s i of None \<Rightarrow> [] | Some e \<Rightarrow> f e) else kids s j)"
  "out_edge (upd_entry i (\<lambda>e. e\<lparr>owned_children := f e\<rparr>) s) a b = out_edge s a b"
  "in_edge (upd_entry i (\<lambda>e. e\<lparr>owned_children := f e\<rparr>) s) a b = in_edge s a b"
  "in_total (upd_entry i (\<lambda>e. e\<lparr>owned_children := f e\<rparr>) s) b = in_total s b"
  "tables_ok s \<Longrightarrow> tables_ok (upd_entry i (\<lambda>e. e\<lparr>owned_children := f e\<rparr>) s)"
  by (auto simp: mode_def kids_def out_edge_def in_edge_def in_total_def tables_ok_def
      option.map_comp o_def split: option.splits)

lemma upd_incoming_views:
  "mode (upd_entry i (\<lambda>e. e\<lparr>incoming := f e\<rparr>) s) j = mode s j"
  "kids (upd_entry i (\<lambda>e. e\<lparr>incoming := f e\<rparr>) s) j = kids s j"
  "out_edge (upd_entry i (\<lambda>e. e\<lparr>incoming := f e\<rparr>) s) a b = out_edge s a b"
  "b \<noteq> i \<Longrightarrow> in_edge (upd_entry i (\<lambda>e. e\<lparr>incoming := f e\<rparr>) s) a b = in_edge s a b"
  "b \<noteq> i \<Longrightarrow> in_total (upd_entry i (\<lambda>e. e\<lparr>incoming := f e\<rparr>) s) b = in_total s b"
  "(\<And>e. table_ok (incoming e) \<Longrightarrow> table_ok (f e)) \<Longrightarrow> tables_ok s \<Longrightarrow>
     tables_ok (upd_entry i (\<lambda>e. e\<lparr>incoming := f e\<rparr>) s)"
  by (auto simp: mode_def kids_def out_edge_def in_edge_def in_total_def tables_ok_def
      option.map_comp o_def split: option.splits)

lemma upd_outgoing_views:
  "mode (upd_entry i (\<lambda>e. e\<lparr>outgoing := f e\<rparr>) s) j = mode s j"
  "kids (upd_entry i (\<lambda>e. e\<lparr>outgoing := f e\<rparr>) s) j = kids s j"
  "a \<noteq> i \<Longrightarrow> out_edge (upd_entry i (\<lambda>e. e\<lparr>outgoing := f e\<rparr>) s) a b = out_edge s a b"
  "in_edge (upd_entry i (\<lambda>e. e\<lparr>outgoing := f e\<rparr>) s) a b = in_edge s a b"
  "in_total (upd_entry i (\<lambda>e. e\<lparr>outgoing := f e\<rparr>) s) b = in_total s b"
  "(\<And>e. table_ok (outgoing e) \<Longrightarrow> table_ok (f e)) \<Longrightarrow> tables_ok s \<Longrightarrow>
     tables_ok (upd_entry i (\<lambda>e. e\<lparr>outgoing := f e\<rparr>) s)"
  by (auto simp: mode_def kids_def out_edge_def in_edge_def in_total_def tables_ok_def
      option.map_comp o_def split: option.splits)

subsection \<open>Counts\<close>

lemma incref_views:
  assumes "incref i s = Some s'" "is_live s i"
  shows "mode s' j = (if j = i then (case mode s i of
           Some (Counted rc) \<Rightarrow> Some (Counted (sat_add32 rc 1)) | x \<Rightarrow> x) else mode s j)"
    "kids s' j = kids s j" "out_edge s' a b = out_edge s a b" "in_edge s' a b = in_edge s a b"
    "in_total s' b = in_total s b" "tables_ok s \<Longrightarrow> tables_ok s'"
proof -
  obtain s1 e where s1: "ensure_raw i s = Some s1" "entry_at s1 i = Some e"
    and r: "(case reclaim_of e of
        Counted rc \<Rightarrow> s' = set_entry i (Some (e\<lparr>reclaim_of := Counted (sat_add32 rc 1)\<rparr>)) s1
      | Owned _ \<Rightarrow> s' = s1)"
    using assms(1) by (auto simp: incref_def split: option.splits reclaim.splits)
  note v = ensure_views [OF s1(1)]
  have m: "mode s i = Some (reclaim_of e)"
    using v(1) [of i] s1(2) assms(2) by (simp add: mode_def)
  show "mode s' j = (if j = i then (case mode s i of
           Some (Counted rc) \<Rightarrow> Some (Counted (sat_add32 rc 1)) | x \<Rightarrow> x) else mode s j)"
    "kids s' j = kids s j" "out_edge s' a b = out_edge s a b" "in_edge s' a b = in_edge s a b"
    "in_total s' b = in_total s b" "tables_ok s \<Longrightarrow> tables_ok s'"
    using r m v assms(2) set_mode_views [OF s1(2)] by (cases "reclaim_of e"; simp)+
qed

lemma incref_total: "is_live s i \<Longrightarrow> incref i s \<noteq> None"
proof -
  assume "is_live s i"
  then obtain s1 where s1: "ensure_raw i s = Some s1" using ensure_present by blast
  then show ?thesis using ensure_live [OF s1, of i]
    by (auto simp: incref_def is_live_def split: option.splits reclaim.splits)
qed

lemma note_over_free_views [simp]:
  "mode (note_over_free d s) j = mode s j" "kids (note_over_free d s) j = kids s j"
  "out_edge (note_over_free d s) a b = out_edge s a b" "in_edge (note_over_free d s) a b = in_edge s a b"
  "in_total (note_over_free d s) b = in_total s b" "tables_ok (note_over_free d s) = tables_ok s"
  "entry_at (note_over_free d s) j = entry_at s j"
  using same_view_regions [of "note_over_free d s" s] entry_at_cong [of "note_over_free d s" s]
  by (simp_all add: same_view_def note_over_free_def)

lemma decref_views:
  "mode (snd (decref_reaches_zero i d s)) j =
     (if j = i then (case mode s i of Some (Counted rc) \<Rightarrow> Some (Counted (rc - 1)) | x \<Rightarrow> x)
      else mode s j)"
  "kids (snd (decref_reaches_zero i d s)) j = kids s j"
  "out_edge (snd (decref_reaches_zero i d s)) a b = out_edge s a b"
  "in_edge (snd (decref_reaches_zero i d s)) a b = in_edge s a b"
  "in_total (snd (decref_reaches_zero i d s)) b = in_total s b"
  "tables_ok s \<Longrightarrow> tables_ok (snd (decref_reaches_zero i d s))"
proof -
  let ?s = "note_over_free (d \<and> \<not> is_live s i) s"
  note m = set_mode_views [of ?s i]
  show "mode (snd (decref_reaches_zero i d s)) j =
     (if j = i then (case mode s i of Some (Counted rc) \<Rightarrow> Some (Counted (rc - 1)) | x \<Rightarrow> x)
      else mode s j)"
    by (auto simp: decref_reaches_zero_def Let_def m(1) split: option.splits reclaim.splits)
      (auto simp: mode_def)
  show "kids (snd (decref_reaches_zero i d s)) j = kids s j"
    "out_edge (snd (decref_reaches_zero i d s)) a b = out_edge s a b"
    "in_edge (snd (decref_reaches_zero i d s)) a b = in_edge s a b"
    "in_total (snd (decref_reaches_zero i d s)) b = in_total s b"
    "tables_ok s \<Longrightarrow> tables_ok (snd (decref_reaches_zero i d s))"
    by (auto simp: decref_reaches_zero_def Let_def m split: option.splits reclaim.splits)
qed

lemma decref_zero:
  "fst (decref_reaches_zero i d s) \<longleftrightarrow> (\<exists>rc. mode s i = Some (Counted rc) \<and> rc \<le> 1)"
  by (auto simp: decref_reaches_zero_def Let_def mode_def split: option.splits reclaim.splits)

subsection \<open>Edges\<close>

lemma bump_in_views:
  "in_edge (upd_entry i (\<lambda>e. e\<lparr>incoming := bump (incoming e) k\<rparr>) s) a b =
     in_edge s a b + (if b = i \<and> a = k \<and> is_live s i then 1 else 0)"
  "tables_ok s \<Longrightarrow> in_total (upd_entry i (\<lambda>e. e\<lparr>incoming := bump (incoming e) k\<rparr>) s) b =
     in_total s b + (if b = i \<and> is_live s i then 1 else 0)"
  by (auto simp: in_edge_def in_total_def is_live_def table_simps total_bump
      split: option.splits dest: tables_okD)

lemma bump_out_views:
  "out_edge (upd_entry i (\<lambda>e. e\<lparr>outgoing := bump (outgoing e) k\<rparr>) s) a b =
     out_edge s a b + (if a = i \<and> b = k \<and> is_live s i then 1 else 0)"
  by (auto simp: out_edge_def is_live_def table_simps split: option.splits)

definition recordable :: "nat \<Rightarrow> nat \<Rightarrow> bool" where
  "recordable src dst \<longleftrightarrow> 2 \<le> src \<and> 2 \<le> dst \<and> src \<noteq> dst"

lemma record_eq:
  "record_outgoing src dst s =
     (if recordable src dst \<and> is_live s src
      then upd_entry dst (\<lambda>e. e\<lparr>incoming := bump (incoming e) src\<rparr>)
          (upd_entry src (\<lambda>e. e\<lparr>outgoing := bump (outgoing e) dst\<rparr>) s) else s)"
  by (auto simp: record_outgoing_def recordable_def runtime_region_def)

lemma record_views:
  "mode (record_outgoing src dst s) j = mode s j"
  "kids (record_outgoing src dst s) j = kids s j"
  "out_edge (record_outgoing src dst s) a b =
     out_edge s a b + (if a = src \<and> b = dst \<and> recordable src dst \<and> is_live s src then 1 else 0)"
  "in_edge (record_outgoing src dst s) a b =
     in_edge s a b + (if a = src \<and> b = dst \<and> recordable src dst \<and> is_live s src \<and> is_live s dst then 1 else 0)"
  "tables_ok s \<Longrightarrow> in_total (record_outgoing src dst s) b =
     in_total s b + (if b = dst \<and> recordable src dst \<and> is_live s src \<and> is_live s dst then 1 else 0)"
  "tables_ok s \<Longrightarrow> tables_ok (record_outgoing src dst s)"
  by (auto simp: record_eq upd_incoming_views upd_outgoing_views bump_in_views bump_out_views table_ok_bump)

lemma lower_in_views:
  "in_edge (unmirror_incoming k i n s) a b = in_edge s a b - (if b = i \<and> a = k then n else 0)"
  "tables_ok s \<Longrightarrow> in_total (unmirror_incoming k i n s) b + (if b = i then min n (in_edge s k i) else 0) =
     in_total s b"
  by (auto simp: unmirror_incoming_def in_edge_def in_total_def table_simps
      split: option.splits dest: tables_okD intro!: total_lower)

lemma unmirror_views:
  "mode (unmirror_incoming k i n s) j = mode s j" "kids (unmirror_incoming k i n s) j = kids s j"
  "out_edge (unmirror_incoming k i n s) a b = out_edge s a b"
  "tables_ok s \<Longrightarrow> tables_ok (unmirror_incoming k i n s)"
  by (simp_all add: unmirror_incoming_def upd_incoming_views table_ok_lower)

lemma lower_out_views:
  assumes "entry_at s i = Some e"
  shows "out_edge (set_entry i (Some (e\<lparr>outgoing := lower (outgoing e) k n\<rparr>)) s) a b =
     out_edge s a b - (if a = i \<and> b = k then n else 0)"
    "mode (set_entry i (Some (e\<lparr>outgoing := lower (outgoing e) k n\<rparr>)) s) j = mode s j"
    "kids (set_entry i (Some (e\<lparr>outgoing := lower (outgoing e) k n\<rparr>)) s) j = kids s j"
    "in_edge (set_entry i (Some (e\<lparr>outgoing := lower (outgoing e) k n\<rparr>)) s) a b = in_edge s a b"
    "in_total (set_entry i (Some (e\<lparr>outgoing := lower (outgoing e) k n\<rparr>)) s) b = in_total s b"
    "tables_ok s \<Longrightarrow> tables_ok (set_entry i (Some (e\<lparr>outgoing := lower (outgoing e) k n\<rparr>)) s)"
  using assms entry_bound [OF assms]
  by (auto simp: mode_def kids_def out_edge_def in_edge_def in_total_def tables_ok_def table_simps
      table_ok_lower)

lemma unrecord_eq:
  assumes "tables_ok s" "0 < out_edge s src dst" "recordable src dst"
  shows "\<exists>e. entry_at s src = Some e \<and> unrecord_outgoing src dst s =
    unmirror_incoming src dst 1 (set_entry src (Some (e\<lparr>outgoing := lower (outgoing e) dst 1\<rparr>)) s)"
  using assms by (auto simp: out_edge_def unrecord_outgoing_def recordable_def runtime_region_def cnt_def
      split: option.splits)

lemma unrecord_views:
  assumes "tables_ok s" "0 < out_edge s src dst" "recordable src dst"
  shows "mode (unrecord_outgoing src dst s) j = mode s j"
    "kids (unrecord_outgoing src dst s) j = kids s j"
    "out_edge (unrecord_outgoing src dst s) a b = out_edge s a b - (if a = src \<and> b = dst then 1 else 0)"
    "in_edge (unrecord_outgoing src dst s) a b = in_edge s a b - (if a = src \<and> b = dst then 1 else 0)"
    "in_total (unrecord_outgoing src dst s) b
       + (if b = dst then min 1 (in_edge s src dst) else 0) = in_total s b"
    "tables_ok (unrecord_outgoing src dst s)"
proof -
  obtain e where e: "entry_at s src = Some e" and u: "unrecord_outgoing src dst s =
    unmirror_incoming src dst 1 (set_entry src (Some (e\<lparr>outgoing := lower (outgoing e) dst 1\<rparr>)) s)"
    using unrecord_eq [OF assms] by blast
  note l = lower_out_views [OF e, of dst 1]
  show "mode (unrecord_outgoing src dst s) j = mode s j"
    "kids (unrecord_outgoing src dst s) j = kids s j"
    "out_edge (unrecord_outgoing src dst s) a b = out_edge s a b - (if a = src \<and> b = dst then 1 else 0)"
    "in_edge (unrecord_outgoing src dst s) a b = in_edge s a b - (if a = src \<and> b = dst then 1 else 0)"
    "tables_ok (unrecord_outgoing src dst s)"
    by (simp_all only: u unmirror_views lower_in_views l assms(1)) auto
  show "in_total (unrecord_outgoing src dst s) b
       + (if b = dst then min 1 (in_edge s src dst) else 0) = in_total s b"
    unfolding u using lower_in_views(2) [OF l(6) [OF assms(1)], of src dst 1 b] unfolding l(4,5) .
qed

end
