(* ===== verification/Region_Teardown.thy ===== *)
theory Region_Teardown
  imports Region_Edges
begin

text \<open>
  What tearing a region set down does: the set it collects, the members the rescue takes out of
  it, and the table that remains.
\<close>

section \<open>The collected set\<close>

lemma collect_Nil [simp]: "collect_dying s [] cands dying = (cands, dying)"
  by (simp add: collect_dying.simps)

lemma collect_snoc:
  "collect_dying s (rest @ [(r, ow)]) cands dying =
     (if r \<in> set dying \<or> \<not> is_live s r then collect_dying s rest cands dying
      else collect_dying s (rest @ map (\<lambda>c. (c, Some r)) (kids s r)) (cands @ [(r, ow)]) (r # dying))"
  by (auto simp: collect_dying.simps [of s "rest @ [(r, ow)]"] is_live_def kids_def vpush_def
      split: option.splits dest: entry_bound)

lemma collect_induct [case_names Nil Skip Step]:
  assumes "\<And>cands dying. P [] cands dying"
    and "\<And>rest r ow cands dying. r \<in> set dying \<or> \<not> is_live s r \<Longrightarrow> P rest cands dying \<Longrightarrow>
      P (rest @ [(r, ow)]) cands dying"
    and "\<And>rest r ow cands dying. r \<notin> set dying \<Longrightarrow> is_live s r \<Longrightarrow>
      P (rest @ map (\<lambda>c. (c, Some r)) (kids s r)) (cands @ [(r, ow)]) (r # dying) \<Longrightarrow>
      P (rest @ [(r, ow)]) cands dying"
  shows "P stk cands dying"
  using assms
proof (induction s stk cands dying rule: collect_dying.induct)
  case (1 s stk cands dying)
  show ?case
  proof (cases stk rule: rev_cases)
    case (snoc rest p)
    obtain r ow where p: "p = (r, ow)" by (cases p)
    have v: "vpop stk = Some (p, rest)" and p': "(r, ow) = p" using snoc p by simp_all
    have skip: "P rest cands dying" if "length (regions s) \<le> r \<or> r \<in> set dying"
      by (rule "1.IH"(1) [OF v refl p' that]) (fact "1.prems")+
    have gone: "P rest cands dying" if "\<not> (length (regions s) \<le> r \<or> r \<in> set dying)" "entry_at s r = None"
      by (rule "1.IH"(2) [OF v refl p' that]) (fact "1.prems")+
    have step: "P (rest @ map (\<lambda>c. (c, Some r)) (kids s r)) (cands @ [(r, ow)]) (r # dying)"
      if "\<not> (length (regions s) \<le> r \<or> r \<in> set dying)" "entry_at s r = Some e" for e
    proof -
      have "P (rest @ map (\<lambda>c. (c, Some r)) (owned_children e)) (vpush cands (r, ow)) (r # dying)"
        by (rule "1.IH"(3) [OF v refl p' that]) (fact "1.prems")+
      then show ?thesis using that(2) by (simp add: kids_def vpush_def)
    qed
    have live: "is_live s r \<longleftrightarrow> \<not> length (regions s) \<le> r \<and> entry_at s r \<noteq> None"
      by (auto simp: is_live_def entry_at_def)
    show ?thesis
    proof (cases "r \<in> set dying \<or> \<not> is_live s r")
      case True
      then have "P rest cands dying" using skip gone live by blast
      then show ?thesis using "1.prems"(2) [OF True] snoc p by simp
    next
      case False
      then show ?thesis using "1.prems"(3) step live snoc p by blast
    qed
  qed (simp add: "1.prems")
qed

definition listed :: "region_store \<Rightarrow> nat list \<Rightarrow> nat list \<Rightarrow> candidate \<Rightarrow> bool" where
  "listed s roots dying c =
     (case c of (r, None) \<Rightarrow> r \<in> set roots
      | (r, Some p) \<Rightarrow> r \<in> set (kids s p) \<and> p \<in> set dying)"

definition collecting ::
  "region_store \<Rightarrow> nat list \<Rightarrow> candidate list \<Rightarrow> candidate list \<Rightarrow> nat list \<Rightarrow> bool" where
  "collecting s roots stk cands dying \<longleftrightarrow>
     fst ` set cands = set dying \<and> distinct (map fst cands) \<and> (\<forall>x \<in> set dying. is_live s x)
     \<and> (\<forall>x \<in> set dying. \<forall>c \<in> set (kids s x). is_live s c \<longrightarrow> c \<in> set dying \<or> c \<in> fst ` set stk)
     \<and> (\<forall>x \<in> set roots. is_live s x \<longrightarrow> x \<in> set dying \<or> x \<in> fst ` set stk)
     \<and> (\<forall>c \<in> set cands \<union> set stk. listed s roots dying c)"

lemma listed_mono: "listed s roots dying c \<Longrightarrow> set dying \<subseteq> set d \<Longrightarrow> listed s roots d c"
  by (auto simp: listed_def split: option.splits prod.splits)

lemma collectingI:
  assumes "fst ` set cands = set dying" "distinct (map fst cands)" "\<And>x. x \<in> set dying \<Longrightarrow> is_live s x"
    "\<And>x c. x \<in> set dying \<Longrightarrow> c \<in> set (kids s x) \<Longrightarrow> is_live s c \<Longrightarrow> c \<in> set dying \<or> c \<in> fst ` set stk"
    "\<And>x. x \<in> set roots \<Longrightarrow> is_live s x \<Longrightarrow> x \<in> set dying \<or> x \<in> fst ` set stk"
    "\<And>c. c \<in> set cands \<or> c \<in> set stk \<Longrightarrow> listed s roots dying c"
  shows "collecting s roots stk cands dying"
  using assms unfolding collecting_def by simp

lemma collectingD:
  assumes "collecting s roots stk cands dying"
  shows "fst ` set cands = set dying" "distinct (map fst cands)" "x \<in> set dying \<Longrightarrow> is_live s x"
    "x \<in> set dying \<Longrightarrow> c \<in> set (kids s x) \<Longrightarrow> is_live s c \<Longrightarrow> c \<in> set dying \<or> c \<in> fst ` set stk"
    "x \<in> set roots \<Longrightarrow> is_live s x \<Longrightarrow> x \<in> set dying \<or> x \<in> fst ` set stk"
    "p \<in> set cands \<or> p \<in> set stk \<Longrightarrow> listed s roots dying p"
  using assms unfolding collecting_def by simp_all

lemma collecting_skip:
  assumes c: "collecting s roots (rest @ [(r, ow)]) cands dying" and r: "r \<in> set dying \<or> \<not> is_live s r"
  shows "collecting s roots rest cands dying"
proof (rule collectingI)
  show "c \<in> set dying \<or> c \<in> fst ` set rest"
    if "x \<in> set dying" "c \<in> set (kids s x)" "is_live s c" for x c
    using collectingD(4) [OF c that] r that(3) by auto
  show "x \<in> set dying \<or> x \<in> fst ` set rest" if "x \<in> set roots" "is_live s x" for x
    using collectingD(5) [OF c that] r that(2) by auto
qed (use collectingD [OF c] in auto)

lemma collecting_step:
  assumes c: "collecting s roots (rest @ [(r, ow)]) cands dying" and r: "r \<notin> set dying" "is_live s r"
  shows "collecting s roots (rest @ map (\<lambda>c. (c, Some r)) (kids s r)) (cands @ [(r, ow)]) (r # dying)"
proof (rule collectingI)
  have fs: "fst ` set (rest @ map (\<lambda>c. (c, Some r)) (kids s r)) = fst ` set rest \<union> set (kids s r)"
    by (simp add: image_Un image_image)
  show "x \<in> set (r # dying) \<or> x \<in> fst ` set (rest @ map (\<lambda>c. (c, Some r)) (kids s r))"
    if "x \<in> set roots" "is_live s x" for x
    using collectingD(5) [OF c that] unfolding fs by auto
  show "d \<in> set (r # dying) \<or> d \<in> fst ` set (rest @ map (\<lambda>c. (c, Some r)) (kids s r))"
    if "x \<in> set (r # dying)" "d \<in> set (kids s x)" "is_live s d" for x d
    using collectingD(4) [OF c _ that(2,3)] that(1,2) unfolding fs by (cases "x = r") auto
  show "listed s roots (r # dying) d"
    if d: "d \<in> set (cands @ [(r, ow)]) \<or> d \<in> set (rest @ map (\<lambda>c. (c, Some r)) (kids s r))" for d
  proof (cases "d \<in> (\<lambda>c. (c, Some r)) ` set (kids s r)")
    case False
    then have "listed s roots dying d" using d by (intro collectingD(6) [OF c]) auto
    then show ?thesis by (rule listed_mono) auto
  qed (auto simp: listed_def)
qed (use collectingD(1-3) [OF c] r in auto)

lemma collecting_result:
  "collect_dying s stk cands dying = (cands', dying') \<Longrightarrow> collecting s roots stk cands dying \<Longrightarrow>
     collecting s roots [] cands' dying'"
proof (induction stk cands dying rule: collect_induct [where s = s])
  case (Skip rest r ow cands dying)
  then show ?case using collecting_skip [of s roots rest r ow cands dying] by (simp add: collect_snoc)
next
  case (Step rest r ow cands dying)
  then show ?case using collecting_step [of s roots rest r ow cands dying] by (simp add: collect_snoc)
qed simp

lemma collected:
  assumes "collect_dying s (map (\<lambda>r. (r, None)) roots) [] [] = (cands, dying)"
  shows "collecting s roots [] cands dying"
  by (rule collecting_result [OF assms]) (auto simp: collecting_def listed_def image_image)

section \<open>The pruned set\<close>

lemma prune_induct [case_names Nil Skip Out Step]:
  assumes "\<And>dying. P [] dying"
    and "\<And>rest m dying. m \<notin> set dying \<Longrightarrow> P rest dying \<Longrightarrow> P (rest @ [m]) dying"
    and "\<And>rest m dying. m \<in> set dying \<Longrightarrow> length (regions s) \<le> m \<Longrightarrow> P (rest @ [m]) dying"
    and "\<And>rest m dying. m \<in> set dying \<Longrightarrow> m < length (regions s) \<Longrightarrow>
      P (rest @ kids s m) (removeAll m dying) \<Longrightarrow> P (rest @ [m]) dying"
  shows "P stk dying"
  using assms
proof (induction s stk dying rule: prune_subtree.induct)
  case (1 s stk dying)
  show ?case
  proof (cases stk rule: rev_cases)
    case (snoc rest m)
    have "P rest dying" if "m \<notin> set dying"
      using "1.IH"(1) [of "(m, rest)" m rest] snoc that "1.prems" by simp
    moreover have "P (rest @ kids s m) (removeAll m dying)" if "m \<in> set dying" "\<not> length (regions s) \<le> m"
      using "1.IH"(2) [of "(m, rest)" m rest] snoc that "1.prems" by simp
    ultimately show ?thesis using "1.prems" snoc by (meson not_le)
  qed (simp add: "1.prems")
qed

text \<open>What a prune removes: ids of the stack, or children of what it removed.\<close>

lemma prune_result:
  "prune_subtree s stk dying = Some d \<Longrightarrow>
     set d \<subseteq> set dying \<and> set stk \<inter> set d = {}
     \<and> (\<forall>x \<in> set dying - set d. set (kids s x) \<inter> set d = {})
     \<and> (\<forall>x \<in> set dying - set d. x \<in> set stk \<or> (\<exists>p \<in> set dying - set d. x \<in> set (kids s p)))"
proof (induction stk dying rule: prune_induct [where s = s])
  case (Skip rest m dying)
  then show ?case by (auto simp: prune_snoc)
next
  case (Step rest m dying)
  then have ih: "set d \<subseteq> set (removeAll m dying) \<and> set (rest @ kids s m) \<inter> set d = {}
     \<and> (\<forall>x \<in> set (removeAll m dying) - set d. set (kids s x) \<inter> set d = {})
     \<and> (\<forall>x \<in> set (removeAll m dying) - set d. x \<in> set (rest @ kids s m)
          \<or> (\<exists>p \<in> set (removeAll m dying) - set d. x \<in> set (kids s p)))"
    by (simp add: prune_snoc)
  then have m: "m \<in> set dying - set d" using Step.hyps by auto
  show ?case
  proof (intro conjI)
    show "\<forall>x \<in> set dying - set d. set (kids s x) \<inter> set d = {}" using ih by auto
    show "\<forall>x \<in> set dying - set d. x \<in> set (rest @ [m]) \<or> (\<exists>p \<in> set dying - set d. x \<in> set (kids s p))"
    proof
      fix x assume x: "x \<in> set dying - set d"
      show "x \<in> set (rest @ [m]) \<or> (\<exists>p \<in> set dying - set d. x \<in> set (kids s p))"
        using ih x m by (cases "x = m") (simp, fastforce)
    qed
  qed (use ih in auto)
qed (auto simp: prune_snoc)

lemma pruneD:
  assumes "prune_subtree s [r] dying = Some d"
  shows "set d \<subseteq> set dying" "r \<notin> set d"
    "x \<in> set dying \<Longrightarrow> x \<notin> set d \<Longrightarrow> c \<in> set (kids s x) \<Longrightarrow> c \<notin> set d"
    "x \<in> set dying \<Longrightarrow> x \<notin> set d \<Longrightarrow> x \<noteq> r \<Longrightarrow> \<exists>p. p \<in> set dying \<and> p \<notin> set d \<and> x \<in> set (kids s p)"
proof -
  note r = prune_result [OF assms]
  show "set d \<subseteq> set dying" "r \<notin> set d" using r by simp_all
  show "c \<notin> set d" if "x \<in> set dying" "x \<notin> set d" "c \<in> set (kids s x)"
  proof -
    have "set (kids s x) \<inter> set d = {}" using r that(1,2) by blast
    then show ?thesis using that(3) by blast
  qed
  show "\<exists>p. p \<in> set dying \<and> p \<notin> set d \<and> x \<in> set (kids s p)" if "x \<in> set dying" "x \<notin> set d" "x \<noteq> r"
  proof -
    have "x \<in> set [r] \<or> (\<exists>p \<in> set dying - set d. x \<in> set (kids s p))" using r that(1,2) by blast
    then show ?thesis using that(3) by auto
  qed
qed

lemma prune_total: "set dying \<subseteq> {..<length (regions s)} \<Longrightarrow> prune_subtree s stk dying \<noteq> None"
  by (induction stk dying rule: prune_induct [where s = s]) (auto simp: prune_snoc)

section \<open>The rescue fixpoint\<close>

definition rescuing ::
  "region_store \<Rightarrow> candidate list \<Rightarrow> nat set \<Rightarrow> nat list \<Rightarrow> (nat \<times> nat) list \<Rightarrow> bool" where
  "rescuing s cands D d rs \<longleftrightarrow>
     (\<forall>x. x \<in> set d \<longrightarrow> x \<in> D)
     \<and> (\<forall>x c. x \<in> D \<longrightarrow> x \<notin> set d \<longrightarrow> c \<in> set (kids s x) \<longrightarrow> c \<notin> set d)
     \<and> (\<forall>x. x \<in> D \<longrightarrow> x \<notin> set d \<longrightarrow> x \<notin> fst ` set rs \<longrightarrow>
          (\<exists>p. p \<in> D \<and> p \<notin> set d \<and> x \<in> set (kids s p)))
     \<and> (\<forall>r ow. (r, ow) \<in> set rs \<longrightarrow> r \<in> D \<and> r \<notin> set d \<and> (r, Some ow) \<in> set cands)"

lemma rescuingI:
  assumes "\<And>x. x \<in> set d \<Longrightarrow> x \<in> D" "\<And>x c. x \<in> D \<Longrightarrow> x \<notin> set d \<Longrightarrow> c \<in> set (kids s x) \<Longrightarrow> c \<notin> set d"
    "\<And>x. x \<in> D \<Longrightarrow> x \<notin> set d \<Longrightarrow> x \<notin> fst ` set rs \<Longrightarrow> \<exists>p. p \<in> D \<and> p \<notin> set d \<and> x \<in> set (kids s p)"
    "\<And>r ow. (r, ow) \<in> set rs \<Longrightarrow> r \<in> D \<and> r \<notin> set d \<and> (r, Some ow) \<in> set cands"
  shows "rescuing s cands D d rs"
  using assms unfolding rescuing_def by iprover

lemma rescuingD:
  assumes "rescuing s cands D d rs"
  shows "x \<in> set d \<Longrightarrow> x \<in> D" "x \<in> D \<Longrightarrow> x \<notin> set d \<Longrightarrow> c \<in> set (kids s x) \<Longrightarrow> c \<notin> set d"
    "x \<in> D \<Longrightarrow> x \<notin> set d \<Longrightarrow> x \<notin> fst ` set rs \<Longrightarrow> \<exists>p. p \<in> D \<and> p \<notin> set d \<and> x \<in> set (kids s p)"
    "(r, ow) \<in> set rs \<Longrightarrow> r \<in> D \<and> r \<notin> set d \<and> (r, Some ow) \<in> set cands"
proof -
  note d = assms [unfolded rescuing_def]
  show "x \<in> set d \<Longrightarrow> x \<in> D" using d [THEN conjunct1] by iprover
  show "x \<in> D \<Longrightarrow> x \<notin> set d \<Longrightarrow> c \<in> set (kids s x) \<Longrightarrow> c \<notin> set d"
    using d [THEN conjunct2, THEN conjunct1] by iprover
  show "x \<in> D \<Longrightarrow> x \<notin> set d \<Longrightarrow> x \<notin> fst ` set rs \<Longrightarrow> \<exists>p. p \<in> D \<and> p \<notin> set d \<and> x \<in> set (kids s p)"
    using d [THEN conjunct2, THEN conjunct2, THEN conjunct1] by iprover
  show "(r, ow) \<in> set rs \<Longrightarrow> r \<in> D \<and> r \<notin> set d \<and> (r, Some ow) \<in> set cands"
    using d [THEN conjunct2, THEN conjunct2, THEN conjunct2] by iprover
qed

lemma rescuing_prune:
  assumes i: "rescuing s cands D d rs" and p: "prune_subtree s [r] d = Some d'"
    and r: "r \<in> set d" "(r, Some ow) \<in> set cands"
  shows "rescuing s cands D d' (vpush rs (r, ow))"
proof -
  have sub: "set d' \<subseteq> set d" and gone: "r \<notin> set d'"
    and cl: "\<And>x c. x \<in> set d \<Longrightarrow> x \<notin> set d' \<Longrightarrow> c \<in> set (kids s x) \<Longrightarrow> c \<notin> set d'"
    and cov: "\<And>x. x \<in> set d \<Longrightarrow> x \<notin> set d' \<Longrightarrow> x \<noteq> r \<Longrightarrow> \<exists>p. p \<in> set d \<and> p \<notin> set d' \<and> x \<in> set (kids s p)"
    using pruneD [OF p] by simp_all
  show ?thesis
  proof (rule rescuingI)
    show "x \<in> D" if "x \<in> set d'" for x using that sub rescuingD(1) [OF i] by auto
    show "c \<notin> set d'" if "x \<in> D" "x \<notin> set d'" "c \<in> set (kids s x)" for x c
      using cl [of x c] rescuingD(2) [OF i that(1) _ that(3)] sub that by (cases "x \<in> set d") auto
    show "\<exists>p. p \<in> D \<and> p \<notin> set d' \<and> x \<in> set (kids s p)"
      if "x \<in> D" "x \<notin> set d'" "x \<notin> fst ` set (vpush rs (r, ow))" for x
    proof (cases "x \<in> set d")
      case True
      then show ?thesis using cov [of x] that rescuingD(1) [OF i] by (auto simp: vpush_def)
    next
      case False
      then show ?thesis using rescuingD(3) [OF i that(1)] that(3) sub by (auto simp: vpush_def)
    qed
    show "x \<in> D \<and> x \<notin> set d' \<and> (x, Some o') \<in> set cands" if "(x, o') \<in> set (vpush rs (r, ow))" for x o'
      using that rescuingD(4) [OF i, of x o'] rescuingD(1) [OF i r(1)] r gone sub by (auto simp: vpush_def)
  qed
qed

definition ext_ref :: "region_store \<Rightarrow> nat list \<Rightarrow> nat \<Rightarrow> bool" where
  "ext_ref s d r = (case entry_at s r of None \<Rightarrow> False | Some e \<Rightarrow> externally_referenced s d e)"

lemma rescue_pass_child:
  "rescue_pass s ((r, Some ow) # cs) d rs ch =
     (if r \<in> set d \<and> length (regions s) \<le> r then None
      else if r \<in> set d \<and> ext_ref s d r
      then (case prune_subtree s [r] d of
              None \<Rightarrow> None | Some d' \<Rightarrow> rescue_pass s cs d' (vpush rs (r, ow)) True)
      else rescue_pass s cs d rs ch)"
  by (simp add: ext_ref_def externally_referenced_def split: option.split)

lemma rescue_pass_keeps:
  "rescue_pass s cs d rs ch = Some (d', rs', ch') \<Longrightarrow> set cs \<subseteq> set cands \<Longrightarrow>
     rescuing s cands D d rs \<Longrightarrow> rescuing s cands D d' rs'"
proof (induction cs arbitrary: d rs ch)
  case (Cons c cs)
  obtain r ow where c: "c = (r, ow)" by (cases c)
  show ?case
  proof (cases ow)
    case None
    then show ?thesis using Cons.IH [of d rs ch] Cons.prems c by simp
  next
    case (Some p)
    note step = Cons.prems(1) [unfolded c Some rescue_pass_child]
    show ?thesis
    proof (cases "r \<in> set d \<and> ext_ref s d r")
      case True
      then obtain d1 where d1: "prune_subtree s [r] d = Some d1"
        and r1: "rescue_pass s cs d1 (vpush rs (r, p)) True = Some (d', rs', ch')"
        using step by (simp split: if_splits option.splits)
      have "rescuing s cands D d1 (vpush rs (r, p))"
        using rescuing_prune [OF Cons.prems(3) d1] True Cons.prems(2) c Some by simp
      with Cons.IH [OF r1] Cons.prems(2) show ?thesis by simp
    next
      case False
      then have "rescue_pass s cs d rs ch = Some (d', rs', ch')" using step by (simp split: if_splits)
      then show ?thesis using Cons.IH Cons.prems(2,3) by simp
    qed
  qed
qed simp

lemma rescue_pass_changed: "rescue_pass s cs d rs True = Some (d', rs', ch') \<Longrightarrow> ch'"
proof (induction cs arbitrary: d rs)
  case (Cons c cs)
  obtain r ow where c: "c = (r, ow)" by (cases c)
  show ?case
  proof (cases ow)
    case (Some p)
    show ?thesis using Cons.prems Cons.IH unfolding c Some rescue_pass_child
      by (simp split: if_splits option.splits)
  qed (use Cons c in simp)
qed simp

lemma rescue_pass_idle:
  "rescue_pass s cs d rs ch = Some (d', rs', False) \<Longrightarrow>
     d' = d \<and> rs' = rs \<and> (\<forall>r ow. (r, Some ow) \<in> set cs \<longrightarrow> r \<in> set d \<longrightarrow> \<not> ext_ref s d r)"
proof (induction cs arbitrary: d rs ch)
  case (Cons c cs)
  obtain r ow where c: "c = (r, ow)" by (cases c)
  show ?case
  proof (cases ow)
    case None
    then show ?thesis using Cons.IH [of d rs ch] Cons.prems c by simp
  next
    case (Some p)
    note step = Cons.prems(1) [unfolded c Some rescue_pass_child]
    have not_ref: "\<not> (r \<in> set d \<and> ext_ref s d r)"
    proof
      assume t: "r \<in> set d \<and> ext_ref s d r"
      then obtain d1 where "rescue_pass s cs d1 (vpush rs (r, p)) True = Some (d', rs', False)"
        using step by (simp split: if_splits option.splits)
      then show False by (rule rescue_pass_changed [THEN FalseE])
    qed
    then have "rescue_pass s cs d rs ch = Some (d', rs', False)" using step by (simp split: if_splits)
    then show ?thesis using Cons.IH not_ref c Some by auto
  qed
qed simp

lemma rescue_pass_total:
  "set d \<subseteq> {..<length (regions s)} \<Longrightarrow> rescue_pass s cs d rs ch \<noteq> None"
proof (induction cs arbitrary: d rs ch)
  case (Cons c cs)
  obtain r ow where c: "c = (r, ow)" by (cases c)
  show ?case
  proof (cases ow)
    case (Some p)
    obtain d1 where d1: "prune_subtree s [r] d = Some d1" using prune_total [OF Cons.prems] by blast
    have "set d1 \<subseteq> {..<length (regions s)}" using prune_result [OF d1] Cons.prems by auto
    then show ?thesis using Cons.IH Cons.prems d1 unfolding c Some rescue_pass_child by auto
  qed (use Cons c in simp)
qed simp

lemma rescue_pass_subset: "rescue_pass s cs d rs ch = Some (d', rs', ch') \<Longrightarrow> set d' \<subseteq> set d"
proof (induction cs arbitrary: d rs ch)
  case (Cons c cs)
  obtain r ow where c: "c = (r, ow)" by (cases c)
  show ?case
  proof (cases ow)
    case (Some p)
    show ?thesis using Cons.prems Cons.IH prune_result [of s "[r]" d] unfolding c Some rescue_pass_child
      by (fastforce split: if_splits option.splits)
  qed (use Cons c in simp)
qed simp

lemma rescue_loop_result:
  "rescue_loop s cands d rs = Some (d', rs') \<Longrightarrow> rescuing s cands D d rs \<Longrightarrow>
     rescuing s cands D d' rs' \<and> (\<forall>r ow. (r, Some ow) \<in> set cands \<longrightarrow> r \<in> set d' \<longrightarrow> \<not> ext_ref s d' r)"
proof (induction s cands d rs rule: rescue_loop.induct)
  case (1 s cands d rs)
  obtain d1 rs1 ch where p: "rescue_pass s cands d rs False = Some (d1, rs1, ch)"
    using "1.prems"(1) by (auto simp: rescue_loop.simps [of s cands d rs] split: option.splits)
  have k: "rescuing s cands D d1 rs1" by (rule rescue_pass_keeps [OF p subset_refl "1.prems"(2)])
  show ?case
  proof (cases ch)
    case True
    then have "rescue_loop s cands d1 rs1 = Some (d', rs')"
      using "1.prems"(1) p by (simp add: rescue_loop.simps [of s cands d rs])
    then show ?thesis using "1.IH" [OF p refl refl True _ k] by blast
  next
    case False
    then have "d' = d1" "rs' = rs1" using "1.prems"(1) p by (simp_all add: rescue_loop.simps [of s cands d rs])
    moreover have "rescue_pass s cands d rs False = Some (d1, rs1, False)" using p False by simp
    ultimately show ?thesis using rescue_pass_idle [of s cands d rs False d1 rs1] k by simp
  qed
qed

lemma rescue_loop_total:
  "set d \<subseteq> {..<length (regions s)} \<Longrightarrow> rescue_loop s cands d rs \<noteq> None"
proof (induction s cands d rs rule: rescue_loop.induct)
  case (1 s cands d rs)
  obtain d1 rs1 ch where p: "rescue_pass s cands d rs False = Some (d1, rs1, ch)"
    using rescue_pass_total [OF "1.prems"] by fastforce
  show ?case
  proof (cases ch)
    case True
    have "set d1 \<subseteq> {..<length (regions s)}" using rescue_pass_subset [OF p] "1.prems" by auto
    then show ?thesis using "1.IH" [OF p refl refl True] p True by (simp add: rescue_loop.simps [of s cands d rs])
  qed (simp add: rescue_loop.simps [of s cands d rs] p)
qed

section \<open>The table after the rescue\<close>

lemma unlink_child_views:
  "mode (unlink_child ow r s) j = mode s j"
  "kids (unlink_child ow r s) p = (if p = ow then filter (\<lambda>c. c \<noteq> r) (kids s p) else kids s p)"
  "out_edge (unlink_child ow r s) a b = out_edge s a b" "in_edge (unlink_child ow r s) a b = in_edge s a b"
  "in_total (unlink_child ow r s) b = in_total s b" "tables_ok s \<Longrightarrow> tables_ok (unlink_child ow r s)"
  by (simp_all add: unlink_child_def upd_kids_views) (simp add: kids_def split: option.split)

lemma unlink_views:
  "mode (unlink_rescued rs s) j = mode s j"
  "kids (unlink_rescued rs s) p = filter (\<lambda>c. (c, p) \<notin> set rs) (kids s p)"
  "out_edge (unlink_rescued rs s) a b = out_edge s a b" "in_edge (unlink_rescued rs s) a b = in_edge s a b"
  "in_total (unlink_rescued rs s) b = in_total s b" "tables_ok s \<Longrightarrow> tables_ok (unlink_rescued rs s)"
proof (induction rs s rule: unlink_rescued.induct)
  case (2 r ow rs s)
  case 2 show ?case using "2.IH"(2) by (auto simp: unlink_child_views intro: filter_cong)
qed (simp_all add: unlink_child_views)

lemma unlink_child_counters:
  "unlink_child ow r (s\<lparr>counters := c\<rparr>) = (unlink_child ow r s)\<lparr>counters := c\<rparr>"
  by (simp add: unlink_child_def upd_entry_def set_entry_def entry_at_def split: option.split)

lemma unlink_counters: "regions (unlink_rescued rs (s\<lparr>counters := c\<rparr>)) = regions (unlink_rescued rs s)"
proof -
  have "unlink_rescued rs (s\<lparr>counters := c\<rparr>) = (unlink_rescued rs s)\<lparr>counters := c\<rparr>"
    by (induction rs s rule: unlink_rescued.induct) (simp_all add: unlink_child_counters)
  then show ?thesis by simp
qed

text \<open>The references into a region from outside its own subtree.\<close>

definition ext_total :: "region_store \<Rightarrow> nat \<Rightarrow> nat" where
  "ext_total s r =
     (case entry_at s r of None \<Rightarrow> 0 | Some e \<Rightarrow> total_where (\<lambda>k. k \<notin> desc s r) (incoming e))"

lemma desc_cong: "(\<And>p. kids s p = kids s' p) \<Longrightarrow> desc s r = desc s' r"
  by (simp add: desc_def owns_rel_def)

lemma ext_total_full:
  assumes "tables_ok s" "\<And>k. k \<in> desc s r \<Longrightarrow> in_edge s k r = 0"
  shows "ext_total s r = in_total s r"
proof (cases "entry_at s r")
  case (Some e)
  have "k \<notin> desc s r" if "k \<in> fst ` set (incoming e)" for k
    using that assms(2) [of k] table_key [of "incoming e" k] tables_okD [OF assms(1) Some] Some
    by (auto simp: in_edge_def)
  then show ?thesis using Some by (simp add: ext_total_def in_total_def total_where_all)
qed (simp add: ext_total_def in_total_def)

lemma rebuild_step:
  assumes e: "entry_at s r = Some e" and w: "subtree_walk s [r] [] = Some sub"
  shows "external_count sub e = ext_total s r"
  using e subtree_walk_desc [OF w] by (simp add: external_count_def ext_total_def)

lemma ext_total_mode:
  "entry_at s i = Some e \<Longrightarrow> ext_total (set_entry i (Some (e\<lparr>reclaim_of := m\<rparr>)) s) r = ext_total s r"
  using desc_cong [of "set_entry i (Some (e\<lparr>reclaim_of := m\<rparr>)) s" s r] set_mode_views(2) [of s i e m]
  by (simp add: ext_total_def split: option.split) (auto dest: entry_bound)

lemma rebuild_views:
  "rebuild_counts rs s = Some s' \<Longrightarrow>
     (\<forall>j. mode s' j = (if j \<in> fst ` set rs then Some (Counted (ext_total s j)) else mode s j))
     \<and> (\<forall>p. kids s' p = kids s p) \<and> (\<forall>a b. out_edge s' a b = out_edge s a b)
     \<and> (\<forall>a b. in_edge s' a b = in_edge s a b) \<and> (\<forall>b. in_total s' b = in_total s b)
     \<and> (tables_ok s \<longrightarrow> tables_ok s')"
proof (induction rs s rule: rebuild_counts.induct)
  case (2 r ow rs s)
  obtain sub e where w: "subtree_walk s [r] [] = Some sub" and e: "entry_at s r = Some e"
    and n: "rebuild_counts rs (set_entry r (Some (e\<lparr>reclaim_of := Counted (external_count sub e)\<rparr>)) s) = Some s'"
    using "2.prems" by (auto split: option.splits)
  note v = set_mode_views [OF e] ext_total_mode [OF e] rebuild_step [OF e w]
  show ?case using "2.IH" [OF w e n] by (auto simp: v)
qed simp

lemma rebuild_total:
  assumes "\<And>x c. c \<in> set (kids s x) \<Longrightarrow> is_live s c" "\<And>r. r \<in> fst ` set rs \<Longrightarrow> is_live s r"
  shows "rebuild_counts rs s \<noteq> None"
  using assms
proof (induction rs s rule: rebuild_counts.induct)
  case (2 r ow rs s)
  obtain e where e: "entry_at s r = Some e" using "2.prems"(2) [of r] by (auto simp: is_live_def)
  have range: "is_live s x \<Longrightarrow> x < length (regions s)" for x by (auto simp: is_live_def dest: entry_bound)
  obtain sub where w: "subtree_walk s [r] [] = Some sub"
    using walk_total [of s "[r]" "[]"] "2.prems"(1) range entry_bound [OF e] by fastforce
  have "rebuild_counts rs (set_entry r (Some (e\<lparr>reclaim_of := Counted (external_count sub e)\<rparr>)) s) \<noteq> None"
    by (rule "2.IH" [OF w e]) (use "2.prems" e in \<open>auto simp: set_mode_views(2) set_entry_Some_live\<close>)
  then show ?case using w e by simp
qed simp

section \<open>Retiring the edges of the dead\<close>

definition amount :: "(nat \<times> nat \<times> nat) list \<Rightarrow> nat \<Rightarrow> nat \<Rightarrow> nat" where
  "amount es a b = sum_list (map (\<lambda>(r, t, n). if r = a \<and> t = b then n else 0) es)"

definition amount_into :: "(nat \<times> nat \<times> nat) list \<Rightarrow> nat \<Rightarrow> nat" where
  "amount_into es b = sum_list (map (\<lambda>(r, t, n). if t = b then n else 0) es)"

lemma amount_simps [simp]:
  "amount [] a b = 0" "amount ((r, t, n) # es) a b = (if r = a \<and> t = b then n else 0) + amount es a b"
  "amount (xs @ ys) a b = amount xs a b + amount ys a b"
  "amount_into [] b = 0" "amount_into ((r, t, n) # es) b = (if t = b then n else 0) + amount_into es b"
  by (simp_all add: amount_def amount_into_def)

lemma retire_views:
  "mode (retire_all es s) j = mode s j" "kids (retire_all es s) p = kids s p"
  "out_edge (retire_all es s) a b = out_edge s a b"
  "in_edge (retire_all es s) a b = in_edge s a b - amount es a b"
  "tables_ok s \<Longrightarrow> tables_ok (retire_all es s)"
  by (induction es s rule: retire_all.induct)
    (auto simp: unmirror_views lower_in_views)

lemma retire_total:
  "tables_ok s \<Longrightarrow> (\<And>a. amount es a b \<le> in_edge s a b) \<Longrightarrow>
     in_total (retire_all es s) b + amount_into es b = in_total s b"
proof (induction es s rule: retire_all.induct)
  case (2 src dst n es s)
  let ?s = "unmirror_incoming src dst n s"
  have le: "amount es a b \<le> in_edge ?s a b" for a
    using "2.prems"(2) [of a] by (auto simp: lower_in_views)
  have "in_total (retire_all es ?s) b + amount_into es b = in_total ?s b"
    by (rule "2.IH" [OF _ le]) (simp add: unmirror_views "2.prems"(1))
  moreover have "in_total ?s b + (if b = dst then n else 0) = in_total s b"
    using lower_in_views(2) [OF "2.prems"(1), of src dst n b] "2.prems"(2) [of src]
    by (auto simp: min_def split: if_splits)
  ultimately show ?case by (cases "dst = b") auto
qed simp

lemma count_list_replicate: "count_list (replicate n x) y = (if x = y then n else 0)"
  by (induction n) auto

lemma count_frontier:
  "count_list (concat (map (\<lambda>(r, t, n). replicate n t) es)) b = amount_into es b"
proof (induction es)
  case (Cons e es)
  then show ?case by (cases e) (simp add: count_list_replicate)
qed simp

lemma amount_one:
  "table_ok m \<Longrightarrow> amount (map (Pair r) (filter (\<lambda>(t, n). P t) m)) a b =
     (if r = a \<and> P b then cnt m b else 0)"
proof (induction m)
  case (Cons p m)
  obtain t n where p: "p = (t, n)" by (cases p)
  have "cnt m t = 0" using Cons.prems p by (simp add: table_ok_Cons cnt_notin)
  then show ?case using Cons p by (auto simp: table_ok_Cons table_simps)
qed (simp add: table_simps)

lemma amount_retired:
  assumes "\<And>r e. (r, e) \<in> set ms \<Longrightarrow> table_ok (outgoing e)" "distinct (map fst ms)"
  shows "amount (retired_edges s ms) a b =
     (case map_of ms a of None \<Rightarrow> 0 | Some e \<Rightarrow> if is_live s b then cnt (outgoing e) b else 0)"
  using assms
proof (induction ms)
  case (Cons p ms)
  obtain r e where p: "p = (r, e)" by (cases p)
  have ok: "table_ok (outgoing e)" using Cons.prems(1) [of r e] p by simp
  have "retired_edges s (p # ms) =
      map (Pair r) (filter (\<lambda>(t, n). is_live s t) (outgoing e)) @ retired_edges s ms"
    by (simp add: retired_edges_def p)
  then have "amount (retired_edges s (p # ms)) a b =
      (if r = a \<and> is_live s b then cnt (outgoing e) b else 0) + amount (retired_edges s ms) a b"
    by (simp add: amount_one [OF ok])
  moreover have "amount (retired_edges s ms) a b =
      (case map_of ms a of None \<Rightarrow> 0 | Some e \<Rightarrow> if is_live s b then cnt (outgoing e) b else 0)"
    by (rule Cons.IH) (use Cons.prems in auto)
  moreover have "map_of ms r = None" using Cons.prems(2) p by (simp add: map_of_eq_None_iff)
  ultimately show ?case using p by simp
qed (simp add: retired_edges_def)

section \<open>The table after a teardown\<close>

lemma rescue_views:
  assumes "rescue_externally_referenced cands dying s = Some (d, s1)"
  shows "\<exists>rs. rescue_loop s cands dying [] = Some (d, rs)
    \<and> (\<forall>j. mode s1 j = (if j \<in> fst ` set rs then Some (Counted (ext_total (unlink_rescued rs s) j)) else mode s j))
    \<and> (\<forall>p. kids s1 p = filter (\<lambda>c. (c, p) \<notin> set rs) (kids s p))
    \<and> (\<forall>a b. out_edge s1 a b = out_edge s a b) \<and> (\<forall>a b. in_edge s1 a b = in_edge s a b)
    \<and> (\<forall>b. in_total s1 b = in_total s b) \<and> (tables_ok s \<longrightarrow> tables_ok s1)"
proof -
  obtain rs where l: "rescue_loop s cands dying [] = Some (d, rs)"
    using assms by (auto simp: rescue_externally_referenced_def Let_def split: option.splits if_splits)
  show ?thesis
  proof (cases "rs = []")
    case True
    then have "s1 = s" using assms l by (simp add: rescue_externally_referenced_def)
    then show ?thesis using l True by (intro exI [of _ "[]"]) simp
  next
    case False
    define c where "c = count_rescue (length rs) (length dying - length d) (counters s)"
    have r: "rebuild_counts rs (unlink_rescued rs (s\<lparr>counters := c\<rparr>)) = Some s1"
      using assms l False by (simp add: rescue_externally_referenced_def Let_def c_def split: option.splits)
    have v: "same_view (s\<lparr>counters := c\<rparr>) s" by (rule same_view_regions) simp
    have e: "entry_at (unlink_rescued rs (s\<lparr>counters := c\<rparr>)) j = entry_at (unlink_rescued rs s) j" for j
      by (rule entry_at_cong) (rule unlink_counters)
    have x: "ext_total (unlink_rescued rs (s\<lparr>counters := c\<rparr>)) j = ext_total (unlink_rescued rs s) j" for j
      using e by (simp add: ext_total_def desc_def owns_rel_def kids_def split: option.split)
    show ?thesis using rebuild_views [OF r] v l
      by (intro exI [of _ rs]) (simp add: unlink_views same_view_def x)
  qed
qed

lemma unindex_views:
  assumes d: "set d \<subseteq> fst ` set cands" and u: "unindex_members d cands s1 = (ms, s2)"
  shows "mode s2 j = (if j \<in> set d then None else mode s1 j)"
    "kids s2 j = (if j \<in> set d then [] else kids s1 j)"
    "out_edge s2 a b = (if a \<in> set d then 0 else out_edge s1 a b)"
    "in_edge s2 a b = (if b \<in> set d then 0 else in_edge s1 a b)"
    "in_total s2 b = (if b \<in> set d then 0 else in_total s1 b)"
    "tables_ok s1 \<Longrightarrow> tables_ok s2"
proof -
  have e: "entry_at s2 i = (if i \<in> set d then None else entry_at s1 i)" for i
    using unindex_entry [of d cands s1 i] u d by auto
  show "mode s2 j = (if j \<in> set d then None else mode s1 j)"
    "kids s2 j = (if j \<in> set d then [] else kids s1 j)"
    "out_edge s2 a b = (if a \<in> set d then 0 else out_edge s1 a b)"
    "in_edge s2 a b = (if b \<in> set d then 0 else in_edge s1 a b)"
    "in_total s2 b = (if b \<in> set d then 0 else in_total s1 b)"
    "tables_ok s1 \<Longrightarrow> tables_ok s2"
    by (simp_all add: mode_def kids_def out_edge_def in_edge_def in_total_def tables_ok_def e)
qed

lemma unindex_map_of:
  assumes d: "set d \<subseteq> fst ` set cands" and u: "unindex_members d cands s1 = (ms, s2)"
  shows "map_of ms a = (if a \<in> set d then map_option (\<lambda>e. e\<lparr>owned_children := []\<rparr>) (entry_at s1 a) else None)"
proof -
  have dist: "distinct (map fst ms)" using unindex_distinct [of d cands s1] u by simp
  have m: "(a, e) \<in> set ms \<longleftrightarrow> a \<in> set d \<and> (\<exists>e0. entry_at s1 a = Some e0 \<and> e = e0\<lparr>owned_children := []\<rparr>)" for e
    using unindex_member [of a e d cands s1] u d by auto
  show ?thesis
  proof (cases "map_of ms a")
    case None
    then have "(a, e) \<notin> set ms" for e by (auto simp: map_of_eq_None_iff image_iff)
    then show ?thesis using None m by (cases "entry_at s1 a") auto
  next
    case (Some e)
    then show ?thesis using m [of e] map_of_SomeD [OF Some] by auto
  qed
qed

lemma release_same_view: "same_view (fst (snd (release_members pf ms s m))) s"
  by (rule same_view_regions) simp

lemma teardown_parts:
  assumes "teardown_set pf roots s mem = Some (n, fr, s', mem')"
  shows "\<exists>cands dying d s1 ms s2 s3 m1 discharged.
    collect_dying s (map (\<lambda>r. (r, None)) roots) [] [] = (cands, dying)
    \<and> rescue_externally_referenced cands dying s = Some (d, s1)
    \<and> unindex_members d cands s1 = (ms, s2) \<and> s3 = retire_all (retired_edges s2 ms) s2
    \<and> discharge_members s3 ms mem = (discharged, m1)
    \<and> fr = member_frontier s2 ms @ discharged \<and> same_view s' s3 \<and> fibs mem' = fibs m1"
proof -
  obtain cands dying where c: "collect_dying s (map (\<lambda>r. (r, None)) roots) [] [] = (cands, dying)"
    by fastforce
  obtain d s1 where r: "rescue_externally_referenced cands dying s = Some (d, s1)"
    using assms c by (auto simp: teardown_set_def split: option.splits)
  obtain ms s2 where u: "unindex_members d cands s1 = (ms, s2)" by fastforce
  define s3 where "s3 = retire_all (retired_edges s2 ms) s2"
  obtain di m1 where di: "discharge_members s3 ms mem = (di, m1)" by fastforce
  have "fr = member_frontier s2 ms @ di \<and> same_view s' s3 \<and> fibs mem' = fibs m1"
  proof (cases "ms = []")
    case True
    then have "s' = s3" "fr = []" "member_frontier s2 ms = []" "di = []" "mem' = m1"
      using assms c r u di by (simp_all add: teardown_set_def s3_def retired_edges_def member_frontier_def
          discharge_members_def)
    then show ?thesis using same_view_refl by simp
  next
    case False
    then show ?thesis using assms c r u di release_same_view [of pf ms s3 "mbytes m1"]
      by (auto simp: teardown_set_def s3_def Let_def case_prod_unfold)
  qed
  then show ?thesis using c r u di s3_def by blast
qed

text \<open>A heap none of whose fibers is parked or holds an owner node discharges nothing.\<close>

definition quiet :: "memory \<Rightarrow> bool" where
  "quiet mem \<longleftrightarrow>
     (\<forall>h fb. fibs mem h = Some fb \<longrightarrow> suspended fb = None \<and> fiber_owner_node fb = None)"

lemma discharge_idle:
  assumes "suspended fb = None" "fiber_owner_node fb = None"
  shows "discharge_fiber s m fb = ([], fb)"
proof -
  have p: "snd (take_parked_state fb) = fb" "dues (fst (take_parked_state fb)) = no_parked_dues"
    "p_signal (fst (take_parked_state fb)) = None"
    by (rule take_parked_state_idle [OF assms(1)])+
  have f: "fb\<lparr>fiber_owner_node := None\<rparr> = fb" using assms(2) by simp
  show ?thesis using assms(2)
    by (simp add: discharge_fiber_def Let_def case_prod_unfold p no_parked_dues_def f)
qed

lemma discharge_objects_quiet:
  "quiet mem \<Longrightarrow> discharge_objects s obs mem = ([], mem)"
proof (induction obs)
  case (Cons ob obs)
  have "discharge_objects s (ob # obs) mem = discharge_objects s obs mem"
  proof (cases "\<exists>h t fb. ob = HFiber h t \<and> fibs mem h = Some fb")
    case True
    then obtain h t fb where f: "ob = HFiber h t" "fibs mem h = Some fb" by blast
    have "discharge_fiber s (mbytes mem) fb = ([], fb)"
      using Cons.prems f by (intro discharge_idle) (auto simp: quiet_def)
    moreover have "mem\<lparr>fibs := (fibs mem)(h \<mapsto> fb)\<rparr> = mem" using f(2) by (simp add: fun_upd_idem)
    ultimately show ?thesis using f Cons by simp
  next
    case False
    then show ?thesis by (cases ob) (auto split: option.split)
  qed
  then show ?case using Cons by simp
qed simp

end
