(* ===== verification/Region_Safety.thy ===== *)
theory Region_Safety
  imports Region_Teardown
begin

text \<open>
  No region dies under a reference. The invariant of the region table: the two edge ledgers
  agree, the forest's forward and back edges agree, and a counted region's count covers its
  incoming edges and the references its users hold. Every operation of the store keeps it.
\<close>

section \<open>The invariant\<close>

definition mirror :: "region_store \<Rightarrow> bool" where
  "mirror s \<longleftrightarrow> tables_ok s \<and> (\<forall>a b. out_edge s a b = in_edge s a b)"

definition forest :: "region_store \<Rightarrow> bool" where
  "forest s \<longleftrightarrow> (\<forall>p c. c \<in> set (kids s p) \<longleftrightarrow> mode s c = Some (Owned p))"

text \<open>No region of a subtree refers back to an owned region above it.\<close>

definition no_backedges :: "region_store \<Rightarrow> bool" where
  "no_backedges s \<longleftrightarrow>
     (\<forall>r p k. mode s r = Some (Owned p) \<longrightarrow> k \<in> desc s r \<longrightarrow> in_edge s k r = 0)"

text \<open>
  \<open>hold b\<close> is the number of counted references the users of the store hold on \<open>b\<close>, and \<open>pend\<close>
  are the references a teardown has unlinked but not yet released.
\<close>

definition counted :: "region_store \<Rightarrow> (nat \<Rightarrow> nat) \<Rightarrow> nat list \<Rightarrow> bool" where
  "counted s hold pend \<longleftrightarrow>
     (\<forall>b rc. mode s b = Some (Counted rc) \<longrightarrow> in_total s b + hold b + count_list pend b \<le> rc)"

definition held_counted :: "region_store \<Rightarrow> (nat \<Rightarrow> nat) \<Rightarrow> bool" where
  "held_counted s hold \<longleftrightarrow> (\<forall>b. 0 < hold b \<longrightarrow> (\<exists>rc. mode s b = Some (Counted rc)))"

definition safe :: "region_store \<Rightarrow> (nat \<Rightarrow> nat) \<Rightarrow> nat list \<Rightarrow> bool" where
  "safe s hold pend \<longleftrightarrow>
     mirror s \<and> forest s \<and> no_backedges s \<and> counted s hold pend \<and> held_counted s hold"

lemma safeD:
  assumes "safe s hold pend"
  shows "tables_ok s" "out_edge s a b = in_edge s a b"
    "c \<in> set (kids s p) \<longleftrightarrow> mode s c = Some (Owned p)"
    "mode s r = Some (Owned p) \<Longrightarrow> k \<in> desc s r \<Longrightarrow> in_edge s k r = 0"
    "mode s x = Some (Counted rc) \<Longrightarrow> in_total s x + hold x + count_list pend x \<le> rc"
    "0 < hold x \<Longrightarrow> \<exists>rc. mode s x = Some (Counted rc)"
proof -
  note d = assms [unfolded safe_def mirror_def forest_def no_backedges_def counted_def held_counted_def]
  show "tables_ok s" "out_edge s a b = in_edge s a b"
    "c \<in> set (kids s p) \<longleftrightarrow> mode s c = Some (Owned p)"
    "mode s r = Some (Owned p) \<Longrightarrow> k \<in> desc s r \<Longrightarrow> in_edge s k r = 0"
    "mode s x = Some (Counted rc) \<Longrightarrow> in_total s x + hold x + count_list pend x \<le> rc"
    "0 < hold x \<Longrightarrow> \<exists>rc. mode s x = Some (Counted rc)"
    using d by iprover+
qed

lemma safeI:
  assumes "tables_ok s" "\<And>a b. out_edge s a b = in_edge s a b"
    "\<And>p c. c \<in> set (kids s p) \<longleftrightarrow> mode s c = Some (Owned p)"
    "\<And>r p k. mode s r = Some (Owned p) \<Longrightarrow> k \<in> desc s r \<Longrightarrow> in_edge s k r = 0"
    "\<And>b rc. mode s b = Some (Counted rc) \<Longrightarrow> in_total s b + hold b + count_list pend b \<le> rc"
    "\<And>b. 0 < hold b \<Longrightarrow> \<exists>rc. mode s b = Some (Counted rc)"
  shows "safe s hold pend"
  unfolding safe_def mirror_def forest_def no_backedges_def counted_def held_counted_def
  using assms by iprover

lemma safe_view: "same_view s s' \<Longrightarrow> safe s hold pend = safe s' hold pend"
  by (simp add: same_view_def safe_def mirror_def forest_def no_backedges_def counted_def
      held_counted_def desc_def owns_rel_def)

lemma safe_edge_live: "safe s hold pend \<Longrightarrow> 0 < out_edge s a b \<Longrightarrow> is_live s a \<and> is_live s b"
  using safeD(2) [of s hold pend a b] out_live [of s a b] in_live [of s a b] by simp

lemma safe_kid_live: "safe s hold pend \<Longrightarrow> c \<in> set (kids s p) \<Longrightarrow> is_live s c"
  using safeD(3) [of s hold pend c p] by (simp add: live_mode)

section \<open>Teardown\<close>

text \<open>A set that may be torn down: its live regions are counted, unheld and closed under
  incoming edges.\<close>

definition droppable :: "region_store \<Rightarrow> (nat \<Rightarrow> nat) \<Rightarrow> nat list \<Rightarrow> bool" where
  "droppable s hold roots \<longleftrightarrow>
     (\<forall>r \<in> set roots. is_live s r \<longrightarrow> (\<exists>rc. mode s r = Some (Counted rc)) \<and> hold r = 0
        \<and> (\<forall>k. 0 < in_edge s k r \<longrightarrow> k \<in> set roots))"

lemma droppableD:
  assumes "droppable s hold roots" "r \<in> set roots" "is_live s r"
  shows "\<exists>rc. mode s r = Some (Counted rc)" "hold r = 0" "0 < in_edge s k r \<Longrightarrow> k \<in> set roots"
  using assms unfolding droppable_def by blast+

text \<open>
  How a drop partitions the table: \<open>D\<close> is the collected set, \<open>d\<close> what remains of it after the
  rescue, and \<open>R\<close> the rescued members with the owners they leave.
\<close>

definition dropped ::
  "region_store \<Rightarrow> nat list \<Rightarrow> nat set \<Rightarrow> nat set \<Rightarrow> (nat \<times> nat) set \<Rightarrow> bool" where
  "dropped s roots D d R \<longleftrightarrow>
     (\<forall>x. x \<in> d \<longrightarrow> x \<in> D)
     \<and> (\<forall>x c. x \<in> D \<longrightarrow> x \<notin> d \<longrightarrow> c \<in> set (kids s x) \<longrightarrow> c \<notin> d)
     \<and> (\<forall>x. x \<in> D \<longrightarrow> x \<notin> d \<longrightarrow> x \<notin> fst ` R \<longrightarrow> (\<exists>p. p \<in> D \<and> p \<notin> d \<and> x \<in> set (kids s p)))
     \<and> (\<forall>r ow. (r, ow) \<in> R \<longrightarrow> r \<in> D \<and> r \<notin> d \<and> r \<in> set (kids s ow))
     \<and> (\<forall>x c. x \<in> D \<longrightarrow> c \<in> set (kids s x) \<longrightarrow> c \<in> D)
     \<and> (\<forall>r. r \<in> set roots \<longrightarrow> is_live s r \<longrightarrow> r \<in> D)
     \<and> (\<forall>x. x \<in> D \<longrightarrow> is_live s x \<and> (x \<in> set roots \<or> (\<exists>p. p \<in> D \<and> x \<in> set (kids s p))))
     \<and> (\<forall>x a. x \<in> d \<longrightarrow> x \<notin> set roots \<longrightarrow> is_live s a \<longrightarrow> 0 < in_edge s a x \<longrightarrow> a \<in> d)"

lemma droppedD:
  assumes "dropped s roots D d R"
  shows "x \<in> d \<Longrightarrow> x \<in> D"
    "x \<in> D \<Longrightarrow> x \<notin> d \<Longrightarrow> c \<in> set (kids s x) \<Longrightarrow> c \<notin> d"
    "x \<in> D \<Longrightarrow> x \<notin> d \<Longrightarrow> x \<notin> fst ` R \<Longrightarrow> \<exists>p. p \<in> D \<and> p \<notin> d \<and> x \<in> set (kids s p)"
    "(r, ow) \<in> R \<Longrightarrow> r \<in> D \<and> r \<notin> d \<and> r \<in> set (kids s ow)"
    "x \<in> D \<Longrightarrow> c \<in> set (kids s x) \<Longrightarrow> c \<in> D"
    "r \<in> set roots \<Longrightarrow> is_live s r \<Longrightarrow> r \<in> D"
    "x \<in> D \<Longrightarrow> is_live s x \<and> (x \<in> set roots \<or> (\<exists>p. p \<in> D \<and> x \<in> set (kids s p)))"
    "x \<in> d \<Longrightarrow> x \<notin> set roots \<Longrightarrow> is_live s a \<Longrightarrow> 0 < in_edge s a x \<Longrightarrow> a \<in> d"
proof -
  note c = assms [unfolded dropped_def]
  show "x \<in> d \<Longrightarrow> x \<in> D"
    using c [THEN conjunct1] by blast
  show "x \<in> D \<Longrightarrow> x \<notin> d \<Longrightarrow> c \<in> set (kids s x) \<Longrightarrow> c \<notin> d"
    using c [THEN conjunct2, THEN conjunct1] by blast
  show "x \<in> D \<Longrightarrow> x \<notin> d \<Longrightarrow> x \<notin> fst ` R \<Longrightarrow> \<exists>p. p \<in> D \<and> p \<notin> d \<and> x \<in> set (kids s p)"
    using c [THEN conjunct2, THEN conjunct2, THEN conjunct1] by blast
  show "(r, ow) \<in> R \<Longrightarrow> r \<in> D \<and> r \<notin> d \<and> r \<in> set (kids s ow)"
    using c [THEN conjunct2, THEN conjunct2, THEN conjunct2, THEN conjunct1] by blast
  show "x \<in> D \<Longrightarrow> c \<in> set (kids s x) \<Longrightarrow> c \<in> D"
    using c [THEN conjunct2, THEN conjunct2, THEN conjunct2, THEN conjunct2, THEN conjunct1] by blast
  show "r \<in> set roots \<Longrightarrow> is_live s r \<Longrightarrow> r \<in> D"
    using c [THEN conjunct2, THEN conjunct2, THEN conjunct2, THEN conjunct2, THEN conjunct2, THEN conjunct1] by blast
  show "x \<in> D \<Longrightarrow> is_live s x \<and> (x \<in> set roots \<or> (\<exists>p. p \<in> D \<and> x \<in> set (kids s p)))"
    using c [THEN conjunct2, THEN conjunct2, THEN conjunct2, THEN conjunct2, THEN conjunct2, THEN conjunct2, THEN conjunct1] by blast
  show "x \<in> d \<Longrightarrow> x \<notin> set roots \<Longrightarrow> is_live s a \<Longrightarrow> 0 < in_edge s a x \<Longrightarrow> a \<in> d"
    using c [THEN conjunct2, THEN conjunct2, THEN conjunct2, THEN conjunct2, THEN conjunct2, THEN conjunct2, THEN conjunct2] by blast
qed

lemma droppedI:
  assumes "\<And>x. x \<in> d \<Longrightarrow> x \<in> D"
    "\<And>x c. x \<in> D \<Longrightarrow> x \<notin> d \<Longrightarrow> c \<in> set (kids s x) \<Longrightarrow> c \<notin> d"
    "\<And>x. x \<in> D \<Longrightarrow> x \<notin> d \<Longrightarrow> x \<notin> fst ` R \<Longrightarrow> \<exists>p. p \<in> D \<and> p \<notin> d \<and> x \<in> set (kids s p)"
    "\<And>r ow. (r, ow) \<in> R \<Longrightarrow> r \<in> D \<and> r \<notin> d \<and> r \<in> set (kids s ow)"
    "\<And>x c. x \<in> D \<Longrightarrow> c \<in> set (kids s x) \<Longrightarrow> c \<in> D"
    "\<And>r. r \<in> set roots \<Longrightarrow> is_live s r \<Longrightarrow> r \<in> D"
    "\<And>x. x \<in> D \<Longrightarrow> is_live s x \<and> (x \<in> set roots \<or> (\<exists>p. p \<in> D \<and> x \<in> set (kids s p)))"
    "\<And>x a. x \<in> d \<Longrightarrow> x \<notin> set roots \<Longrightarrow> is_live s a \<Longrightarrow> 0 < in_edge s a x \<Longrightarrow> a \<in> d"
  shows "dropped s roots D d R"
  unfolding dropped_def
proof (intro conjI)
  show "\<forall>x. x \<in> d \<longrightarrow> x \<in> D"
    using assms(1) by blast
  show "\<forall>x c. x \<in> D \<longrightarrow> x \<notin> d \<longrightarrow> c \<in> set (kids s x) \<longrightarrow> c \<notin> d"
    using assms(2) by blast
  show "\<forall>x. x \<in> D \<longrightarrow> x \<notin> d \<longrightarrow> x \<notin> fst ` R \<longrightarrow> (\<exists>p. p \<in> D \<and> p \<notin> d \<and> x \<in> set (kids s p))"
    using assms(3) by blast
  show "\<forall>r ow. (r, ow) \<in> R \<longrightarrow> r \<in> D \<and> r \<notin> d \<and> r \<in> set (kids s ow)"
    using assms(4) by blast
  show "\<forall>x c. x \<in> D \<longrightarrow> c \<in> set (kids s x) \<longrightarrow> c \<in> D"
    using assms(5) by blast
  show "\<forall>r. r \<in> set roots \<longrightarrow> is_live s r \<longrightarrow> r \<in> D"
    using assms(6) by blast
  show "\<forall>x. x \<in> D \<longrightarrow> is_live s x \<and> (x \<in> set roots \<or> (\<exists>p. p \<in> D \<and> x \<in> set (kids s p)))"
    using assms(7) by blast
  show "\<forall>x a. x \<in> d \<longrightarrow> x \<notin> set roots \<longrightarrow> is_live s a \<longrightarrow> 0 < in_edge s a x \<longrightarrow> a \<in> d"
    using assms(8) by blast
qed

lemma ext_refI:
  assumes "tables_ok s" "0 < in_edge s a x" "is_live s a" "a \<notin> set d"
  shows "ext_ref s d x"
proof -
  obtain e where e: "entry_at s x = Some e" "0 < cnt (incoming e) a"
    using assms(2) by (auto simp: in_edge_def split: option.splits)
  then have "a \<in> fst ` set (incoming e)"
    using table_key [of "incoming e" a] tables_okD [OF assms(1) e(1)] by simp
  then show ?thesis using e assms(3,4)
    by (auto simp: ext_ref_def externally_referenced_def list_ex_iff)
qed

lemma collect_dropped:
  assumes tab: "tables_ok s" and kl: "\<And>x c. c \<in> set (kids s x) \<Longrightarrow> is_live s c"
    and c: "collecting s roots [] cands dying" and r: "rescue_loop s cands dying [] = Some (d, rs)"
  shows "dropped s roots (set dying) (set d) (set rs)"
proof -
  have "rescuing s cands (set dying) dying []" by (rule rescuingI) auto
  note l = rescue_loop_result [OF r this]
  note i = rescuingD [OF conjunct1 [OF l]]
  have listed: "(x, ow) \<in> set cands \<Longrightarrow> listed s roots dying (x, ow)" for x ow
    using collectingD(6) [OF c] by blast
  show ?thesis
  proof (rule droppedI)
    show "c' \<in> set dying" if "x \<in> set dying" "c' \<in> set (kids s x)" for x c'
      using collectingD(4) [OF c that kl [OF that(2)]] by simp
    show "x \<in> set dying" if "x \<in> set roots" "is_live s x" for x
      using collectingD(5) [OF c that] by simp
    show "x \<in> set dying \<and> x \<notin> set d \<and> x \<in> set (kids s ow)" if "(x, ow) \<in> set rs" for x ow
      using i(4) [OF that] listed [of x "Some ow"] by (simp add: listed_def)
    show "is_live s x \<and> (x \<in> set roots \<or> (\<exists>p. p \<in> set dying \<and> x \<in> set (kids s p)))" if x: "x \<in> set dying" for x
    proof -
      obtain ow where "(x, ow) \<in> set cands" using x collectingD(1) [OF c] by force
      then show ?thesis using listed [of x ow] collectingD(3) [OF c x]
        by (auto simp: listed_def split: option.splits)
    qed
    show "a \<in> set d" if x: "x \<in> set d" "x \<notin> set roots" and a: "is_live s a" "0 < in_edge s a x" for x a
    proof (rule ccontr)
      assume "a \<notin> set d"
      then have ref: "ext_ref s d x" using ext_refI [OF tab a(2,1)] by simp
      have "x \<in> set dying" by (rule i(1) [OF x(1)])
      then obtain ow where ow: "(x, ow) \<in> set cands" using collectingD(1) [OF c] by force
      then obtain p where "ow = Some p" using listed [OF ow] x(2)
        by (cases ow) (simp_all add: listed_def)
      then show False using conjunct2 [OF l] ow x(1) ref by blast
    qed
    show "x \<in> set dying" if "x \<in> set d" for x by (rule i(1) [OF that])
    show "c' \<notin> set d" if "x \<in> set dying" "x \<notin> set d" "c' \<in> set (kids s x)" for x c'
      by (rule i(2) [OF that])
    show "\<exists>p. p \<in> set dying \<and> p \<notin> set d \<and> x \<in> set (kids s p)"
      if "x \<in> set dying" "x \<notin> set d" "x \<notin> fst ` set rs" for x
      by (rule i(3) [OF that])
  qed
qed

lemma unlinked_desc: "desc (unlink_rescued rs s) r \<subseteq> desc s r"
  by (rule desc_mono) (auto simp: owns_rel_def unlink_views)

text \<open>The views of the table after a teardown.\<close>

lemma teardown_effect:
  assumes safe: "safe s hold []" and q: "quiet mem"
    and t: "teardown_set pf roots s mem = Some (n, fr, s', mem')"
  shows "\<exists>D d R. dropped s roots D d R \<and> quiet mem' \<and> tables_ok s'
    \<and> (\<forall>j. mode s' j = (if j \<in> d then None else if j \<in> fst ` R then Some (Counted (in_total s j)) else mode s j))
    \<and> (\<forall>p. kids s' p = (if p \<in> d then [] else filter (\<lambda>c. (c, p) \<notin> R) (kids s p)))
    \<and> (\<forall>a b. out_edge s' a b = (if a \<in> d then 0 else out_edge s a b))
    \<and> (\<forall>a b. in_edge s' a b = (if a \<in> d \<or> b \<in> d then 0 else in_edge s a b))
    \<and> (\<forall>b. b \<notin> d \<longrightarrow> in_total s' b + count_list fr b = in_total s b)"
proof -
  obtain cands dying d s1 ms s2 s3 m1 di where
    c: "collect_dying s (map (\<lambda>r. (r, None)) roots) [] [] = (cands, dying)" and
    r: "rescue_externally_referenced cands dying s = Some (d, s1)" and
    u: "unindex_members d cands s1 = (ms, s2)" and s3: "s3 = retire_all (retired_edges s2 ms) s2" and
    di: "discharge_members s3 ms mem = (di, m1)" and
    fr: "fr = member_frontier s2 ms @ di" and v: "same_view s' s3" and f: "fibs mem' = fibs m1"
    using teardown_parts [OF t] by blast
  obtain rs where l: "rescue_loop s cands dying [] = Some (d, rs)"
    and m1: "\<And>j. mode s1 j = (if j \<in> fst ` set rs
        then Some (Counted (ext_total (unlink_rescued rs s) j)) else mode s j)"
    and k1: "\<And>p. kids s1 p = filter (\<lambda>c. (c, p) \<notin> set rs) (kids s p)"
    and e1: "\<And>a b. out_edge s1 a b = out_edge s a b" "\<And>a b. in_edge s1 a b = in_edge s a b"
      "\<And>b. in_total s1 b = in_total s b" and t1: "tables_ok s1"
    using rescue_views [OF r] safeD(1) [OF safe] by blast
  have dr: "dropped s roots (set dying) (set d) (set rs)"
    by (rule collect_dropped [OF safeD(1) [OF safe] safe_kid_live [OF safe] collected [OF c] l])
  have sub: "set d \<subseteq> fst ` set cands"
    using droppedD(1) [OF dr] collectingD(1) [OF collected [OF c]] by blast
  note un = unindex_views [OF sub u]
  have di0: "di = []" "m1 = mem" using di discharge_objects_quiet [OF q] by (simp_all add: discharge_members_def)
  have res: "ext_total (unlink_rescued rs s) j = in_total s j" if j: "j \<in> fst ` set rs" for j
  proof -
    obtain ow where "(j, ow) \<in> set rs" using j by auto
    then have "mode s j = Some (Owned ow)" using droppedD(4) [OF dr] safeD(3) [OF safe] by blast
    then have "in_edge (unlink_rescued rs s) k j = 0" if "k \<in> desc (unlink_rescued rs s) j" for k
      using that unlinked_desc [of rs s j] safeD(4) [OF safe, of j ow k] by (auto simp: unlink_views)
    then show ?thesis
      using ext_total_full [of "unlink_rescued rs s" j] safeD(1) [OF safe] by (simp add: unlink_views)
  qed
  have ok: "table_ok (outgoing e)" if "(a, e) \<in> set ms" for a e
    using unindex_member [of a e d cands s1] u that tables_okD [OF t1] by auto
  have dist: "distinct (map fst ms)" using unindex_distinct [of d cands s1] u by simp
  have am: "amount (retired_edges s2 ms) a b = (if a \<in> set d \<and> is_live s2 b then out_edge s a b else 0)" for a b
    using amount_retired [of ms s2 a b, OF ok dist] unindex_map_of [OF sub u, of a] e1(1) [of a b]
    by (simp add: out_edge_def split: option.splits)
  have live2: "is_live s2 b \<longleftrightarrow> b \<notin> set d \<and> is_live s1 b" for b using un(1) by (simp add: live_mode)
  have dead: "in_edge s a b = 0" if "\<not> is_live s2 b" "b \<notin> set d" for a b
    using in_live [of s1 a b] e1(2) [of a b] live2 that by auto
  have am_le: "amount (retired_edges s2 ms) a b \<le> in_edge s2 a b" for a b
    using safeD(2) [OF safe, of a b] by (simp add: am un(4) e1 live2)
  have tot: "in_total s3 b + count_list fr b = in_total s b" if "b \<notin> set d" for b
    using retire_total [of s2 "retired_edges s2 ms" b, OF un(6) [OF t1] am_le] that
    by (simp add: s3 fr di0 member_frontier_def count_frontier un(5) e1)
  have ie: "in_edge s3 a b = (if a \<in> set d \<or> b \<in> set d then 0 else in_edge s a b)" for a b
    using safeD(2) [OF safe, of a b] dead [of b a] by (auto simp: s3 retire_views am un(4) e1)
  show ?thesis
    using v dr q f di0 retire_views(5) [OF un(6) [OF t1], of "retired_edges s2 ms"] tot ie res
    by (intro exI [of _ "set dying"] exI [of _ "set d"] exI [of _ "set rs"])
      (simp add: same_view_def s3 retire_views un(1-3) m1 k1 e1 quiet_def)
qed

lemma forest_after:
  assumes dr: "dropped s roots D d R" and fo: "\<And>p c. c \<in> set (kids s p) \<longleftrightarrow> mode s c = Some (Owned p)"
    and k: "\<And>p. kids s' p = (if p \<in> d then [] else filter (\<lambda>c. (c, p) \<notin> R) (kids s p))"
    and m: "\<And>j. mode s' j = (if j \<in> d then None else if j \<in> fst ` R then Some (Counted (n j)) else mode s j)"
    and rt: "\<And>r. r \<in> set roots \<Longrightarrow> is_live s r \<Longrightarrow> \<exists>rc. mode s r = Some (Counted rc)"
  shows "c \<in> set (kids s' p) \<longleftrightarrow> mode s' c = Some (Owned p)"
proof
  note P = droppedD [OF dr]
  have owner: "q = p" if "c \<in> set (kids s q)" "c \<in> set (kids s p)" for c p q
    using that by (simp add: fo)
  assume "c \<in> set (kids s' p)"
  then have c: "p \<notin> d" "c \<in> set (kids s p)" "(c, p) \<notin> R" by (auto simp: k split: if_splits)
  have "c \<notin> fst ` R" using P(4) owner c(2,3) by fastforce
  moreover have "c \<notin> d"
  proof
    assume cd: "c \<in> d"
    show False
    proof (cases "p \<in> D")
      case True
      then show False using P(2) [of p c] c cd by blast
    next
      case False
      have "c \<notin> set roots" using rt [of c] c(2) by (auto simp: fo live_mode)
      then obtain q where "q \<in> D" "c \<in> set (kids s q)" using P(7) [OF P(1) [OF cd]] by blast
      then show False using owner [of c q p] c(2) False by simp
    qed
  qed
  ultimately show "mode s' c = Some (Owned p)" using c(2) by (simp add: m fo)
next
  note P = droppedD [OF dr]
  assume "mode s' c = Some (Owned p)"
  then have c: "c \<notin> d" "c \<notin> fst ` R" "mode s c = Some (Owned p)" by (auto simp: m split: if_splits)
  then have cp: "c \<in> set (kids s p)" by (simp add: fo)
  have "p \<notin> d"
  proof
    assume "p \<in> d"
    then have "c \<in> D" using P(1) P(5) cp by blast
    then obtain q where "q \<notin> d" "c \<in> set (kids s q)" using P(3) c(1,2) by blast
    then have "q = p" using cp by (simp add: fo)
    then show False using \<open>q \<notin> d\<close> \<open>p \<in> d\<close> by simp
  qed
  moreover have "(c, p) \<notin> R" using c(2) by force
  ultimately show "c \<in> set (kids s' p)" using cp by (simp add: k)
qed

lemma teardown_safe:
  assumes safe: "safe s hold []" and q: "quiet mem" and drop: "droppable s hold roots"
    and t: "teardown_set pf roots s mem = Some (n, fr, s', mem')"
  shows "safe s' hold fr"
proof -
  obtain D d R where dr: "dropped s roots D d R" and ok: "tables_ok s'" and
    m: "\<And>j. mode s' j = (if j \<in> d then None else if j \<in> fst ` R then Some (Counted (in_total s j)) else mode s j)" and
    k: "\<And>p. kids s' p = (if p \<in> d then [] else filter (\<lambda>c. (c, p) \<notin> R) (kids s p))" and
    oe: "\<And>a b. out_edge s' a b = (if a \<in> d then 0 else out_edge s a b)" and
    ie: "\<And>a b. in_edge s' a b = (if a \<in> d \<or> b \<in> d then 0 else in_edge s a b)" and
    tot: "\<And>b. b \<notin> d \<Longrightarrow> in_total s' b + count_list fr b = in_total s b"
    using teardown_effect [OF safe q t] by blast
  note P = droppedD [OF dr] and S = safeD [OF safe]
  have root_stays: "r \<in> d" if r: "r \<in> set roots" "is_live s r" for r
  proof (rule ccontr)
    assume "r \<notin> d"
    moreover have "r \<in> D" by (rule P(6) [OF r])
    ultimately have "\<exists>p. r \<in> set (kids s p)"
    proof (cases "r \<in> fst ` R")
      case True
      then obtain p where "(r, p) \<in> R" by auto
      then show ?thesis using P(4) by blast
    qed (use P(3) [of r] in blast)
    then obtain p where "r \<in> set (kids s p)" by blast
    then have "mode s r = Some (Owned p)" by (simp add: S(3))
    then show False using droppableD(1) [OF drop r] by auto
  qed
  have kept: "in_edge s a b = 0" if a: "a \<notin> d" and b: "b \<in> d" for a b
  proof (rule ccontr)
    assume "in_edge s a b \<noteq> 0"
    then have pos: "0 < in_edge s a b" by simp
    then have la: "is_live s a" using S(2) [of a b] out_live [of s a b] by simp
    have lb: "is_live s b" using P(7) [OF P(1) [OF b]] by blast
    have "a \<in> d"
    proof (cases "b \<in> set roots")
      case True
      then show ?thesis using droppableD(3) [OF drop True lb pos] root_stays la by blast
    next
      case False
      then show ?thesis by (rule P(8) [OF b _ la pos])
    qed
    then show False using a by contradiction
  qed
  show ?thesis
  proof (rule safeI)
    show "tables_ok s'" by (fact ok)
    show "out_edge s' a b = in_edge s' a b" for a b
      using S(2) [of a b] kept [of a b] by (auto simp: oe ie)
    show "c \<in> set (kids s' p) \<longleftrightarrow> mode s' c = Some (Owned p)" for p c
      by (rule forest_after [OF dr S(3) k m droppableD(1) [OF drop]])
    show "in_edge s' x r = 0" if "mode s' r = Some (Owned p)" "x \<in> desc s' r" for r p x
    proof -
      have "mode s r = Some (Owned p)" using that(1) by (simp add: m split: if_splits)
      moreover have "desc s' r \<subseteq> desc s r" by (rule desc_mono) (auto simp: owns_rel_def k split: if_splits)
      ultimately show ?thesis using S(4) [of r p x] that(2) by (auto simp: ie)
    qed
    show "in_total s' b + hold b + count_list fr b \<le> rc" if b: "mode s' b = Some (Counted rc)" for b rc
    proof (cases "b \<in> fst ` R")
      case True
      then obtain ow where "mode s b = Some (Owned ow)" using P(4) S(3) by fastforce
      then have "hold b = 0" using S(6) [of b] by (cases "hold b") auto
      then show ?thesis using tot [of b] b True by (simp add: m split: if_splits)
    next
      case False
      then show ?thesis using tot [of b] b S(5) [of b rc] by (simp add: m split: if_splits)
    qed
    show "\<exists>rc. mode s' b = Some (Counted rc)" if h: "0 < hold b" for b
    proof -
      obtain rc where c: "mode s b = Some (Counted rc)" using S(6) [OF h] by blast
      then have lb: "is_live s b" by (simp add: live_mode)
      have "b \<notin> d"
      proof
        assume "b \<in> d"
        then have "b \<in> set roots" using P(7) [OF P(1) [OF \<open>b \<in> d\<close>]] c by (auto simp: S(3))
        then show False using droppableD(2) [OF drop _ lb] h by simp
      qed
      then show ?thesis using c by (simp add: m)
    qed
  qed
qed

text \<open>A teardown leaves the other sets of the worklist droppable, and never panics.\<close>

lemma teardown_droppable:
  assumes safe: "safe s hold []" and q: "quiet mem"
    and t: "teardown_set pf roots s mem = Some (n, fr, s', mem')" and other: "droppable s hold rs"
  shows "droppable s' hold rs" "quiet mem'"
proof -
  obtain D d R where dr: "dropped s roots D d R" and q': "quiet mem'" and
    m: "\<And>j. mode s' j = (if j \<in> d then None else if j \<in> fst ` R then Some (Counted (in_total s j)) else mode s j)" and
    ie: "\<And>a b. in_edge s' a b = (if a \<in> d \<or> b \<in> d then 0 else in_edge s a b)"
    using teardown_effect [OF safe q t] by blast
  show "quiet mem'" by (fact q')
  show "droppable s' hold rs"
    unfolding droppable_def
  proof (intro ballI impI)
    fix r assume r: "r \<in> set rs" "is_live s' r"
    have "is_live s r" using r(2) droppedD(4,7) [OF dr] by (force simp: live_mode m split: if_splits)
    note o = droppableD [OF other r(1) this]
    have "\<exists>rc. mode s' r = Some (Counted rc)" using o(1) r(2) by (auto simp: m live_mode split: if_splits)
    moreover have "k \<in> set rs" if "0 < in_edge s' k r" for k
      using that o(3) [of k] by (auto simp: ie split: if_splits)
    ultimately show "(\<exists>rc. mode s' r = Some (Counted rc)) \<and> hold r = 0
        \<and> (\<forall>k. 0 < in_edge s' k r \<longrightarrow> k \<in> set rs)" using o(2) by blast
  qed
qed

lemma live_range: "is_live s x \<Longrightarrow> x < length (regions s)"
  by (auto simp: is_live_def dest: entry_bound)

lemma teardown_defined:
  assumes "collect_dying s (map (\<lambda>r. (r, None)) roots) [] [] = (cands, dying)"
    "rescue_externally_referenced cands dying s \<noteq> None"
  shows "teardown_set pf roots s mem \<noteq> None"
  using assms by (auto simp: teardown_set_def Let_def case_prod_unfold split: option.splits)

lemma teardown_total:
  assumes safe: "safe s hold []"
  shows "teardown_set pf roots s mem \<noteq> None"
proof -
  obtain cands dying where c: "collect_dying s (map (\<lambda>r. (r, None)) roots) [] [] = (cands, dying)"
    by fastforce
  note C = collectingD [OF collected [OF c]]
  obtain d rs where l: "rescue_loop s cands dying [] = Some (d, rs)"
    using rescue_loop_total [of dying s cands "[]"] C(3) live_range by fastforce
  have dr: "dropped s roots (set dying) (set d) (set rs)"
    by (rule collect_dropped [OF safeD(1) [OF safe] safe_kid_live [OF safe] collected [OF c] l])
  have "rescue_externally_referenced cands dying s \<noteq> None"
  proof (cases "rs = []")
    case False
    define s1 where "s1 = unlink_rescued rs
      (s\<lparr>counters := count_rescue (length rs) (length dying - length d) (counters s)\<rparr>)"
    have live: "is_live s1 x = is_live s x" for x by (simp add: s1_def)
    have kc: "kids (s\<lparr>counters := c\<rparr>) x = kids s x" for c x by (simp add: kids_def entry_at_def)
    have kids: "set (kids s1 x) \<subseteq> set (kids s x)" for x by (auto simp: s1_def unlink_views(2) kc)
    have "rebuild_counts rs s1 \<noteq> None"
    proof (rule rebuild_total)
      show "is_live s1 y" if "y \<in> set (kids s1 x)" for x y
        using that kids [of x] safe_kid_live [OF safe] live by blast
      show "is_live s1 r" if "r \<in> fst ` set rs" for r
        using that droppedD(4,7) [OF dr] live by fastforce
    qed
    then show ?thesis using l False
      by (auto simp: rescue_externally_referenced_def Let_def s1_def split: option.splits)
  qed (simp add: rescue_externally_referenced_def l)
  with c show ?thesis by (rule teardown_defined)
qed

section \<open>The cascade\<close>

lemma decref_safe:
  assumes safe: "safe s hold (i # pend)"
  shows "safe (snd (decref_reaches_zero i d s)) hold pend"
proof -
  note S = safeD [OF safe] and v = decref_views [where i = i and d = d and s = s]
  have ds: "desc (snd (decref_reaches_zero i d s)) r = desc s r" for r by (rule desc_cong) (rule v(2))
  show ?thesis
  proof (rule safeI)
    show "tables_ok (snd (decref_reaches_zero i d s))" by (rule v(6) [OF S(1)])
    show "out_edge (snd (decref_reaches_zero i d s)) a b = in_edge (snd (decref_reaches_zero i d s)) a b" for a b
      by (simp add: v S(2))
    show "c \<in> set (kids (snd (decref_reaches_zero i d s)) p)
        \<longleftrightarrow> mode (snd (decref_reaches_zero i d s)) c = Some (Owned p)" for p c
      by (auto simp: v S(3) split: option.splits reclaim.splits)
    show "in_edge (snd (decref_reaches_zero i d s)) k r = 0"
      if "mode (snd (decref_reaches_zero i d s)) r = Some (Owned p)"
        "k \<in> desc (snd (decref_reaches_zero i d s)) r" for r p k
      using that S(4) [of r p k] by (auto simp: v ds split: if_splits option.splits reclaim.splits)
    show "in_total (snd (decref_reaches_zero i d s)) b + hold b + count_list pend b \<le> rc"
      if "mode (snd (decref_reaches_zero i d s)) b = Some (Counted rc)" for b rc
      using that S(5) [of b] by (fastforce simp: v split: if_splits option.splits reclaim.splits)
    show "\<exists>rc. mode (snd (decref_reaches_zero i d s)) b = Some (Counted rc)" if "0 < hold b" for b
      using S(6) [OF that] by (auto simp: v)
  qed
qed

lemma safe_pend_mono:
  assumes "safe s hold (i # pend)"
  shows "safe s hold pend"
proof (rule safeI)
  note S = safeD [OF assms]
  show "in_total s b + hold b + count_list pend b \<le> rc" if "mode s b = Some (Counted rc)" for b rc
    using S(5) [OF that] by (simp split: if_splits)
qed (use safeD [OF assms] in \<open>auto\<close>)

lemma cascade_Cons:
  "cascade_decrefs d (r # rs) s =
     (if r < 2 then cascade_decrefs d rs s
      else (let s1 = snd (decref_reaches_zero r d s); zs = fst (cascade_decrefs d rs s1)
            in (if fst (decref_reaches_zero r d s) then r # zs else zs, snd (cascade_decrefs d rs s1))))"
  by (simp add: runtime_region_def Let_def case_prod_unfold)

lemma cascade_zero_stays:
  "mode s z = Some (Counted 0) \<Longrightarrow> mode (snd (cascade_decrefs d rs s)) z = Some (Counted 0)"
proof (induction rs arbitrary: s)
  case (Cons r rs)
  have "mode (snd (decref_reaches_zero r d s)) z = Some (Counted 0)"
    using Cons.prems by (auto simp: decref_views)
  then show ?case using Cons by (simp add: cascade_Cons Let_def del: cascade_decrefs.simps)
qed simp

lemma cascade_decrefs_safe:
  "safe s hold fr \<Longrightarrow> safe (snd (cascade_decrefs d fr s)) hold []
     \<and> (\<forall>z \<in> set (fst (cascade_decrefs d fr s)). mode (snd (cascade_decrefs d fr s)) z = Some (Counted 0))"
proof (induction fr arbitrary: s)
  case (Cons r fr)
  show ?case
  proof (cases "r < 2")
    case True
    then show ?thesis using Cons.IH [OF safe_pend_mono [OF Cons.prems]]
      by (simp add: cascade_Cons del: cascade_decrefs.simps)
  next
    case False
    let ?s = "snd (decref_reaches_zero r d s)"
    have ih: "safe (snd (cascade_decrefs d fr ?s)) hold []"
      "\<forall>z \<in> set (fst (cascade_decrefs d fr ?s)). mode (snd (cascade_decrefs d fr ?s)) z = Some (Counted 0)"
      using Cons.IH [OF decref_safe [OF Cons.prems]] by blast+
    have "mode (snd (cascade_decrefs d fr ?s)) r = Some (Counted 0)" if z: "fst (decref_reaches_zero r d s)"
    proof (rule cascade_zero_stays)
      obtain rc where "mode s r = Some (Counted rc)" "rc \<le> 1" using z decref_zero by blast
      then show "mode ?s r = Some (Counted 0)" by (simp add: decref_views)
    qed
    then show ?thesis using ih False by (simp add: cascade_Cons Let_def del: cascade_decrefs.simps)
  qed
qed simp

lemma cascade_views:
  "in_edge (snd (cascade_decrefs d rs s)) a b = in_edge s a b"
  "(\<exists>rc. mode (snd (cascade_decrefs d rs s)) j = Some (Counted rc)) \<longleftrightarrow> (\<exists>rc. mode s j = Some (Counted rc))"
proof (induction rs arbitrary: s)
  case (Cons r rs)
  case 1 show ?case using Cons.IH(1) by (simp add: cascade_Cons Let_def decref_views del: cascade_decrefs.simps)
  case 2 show ?case using Cons.IH(2)
    by (auto simp: cascade_Cons Let_def decref_views split: option.splits reclaim.splits simp del: cascade_decrefs.simps)
qed simp_all

lemma cascade_droppable:
  "droppable s hold rs \<Longrightarrow> droppable (snd (cascade_decrefs d fr s)) hold rs"
  by (simp add: droppable_def cascade_views)

lemma zero_droppable:
  assumes "safe s hold []" "mode s z = Some (Counted 0)"
  shows "droppable s hold [z]"
  using safeD(5) [OF assms(1,2)] in_total_zero [OF safeD(1) [OF assms(1)], of z] assms(2)
  by (simp add: droppable_def)

lemma free_cascade_step:
  "free_cascade pf (rest @ [rs]) s mem freed =
     (case teardown_set pf rs s mem of
        None \<Rightarrow> None
      | Some (n, fr, s1, mem1) \<Rightarrow>
          free_cascade pf (rest @ map (\<lambda>r. [r]) (fst (cascade_decrefs (rs = []) fr s1)))
            (snd (cascade_decrefs (rs = []) fr s1)) mem1 (freed + n))"
  by (simp add: free_cascade.simps [of pf "rest @ [rs]"] case_prod_unfold Let_def split: option.split)

lemma free_cascade_safe:
  "safe s hold [] \<Longrightarrow> quiet mem \<Longrightarrow> (\<And>R. R \<in> set wl \<Longrightarrow> droppable s hold R) \<Longrightarrow>
     \<exists>n s' mem'. free_cascade pf wl s mem freed = Some (n, s', mem') \<and> safe s' hold [] \<and> quiet mem'"
proof (induction pf wl s mem freed rule: free_cascade.induct)
  case (1 pf wl s mem freed)
  show ?case
  proof (cases wl rule: rev_cases)
    case Nil
    then show ?thesis using "1.prems" by (simp add: free_cascade.simps [of pf "[]"])
  next
    case (snoc rest rs)
    obtain n fr s1 mem1 where t: "teardown_set pf rs s mem = Some (n, fr, s1, mem1)"
      using teardown_total [OF "1.prems"(1)] by (metis option.exhaust surj_pair)
    have d: "droppable s hold rs" using "1.prems"(3) snoc by simp
    define zs s2 where "zs = fst (cascade_decrefs (rs = []) fr s1)" and
      "s2 = snd (cascade_decrefs (rs = []) fr s1)"
    have s2: "safe s2 hold []" "\<And>z. z \<in> set zs \<Longrightarrow> mode s2 z = Some (Counted 0)"
      using cascade_decrefs_safe [OF teardown_safe [OF "1.prems"(1,2) d t]] by (auto simp: zs_def s2_def)
    have "droppable s2 hold R" if "R \<in> set (rest @ map (\<lambda>r. [r]) zs)" for R
    proof (cases "R \<in> set rest")
      case True
      then have "droppable s hold R" using "1.prems"(3) snoc by simp
      then show ?thesis unfolding s2_def
        by (intro cascade_droppable teardown_droppable(1) [OF "1.prems"(1,2) t])
    next
      case False
      then show ?thesis using that zero_droppable [OF s2(1) s2(2)] by auto
    qed
    then have "\<exists>n' s' mem'. free_cascade pf (rest @ map (\<lambda>r. [r]) zs) s2 mem1 (freed + n) = Some (n', s', mem')
        \<and> safe s' hold [] \<and> quiet mem'"
      using snoc t s2(1) teardown_droppable(2) [OF "1.prems"(1,2) t d]
      by (intro "1.IH" [of "(rs, rest)" rs rest]) (auto simp: zs_def s2_def)
    then show ?thesis using t snoc by (simp add: free_cascade_step zs_def s2_def)
  qed
qed

end
