(* ===== verification/Region_History.thy ===== *)
theory Region_History
  imports Region_Safety
begin

text \<open>
  The operations of the store one by one against the invariant, and the histories they make:
  a region is never freed while a live region refers to it or a user holds it.
\<close>

section \<open>Materializing, minting and recycling\<close>

definition gain :: "nat \<Rightarrow> (nat \<Rightarrow> nat) \<Rightarrow> region_store \<Rightarrow> (nat \<Rightarrow> nat)" where
  "gain i hold s = (if is_live s i then hold else hold(i := 1))"

lemma unheld: "safe s hold pend \<Longrightarrow> \<not> is_live s i \<Longrightarrow> hold i = 0"
  using safeD(6) [of s hold pend i] by (cases "hold i") (auto simp: live_mode)

lemma dead_total: "\<not> is_live s i \<Longrightarrow> in_total s i = 0"
  by (simp add: in_total_def is_live_def)

lemma ensure_safe:
  assumes safe: "safe s hold []" and e: "ensure_raw i s = Some s'"
  shows "safe s' (gain i hold s) []"
proof -
  note S = safeD [OF safe] and v = ensure_views [OF e]
  have ds: "desc s' r = desc s r" for r by (rule desc_cong) (rule v(2))
  have dead: "\<not> is_live s i \<Longrightarrow> mode s i = None" by (simp add: live_mode)
  show ?thesis
  proof (rule safeI)
    show "tables_ok s'" by (rule v(6) [OF S(1)])
    show "out_edge s' a b = in_edge s' a b" for a b by (simp add: v S(2))
    show "c \<in> set (kids s' p) \<longleftrightarrow> mode s' c = Some (Owned p)" for p c
      using dead by (auto simp: v S(3))
    show "in_edge s' k r = 0" if "mode s' r = Some (Owned p)" "k \<in> desc s' r" for r p k
      using that S(4) [of r p k] by (auto simp: v ds split: if_splits)
    show "in_total s' b + gain i hold s b + count_list [] b \<le> rc" if "mode s' b = Some (Counted rc)" for b rc
      using that S(5) [of b rc] dead_total [of s i] by (auto simp: v gain_def split: if_splits)
    show "\<exists>rc. mode s' b = Some (Counted rc)" if "0 < gain i hold s b" for b
      using that S(6) [of b] unheld [OF safe, of i] by (auto simp: v gain_def split: if_splits)
  qed
qed

lemma mint_loop_regions: "regions (snd (mint_loop s)) = regions s"
proof (induction s rule: mint_loop.induct)
  case (1 s)
  then show ?case
    by (auto simp: mint_loop.simps [of s] Let_def split: option.splits)
qed

lemma mint_regions: "new_runtime_region s = Some (i, s') \<Longrightarrow> regions s' = regions s"
  using mint_loop_regions [of s]
  by (auto simp: new_runtime_region_def log_mint_def runtime_region_def Let_def case_prod_unfold
      split: option.splits if_splits)

lemma mint_loop_dead: "\<not> is_live (snd (mint_loop s)) (fst (mint_loop s))"
proof (induction s rule: mint_loop.induct)
  case (1 s)
  then show ?case by (auto simp: mint_loop.simps [of s] Let_def split: option.splits)
qed

lemma recycle_regions: "regions (recycle_unmaterialized m s) = regions s"
  by (simp add: recycle_unmaterialized_def)

section \<open>Counts and edges\<close>

lemma incref_safe:
  assumes safe: "safe s hold pend" and live: "is_live s i"
    and room: "\<And>rc. mode s i = Some (Counted rc) \<Longrightarrow> rc < u32_max" and e: "incref i s = Some s'"
  shows "safe s' hold (i # pend)"
proof -
  note S = safeD [OF safe] and v = incref_views [OF e live]
  have ds: "desc s' r = desc s r" for r by (rule desc_cong) (rule v(2))
  have up: "sat_add32 rc 1 = rc + 1" if "mode s i = Some (Counted rc)" for rc
    using room [OF that] by (simp add: sat_add32_def)
  show ?thesis
  proof (rule safeI)
    show "tables_ok s'" by (rule v(6) [OF S(1)])
    show "out_edge s' a b = in_edge s' a b" for a b by (simp add: v S(2))
    show "c \<in> set (kids s' p) \<longleftrightarrow> mode s' c = Some (Owned p)" for p c
      by (auto simp: v S(3) split: option.splits reclaim.splits)
    show "in_edge s' k r = 0" if "mode s' r = Some (Owned p)" "k \<in> desc s' r" for r p k
      using that S(4) [of r p k] by (auto simp: v ds split: if_splits option.splits reclaim.splits)
    show "in_total s' b + hold b + count_list (i # pend) b \<le> rc" if "mode s' b = Some (Counted rc)" for b rc
      using that S(5) [of b] up by (fastforce simp: v split: if_splits option.splits reclaim.splits)
    show "\<exists>rc. mode s' b = Some (Counted rc)" if "0 < hold b" for b
      using S(6) [OF that] by (auto simp: v)
  qed
qed

text \<open>The reference an incref made becomes a held one, or a recorded edge.\<close>

lemma hold_safe:
  assumes safe: "safe s hold (i # pend)" and c: "mode s i = Some (Counted rc)"
  shows "safe s (hold(i := hold i + 1)) pend"
proof (rule safeI)
  note S = safeD [OF safe]
  show "in_total s b + (hold(i := hold i + 1)) b + count_list pend b \<le> rc'" if "mode s b = Some (Counted rc')" for b rc'
    using S(5) [OF that] by (auto split: if_splits)
  show "\<exists>rc. mode s b = Some (Counted rc)" if "0 < (hold(i := hold i + 1)) b" for b
    using that S(6) [of b] c by (auto split: if_splits)
qed (use safeD [OF safe] in auto)

lemma unhold_safe:
  assumes safe: "safe s hold pend" and h: "0 < hold i"
  shows "safe s (hold(i := hold i - 1)) (i # pend)"
proof (rule safeI)
  note S = safeD [OF safe]
  show "in_total s b + (hold(i := hold i - 1)) b + count_list (i # pend) b \<le> rc" if "mode s b = Some (Counted rc)" for b rc
    using S(5) [OF that] h by (auto split: if_splits)
  show "\<exists>rc. mode s b = Some (Counted rc)" if "0 < (hold(i := hold i - 1)) b" for b
    using that S(6) [of b] by (auto split: if_splits)
qed (use safeD [OF safe] in auto)

lemma record_safe:
  assumes safe: "safe s hold (dst # pend)" and live: "is_live s src" "is_live s dst"
    and ok: "recordable src dst" and nb: "no_backedges (record_outgoing src dst s)"
  shows "safe (record_outgoing src dst s) hold pend"
proof (rule safeI)
  note S = safeD [OF safe] and v = record_views [where src = src and dst = dst and s = s]
  show "tables_ok (record_outgoing src dst s)" by (rule v(6) [OF S(1)])
  show "out_edge (record_outgoing src dst s) a b = in_edge (record_outgoing src dst s) a b" for a b
    using live by (simp add: v S(2))
  show "c \<in> set (kids (record_outgoing src dst s) p) \<longleftrightarrow> mode (record_outgoing src dst s) c = Some (Owned p)" for p c
    by (simp add: v S(3))
  show "in_edge (record_outgoing src dst s) k r = 0"
    if "mode (record_outgoing src dst s) r = Some (Owned p)" "k \<in> desc (record_outgoing src dst s) r" for r p k
    using nb that unfolding no_backedges_def by blast
  show "in_total (record_outgoing src dst s) b + hold b + count_list pend b \<le> rc"
    if "mode (record_outgoing src dst s) b = Some (Counted rc)" for b rc
    using S(5) [of b rc] that by (auto simp: v(1) v(5) [OF S(1)] split: if_splits)
  show "\<exists>rc. mode (record_outgoing src dst s) b = Some (Counted rc)" if "0 < hold b" for b
    using S(6) [OF that] by (simp add: v)
qed

lemma unrecord_safe:
  assumes safe: "safe s hold pend" and edge: "0 < out_edge s src dst" and ok: "recordable src dst"
  shows "safe (unrecord_outgoing src dst s) hold (dst # pend)"
proof (rule safeI)
  note S = safeD [OF safe] and v = unrecord_views [OF safeD(1) [OF safe] edge ok]
  have ds: "desc (unrecord_outgoing src dst s) r = desc s r" for r by (rule desc_cong) (rule v(2))
  show "tables_ok (unrecord_outgoing src dst s)" by (rule v(6))
  show "out_edge (unrecord_outgoing src dst s) a b = in_edge (unrecord_outgoing src dst s) a b" for a b
    by (simp add: v S(2))
  show "c \<in> set (kids (unrecord_outgoing src dst s) p) \<longleftrightarrow> mode (unrecord_outgoing src dst s) c = Some (Owned p)" for p c
    by (simp add: v S(3))
  show "in_edge (unrecord_outgoing src dst s) k r = 0"
    if "mode (unrecord_outgoing src dst s) r = Some (Owned p)" "k \<in> desc (unrecord_outgoing src dst s) r" for r p k
    using S(4) [of r p k] that by (simp add: v ds)
  show "in_total (unrecord_outgoing src dst s) b + hold b + count_list (dst # pend) b \<le> rc"
    if "mode (unrecord_outgoing src dst s) b = Some (Counted rc)" for b rc
    using S(5) [of b rc] that v(5) [of b] edge S(2) [of src dst] by (auto simp: v(1) split: if_splits)
  show "\<exists>rc. mode (unrecord_outgoing src dst s) b = Some (Counted rc)" if "0 < hold b" for b
    using S(6) [OF that] by (simp add: v)
qed

lemma decref_op_safe:
  assumes safe: "safe s hold [i]" and q: "quiet mem"
  shows "\<exists>n s' mem'. decref pf i s mem = Some (n, s', mem') \<and> safe s' hold [] \<and> quiet mem'"
proof -
  let ?s = "snd (decref_reaches_zero i True s)"
  have s1: "safe ?s hold []" by (rule decref_safe [OF safe])
  show ?thesis
  proof (cases "fst (decref_reaches_zero i True s)")
    case True
    then obtain rc where "mode s i = Some (Counted rc)" "rc \<le> 1" using decref_zero by blast
    then have "mode ?s i = Some (Counted 0)" by (simp add: decref_views)
    then have "\<And>R. R \<in> set [[i]] \<Longrightarrow> droppable ?s hold R" using zero_droppable [OF s1] by simp
    then show ?thesis using free_cascade_safe [OF s1 q, of "[[i]]" pf 0] True
      by (simp add: decref_def Let_def case_prod_unfold free_runtime_region_pages_def free_region_set_def)
  next
    case False
    then show ?thesis using s1 q by (simp add: decref_def Let_def case_prod_unfold)
  qed
qed

section \<open>Allocation\<close>

text \<open>No count has saturated.\<close>

definition unsaturated :: "region_store \<Rightarrow> bool" where
  "unsaturated s \<longleftrightarrow> (\<forall>b rc. mode s b = Some (Counted rc) \<longrightarrow> rc < u32_max)"

lemma unsaturatedD: "unsaturated s \<Longrightarrow> mode s b = Some (Counted rc) \<Longrightarrow> rc < u32_max"
  by (simp add: unsaturated_def)

lemma incref_room:
  assumes "incref i s = Some s'" "is_live s i" "unsaturated s'" "mode s i = Some (Counted rc)"
  shows "rc < u32_max"
  using unsaturatedD [OF assms(3), of i] assms(4)
  by (simp add: incref_views [OF assms(1,2)] sat_add32_def)

lemma incref_refs_Cons:
  "2 \<le> r \<Longrightarrow> incref_refs own (r # rs) s =
     (case incref r s of None \<Rightarrow> None | Some s' \<Rightarrow> incref_refs own rs (record_outgoing own r s'))"
  by (simp add: runtime_region_def)

lemma incref_refs_grows:
  "incref_refs own rs s = Some s' \<Longrightarrow> (\<And>r. r \<in> set rs \<Longrightarrow> 2 \<le> r \<and> is_live s r) \<Longrightarrow>
     kids s' p = kids s p \<and> in_edge s a b \<le> in_edge s' a b
     \<and> (mode s' j = Some (Owned q) \<longleftrightarrow> mode s j = Some (Owned q))
     \<and> (mode s j = Some (Counted rc) \<longrightarrow>
          (\<exists>rc'. mode s' j = Some (Counted rc') \<and> (rc' < u32_max \<longrightarrow> rc < u32_max)))"
proof (induction rs arbitrary: s rc)
  case (Cons r rs)
  have r: "2 \<le> r" "is_live s r" using Cons.prems(2) by auto
  obtain s1 where s1: "incref r s = Some s1" and n: "incref_refs own rs (record_outgoing own r s1) = Some s'"
    using Cons.prems(1) r(1) by (auto simp: incref_refs_Cons simp del: incref_refs.simps split: option.splits)
  let ?s = "record_outgoing own r s1"
  note v = incref_views [OF s1 r(2)]
  have live: "is_live ?s x \<longleftrightarrow> is_live s x" for x
    using r(2) by (auto simp: live_mode record_views v split: option.splits reclaim.splits)
  have g: "x \<in> set rs \<Longrightarrow> 2 \<le> x \<and> is_live ?s x" for x using Cons.prems(2) live by auto
  have up: "\<exists>rc1. mode ?s j = Some (Counted rc1) \<and> (rc1 < u32_max \<longrightarrow> rc < u32_max)"
    if "mode s j = Some (Counted rc)"
    using that by (auto simp: record_views v sat_add32_def)
  have "\<exists>rc'. mode s' j = Some (Counted rc') \<and> (rc' < u32_max \<longrightarrow> rc < u32_max)"
    if "mode s j = Some (Counted rc)"
    using up [OF that] Cons.IH [OF n g] by blast
  moreover have "kids s' p = kids ?s p \<and> in_edge ?s a b \<le> in_edge s' a b
     \<and> (mode s' j = Some (Owned q) \<longleftrightarrow> mode ?s j = Some (Owned q))"
    using Cons.IH [OF n g] by blast
  ultimately show ?case
    by (auto simp: record_views v split: if_splits option.splits reclaim.splits)
qed simp

lemma no_backedges_antimono:
  assumes "no_backedges s'" "\<And>p. kids s' p = kids s p" "\<And>a b. in_edge s a b \<le> in_edge s' a b"
    "\<And>j q. mode s' j = Some (Owned q) \<longleftrightarrow> mode s j = Some (Owned q)"
  shows "no_backedges s"
  unfolding no_backedges_def
proof (intro allI impI)
  fix r p k assume "mode s r = Some (Owned p)" "k \<in> desc s r"
  then have "in_edge s' k r = 0"
    using assms(1,4) desc_cong [of s' s r] assms(2) unfolding no_backedges_def by blast
  then show "in_edge s k r = 0" using assms(3) [of k r] by simp
qed

lemma incref_refs_safe:
  "incref_refs own rs s = Some s' \<Longrightarrow> safe s hold [] \<Longrightarrow> no_backedges s' \<Longrightarrow> unsaturated s' \<Longrightarrow>
     is_live s own \<Longrightarrow> 2 \<le> own \<Longrightarrow> (\<And>r. r \<in> set rs \<Longrightarrow> 2 \<le> r \<and> r \<noteq> own \<and> is_live s r) \<Longrightarrow>
     safe s' hold []"
proof (induction rs arbitrary: s)
  case (Cons r rs)
  have r: "2 \<le> r" "r \<noteq> own" "is_live s r" using Cons.prems(7) by auto
  obtain s1 where s1: "incref r s = Some s1" and n: "incref_refs own rs (record_outgoing own r s1) = Some s'"
    using Cons.prems(1) r(1) by (auto simp: incref_refs_Cons simp del: incref_refs.simps split: option.splits)
  let ?s = "record_outgoing own r s1"
  note v = incref_views [OF s1 r(3)]
  have live1: "is_live s1 x \<longleftrightarrow> is_live s x" for x
    using r(3) by (auto simp: live_mode v split: option.splits reclaim.splits)
  have live: "is_live ?s x \<longleftrightarrow> is_live s x" for x
    using live1 [of x] by (simp add: live_mode record_views)
  have g: "x \<in> set rs \<Longrightarrow> 2 \<le> x \<and> is_live ?s x" for x using Cons.prems(7) live by auto
  note grow = incref_refs_grows [OF n g]
  have nb: "no_backedges ?s"
    by (rule no_backedges_antimono [OF Cons.prems(3)]) (use grow in blast)+
  have "unsaturated ?s"
    using grow Cons.prems(4) unfolding unsaturated_def by blast
  then have "unsaturated s1" by (simp add: unsaturated_def record_views)
  then have "safe s1 hold [r]"
    by (intro incref_safe [OF Cons.prems(2) r(3) _ s1] incref_room [OF s1 r(3)])
  then have "safe ?s hold []"
    by (rule record_safe) (use Cons.prems r live1 nb in \<open>auto simp: recordable_def\<close>)
  then show ?case using Cons.IH [OF n _ Cons.prems(3,4)] Cons.prems live by auto
qed simp

text \<open>The refs a scan resolves are live regions other than the scanned one.\<close>

lemma owning_live: "owning_region s m a \<noteq> 0 \<Longrightarrow> is_live s (owning_region s m a)"
proof (cases "image_region_of s a")
  case None
  then show "owning_region s m a \<noteq> 0 \<Longrightarrow> is_live s (owning_region s m a)"
    by (auto simp: owning_region_def region_owns_def is_live_def Let_def split: option.splits if_splits)
next
  case (Some i)
  then have "is_live s i" by (auto simp: image_region_of_def is_live_def find_Some_iff split: option.splits)
  then show "is_live s (owning_region s m a)" using Some by (simp add: owning_region_def)
qed

lemma cross_refs_live:
  assumes "r \<in> set (find_object_cross_refs fib (owning_region s m) own ob)"
  shows "2 \<le> r \<and> r \<noteq> own \<and> is_live s r"
  using assms owning_live [of s m] by (auto simp: cross_refs_set)

lemma with_pool_view: "with_pool i f s = Some (x, s', m) \<Longrightarrow> same_view s' s"
  by (rule same_viewI)
    (auto simp: with_pool_def row_def entry_at_def nth_list_update split: option.splits prod.splits if_splits)

lemma alloc_obj_safe:
  assumes safe: "safe s hold []" and a: "store_alloc_obj pf mm i ob s mem = Some (v, s', mem')"
    and i: "2 \<le> i" and nb: "no_backedges s'" and us: "unsaturated s'"
  shows "safe s' (gain i hold s) []"
proof -
  obtain s1 s2 where s1: "ensure_raw i s = Some s1"
    and s2: "incref_cross_region_refs mem ob i s1 = Some s2"
    and w: "with_pool i (\<lambda>r pc. alloc_obj pf mm ob r pc mem) s2 = Some (v, s', mem')"
    using a by (auto simp: store_alloc_obj_def split: option.splits)
  have vw: "same_view s' s2" by (rule with_pool_view [OF w])
  let ?refs = "find_object_cross_refs (fibs mem) (owning_region s1 (mbytes mem)) i ob"
  have r: "incref_refs i ?refs s1 = Some s2" using s2 by (simp add: incref_cross_region_refs_def)
  have "safe s2 (gain i hold s) []"
  proof (rule incref_refs_safe [OF r ensure_safe [OF safe s1]])
    show "no_backedges s2" using vw nb
      by (simp add: same_view_def no_backedges_def desc_def owns_rel_def)
    show "unsaturated s2" using vw us by (simp add: same_view_def unsaturated_def)
    show "is_live s1 i" using ensure_live [OF s1] by simp
  qed (use i cross_refs_live in auto)
  then show ?thesis using safe_view [OF vw] by simp
qed

section \<open>The forest\<close>

lemma adopt_views:
  assumes a: "adopt_region p c s = Some s'" and ne: "p \<noteq> c"
  shows "mode s' j = (if j = c then Some (Owned p) else if j = p \<and> \<not> is_live s p then Some (Counted 1) else mode s j)"
    "kids s' j = (if j = p then kids s p @ [c] else kids s j)"
    "out_edge s' a b = out_edge s a b" "in_edge s' a b = in_edge s a b" "in_total s' b = in_total s b"
    "tables_ok s \<Longrightarrow> tables_ok s'"
proof -
  obtain s1 s2 where s1: "ensure_raw p s = Some s1" and s2: "ensure_raw c s1 = Some s2"
    using a by (auto simp: adopt_region_def split: option.splits)
  obtain ec where ec: "entry_at s2 c = Some ec" using ensure_live [OF s2, of c] by (auto simp: is_live_def)
  obtain ep where ep: "entry_at s2 p = Some ep"
    using ensure_live [OF s2, of p] ensure_live [OF s1, of p] by (auto simp: is_live_def)
  define s3 where "s3 = set_entry c (Some (ec\<lparr>reclaim_of := Owned p\<rparr>)) s2"
  have u: "upd_entry c (\<lambda>e. e\<lparr>reclaim_of := Owned p\<rparr>) s2 = s3" by (simp add: upd_entry_def ec s3_def)
  have ep3: "entry_at s3 p = Some ep" using ep ne by (simp add: s3_def)
  have s': "same_view s' (upd_entry p (\<lambda>e. e\<lparr>owned_children := vpush (owned_children e) c\<rparr>) s3)"
  proof (rule same_view_regions)
    have "regions s' = regions (set_entry p (Some (ep\<lparr>owned_children := vpush (owned_children ep) c\<rparr>)) s3)"
      using a s1 s2 ep3 by (auto simp: adopt_region_def u Let_def)
    then show "regions s' = regions (upd_entry p (\<lambda>e. e\<lparr>owned_children := vpush (owned_children e) c\<rparr>) s3)"
      by (simp add: upd_entry_def ep3)
  qed
  note v3 = set_mode_views [OF ec, of "Owned p", folded s3_def]
  note v = s' [unfolded same_view_def upd_kids_views] and e1 = ensure_views [OF s1] and e2 = ensure_views [OF s2]
  show "mode s' j = (if j = c then Some (Owned p) else if j = p \<and> \<not> is_live s p then Some (Counted 1) else mode s j)"
    using v v3(1) [of j] e2(1) [of j] e1(1) [of j] by simp
  show "kids s' j = (if j = p then kids s p @ [c] else kids s j)"
    using v ep3 v3(2) [of p] v3(2) [of j] e2(2) e1(2) by (simp add: vpush_def) (metis kids_def option.simps(5))
  show "out_edge s' a b = out_edge s a b" "in_edge s' a b = in_edge s a b" "in_total s' b = in_total s b"
    using v v3(3-5) e2(3-5) e1(3-5) by (auto simp: fun_eq_iff)
  show "tables_ok s \<Longrightarrow> tables_ok s'" using v v3(6) e2(6) e1(6) upd_kids_views(6) by (simp add: same_view_def)
qed

lemma adopt_safe:
  assumes safe: "safe s hold []" and a: "adopt_region p c s = Some s'" and ne: "p \<noteq> c"
    and own: "\<not> region_is_owned s c" and nb: "no_backedges s'"
  shows "safe s' ((gain p hold s)(c := 0)) []"
proof (rule safeI)
  note v = adopt_views [OF a ne] and S = safeD [OF safe]
  have own_free: "mode s c \<noteq> Some (Owned q)" for q
    using own by (auto simp: region_is_owned_def mode_def split: option.splits reclaim.splits)
  show "tables_ok s'" by (rule v(6) [OF S(1)])
  show "out_edge s' a b = in_edge s' a b" for a b by (simp add: v S(2))
  show "x \<in> set (kids s' q) \<longleftrightarrow> mode s' x = Some (Owned q)" for q x
    using own_free ne by (auto simp: v S(3) live_mode)
  show "in_edge s' x r = 0" if "mode s' r = Some (Owned q)" "x \<in> desc s' r" for r q x
    using nb that unfolding no_backedges_def by blast
  show "in_total s' b + ((gain p hold s)(c := 0)) b + count_list [] b \<le> rc"
    if "mode s' b = Some (Counted rc)" for b rc
    using that S(5) [of b rc] dead_total [of s p] by (auto simp: v gain_def split: if_splits)
  show "\<exists>rc. mode s' b = Some (Counted rc)" if "0 < ((gain p hold s)(c := 0)) b" for b
    using that S(6) [of b] unheld [OF safe, of p] by (auto simp: v gain_def split: if_splits)
qed

lemma extract_views:
  assumes x: "extract_owned_region c s = Some s'" and own: "mode s c = Some (Owned ow)"
  shows "mode s' j = (if j = c then Some (Counted (1 + ext_total s c)) else mode s j)"
    "kids s' p = (if p = ow then filter (\<lambda>x. x \<noteq> c) (kids s p) else kids s p)"
    "out_edge s' a b = out_edge s a b" "in_edge s' a b = in_edge s a b" "in_total s' b = in_total s b"
    "tables_ok s \<Longrightarrow> tables_ok s'"
proof -
  obtain e where e: "entry_at s c = Some e" "reclaim_of e = Owned ow" using own by (auto simp: mode_def)
  obtain sub where w: "subtree_walk s [c] [] = Some sub"
    using x e by (auto simp: extract_owned_region_def split: option.splits)
  define s1 where "s1 = set_entry c (Some (e\<lparr>reclaim_of := Counted (1 + ext_total s c)\<rparr>)) s"
  have s': "s' = unlink_child ow c (s1\<lparr>counters := count_extract (counters s1)\<rparr>)"
    using x e w rebuild_step [OF e(1) w] by (simp add: extract_owned_region_def s1_def Let_def)
  have vw: "same_view (s1\<lparr>counters := count_extract (counters s1)\<rparr>) s1" by (rule same_view_regions) simp
  note v1 = set_mode_views [OF e(1), of "Counted (1 + ext_total s c)", folded s1_def]
  show "mode s' j = (if j = c then Some (Counted (1 + ext_total s c)) else mode s j)"
    "kids s' p = (if p = ow then filter (\<lambda>x. x \<noteq> c) (kids s p) else kids s p)"
    "out_edge s' a b = out_edge s a b" "in_edge s' a b = in_edge s a b" "in_total s' b = in_total s b"
    "tables_ok s \<Longrightarrow> tables_ok s'"
    using vw v1 by (simp_all add: s' unlink_child_views same_view_def)
qed

lemma extract_total:
  assumes "\<And>x c. c \<in> set (kids s x) \<Longrightarrow> is_live s c"
  shows "extract_owned_region c s \<noteq> None"
proof (cases "entry_at s c")
  case (Some e)
  have "subtree_walk s [c] [] \<noteq> None"
    using walk_total [of s "[c]" "[]"] assms live_range entry_bound [OF Some] by force
  then show ?thesis using Some by (auto simp: extract_owned_region_def Let_def split: reclaim.splits)
qed (simp add: extract_owned_region_def)

lemma extract_safe:
  assumes safe: "safe s hold []" and x: "extract_owned_region c s = Some s'" and own: "mode s c = Some (Owned ow)"
  shows "safe s' (hold(c := 1)) []"
proof (rule safeI)
  note v = extract_views [OF x own] and S = safeD [OF safe]
  have full: "ext_total s c = in_total s c" by (rule ext_total_full [OF S(1) S(4) [OF own]])
  show "tables_ok s'" by (rule v(6) [OF S(1)])
  show "out_edge s' a b = in_edge s' a b" for a b by (simp add: v S(2))
  show "y \<in> set (kids s' q) \<longleftrightarrow> mode s' y = Some (Owned q)" for q y
    using own by (auto simp: v S(3))
  show "in_edge s' y r = 0" if "mode s' r = Some (Owned q)" "y \<in> desc s' r" for r q y
  proof -
    have "desc s' r \<subseteq> desc s r" by (rule desc_mono) (auto simp: owns_rel_def v split: if_splits)
    then show ?thesis using that S(4) [of r q y] by (auto simp: v split: if_splits)
  qed
  show "in_total s' b + (hold(c := 1)) b + count_list [] b \<le> rc" if "mode s' b = Some (Counted rc)" for b rc
    using that S(5) [of b rc] full by (auto simp: v split: if_splits)
  show "\<exists>rc. mode s' b = Some (Counted rc)" if "0 < (hold(c := 1)) b" for b
    using that S(6) [of b] by (auto simp: v split: if_splits)
qed

lemma restamp_views:
  "restamp_children to cs s = Some s' \<Longrightarrow>
     (\<forall>j. mode s' j = (if j \<in> set cs then Some (Owned to) else mode s j)) \<and> (\<forall>j. kids s' j = kids s j)
     \<and> (\<forall>a b. out_edge s' a b = out_edge s a b) \<and> (\<forall>a b. in_edge s' a b = in_edge s a b)
     \<and> (\<forall>b. in_total s' b = in_total s b) \<and> (tables_ok s \<longrightarrow> tables_ok s')"
proof (induction to cs s rule: restamp_children.induct)
  case (2 to c cs s)
  obtain e where e: "entry_at s c = Some e"
    and n: "restamp_children to cs (set_entry c (Some (e\<lparr>reclaim_of := Owned to\<rparr>)) s) = Some s'"
    using "2.prems" by (auto split: option.splits)
  show ?case using "2.IH" [OF e n] set_mode_views [OF e, of "Owned to"] by auto
qed simp

lemma reparent_views:
  assumes r: "reparent_owned_children from to s = Some s'" and ne: "from \<noteq> to" and cs: "kids s from \<noteq> []"
  shows "mode s' j = (if j \<in> set (kids s from) then Some (Owned to)
           else if j = to \<and> \<not> is_live s to then Some (Counted 1) else mode s j)"
    "kids s' j = (if j = from then [] else if j = to then kids s to @ kids s from else kids s j)"
    "out_edge s' a b = out_edge s a b" "in_edge s' a b = in_edge s a b" "in_total s' b = in_total s b"
    "tables_ok s \<Longrightarrow> tables_ok s'"
proof -
  obtain e where e: "entry_at s from = Some e" using cs by (auto simp: kids_def split: option.splits)
  have ch: "owned_children e = kids s from" by (simp add: kids_def e)
  define s1 where "s1 = (set_entry from (Some (e\<lparr>owned_children := []\<rparr>)) s)
    \<lparr>counters := count_reparents (length (kids s from)) (counters s)\<rparr>"
  have c: "counters (set_entry from (Some (e\<lparr>owned_children := []\<rparr>)) s) = counters s" by (simp add: set_entry_def)
  obtain s2 s3 where s2: "ensure_raw to s1 = Some s2" and s3: "restamp_children to (kids s from) s2 = Some s3"
    and s': "s' = upd_entry to (\<lambda>t. t\<lparr>owned_children := owned_children t @ kids s from\<rparr>) s3"
    using r ne e cs by (auto simp: reparent_owned_children_def Let_def ch s1_def c split: option.splits)
  have vw: "same_view s1 (upd_entry from (\<lambda>e. e\<lparr>owned_children := []\<rparr>) s)"
    by (rule same_view_regions) (simp add: s1_def upd_entry_def e)
  note v1 = vw [unfolded same_view_def upd_kids_views]
  note v2 = ensure_views [OF s2] and v3 = restamp_views [OF s3]
  have live3: "entry_at s3 to \<noteq> None"
  proof -
    have "mode s3 to = (if to \<in> set (kids s from) then Some (Owned to) else mode s2 to)" using v3 by blast
    moreover have "mode s2 to \<noteq> None" using ensure_live [OF s2, of to] by (simp add: live_mode)
    ultimately have "mode s3 to \<noteq> None" by simp
    then show ?thesis by (auto simp: mode_def)
  qed
  have l1: "is_live s1 to \<longleftrightarrow> is_live s to" using v1 by (simp add: live_mode)
  show "mode s' j = (if j \<in> set (kids s from) then Some (Owned to)
           else if j = to \<and> \<not> is_live s to then Some (Counted 1) else mode s j)"
    using v1 v2(1) [of j] v3 l1 by (simp add: s' upd_kids_views)
  have k3: "kids s3 j = (if j = from then [] else kids s j)" for j
    using v1 v2(2) [of j] v3 e by simp
  show "kids s' j = (if j = from then [] else if j = to then kids s to @ kids s from else kids s j)"
    using live3 k3 [of to] k3 [of j] ne by (auto simp: s' upd_kids_views kids_def)
  show "out_edge s' a b = out_edge s a b" "in_edge s' a b = in_edge s a b" "in_total s' b = in_total s b"
    using v1 v2(3-5) v3 by (simp_all add: s' upd_kids_views)
  show "tables_ok s \<Longrightarrow> tables_ok s'"
    using v1 v2(6) v3 upd_kids_views(6) by (simp add: s')
qed

lemma reparent_safe:
  assumes safe: "safe s hold []" and r: "reparent_owned_children from to s = Some s'" and nb: "no_backedges s'"
    and cs: "kids s from \<noteq> []" and ne: "from \<noteq> to"
  shows "safe s' (gain to hold s) []"
proof -
  note S = safeD [OF safe] and v = reparent_views [OF r ne cs]
  have own: "mode s x = Some (Owned from)" if "x \<in> set (kids s from)" for x using that by (simp add: S(3))
  show ?thesis
  proof (rule safeI)
    show "tables_ok s'" by (rule v(6) [OF S(1)])
    show "out_edge s' a b = in_edge s' a b" for a b by (simp add: v S(2))
    show "c \<in> set (kids s' p) \<longleftrightarrow> mode s' c = Some (Owned p)" for p c
    proof (cases "mode s c = Some (Owned from)")
      case True
      then show ?thesis using ne by (auto simp: v S(3))
    next
      case False
      then have "c \<notin> set (kids s from)" by (simp add: S(3))
      moreover have "\<not> is_live s to \<Longrightarrow> mode s to = None" by (simp add: live_mode)
      ultimately show ?thesis using False ne by (auto simp: v S(3))
    qed
    show "in_edge s' x r = 0" if "mode s' r = Some (Owned q)" "x \<in> desc s' r" for r q x
      using nb that unfolding no_backedges_def by blast
    show "in_total s' b + gain to hold s b + count_list [] b \<le> rc" if "mode s' b = Some (Counted rc)" for b rc
      using that S(5) [of b rc] dead_total [of s to] by (auto simp: v gain_def split: if_splits)
    show "\<exists>rc. mode s' b = Some (Counted rc)" if h: "0 < gain to hold s b" for b
    proof (cases "b = to \<and> \<not> is_live s to")
      case True
      then have "b \<notin> set (kids s from)" using own [of b] by (auto simp: live_mode)
      then show ?thesis using True by (simp add: v)
    next
      case False
      then obtain rc where "mode s b = Some (Counted rc)" using S(6) [of b] h by (auto simp: gain_def split: if_splits)
      then show ?thesis using own [of b] False by (auto simp: v)
    qed
  qed
qed

section \<open>Histories\<close>

text \<open>
  The state of a history is the store and the references its users hold. Memory is read afresh
  at every step, so nothing is assumed about the bytes a pointer resolution meets. The side
  conditions are the obligations of the callers: a release is of a reference held, an adopted
  region is unowned, a group is closed under incoming edges, no edge makes an owned region's own
  subtree refer back to it, no count saturates, and a free meets no parked fiber.
\<close>

definition tame :: "region_store \<Rightarrow> bool" where
  "tame s \<longleftrightarrow> no_backedges s \<and> unsaturated s"

type_synonym held_store = "region_store \<times> (nat \<Rightarrow> nat)"

inductive store_step :: "platform \<Rightarrow> held_store \<Rightarrow> held_store \<Rightarrow> bool" for pf where
  mint: "new_runtime_region s = Some (i, s') \<Longrightarrow> store_step pf (s, h) (s', h)"
| recycle: "store_step pf (s, h) (recycle_unmaterialized m s, h)"
| open_scope: "store_step pf (s, h) (begin_mint_log s, h)"
| alloc: "store_alloc_obj pf mm i ob s mem = Some (v, s', mem') \<Longrightarrow> 2 \<le> i \<Longrightarrow> tame s' \<Longrightarrow>
    store_step pf (s, h) (s', gain i h s)"
| alloc_slice: "store_alloc_slice pf mm esz eal enc i (vs :: evalue list) s mem = Some (sl, s', mem') \<Longrightarrow>
    store_step pf (s, h) (s', gain i h s)"
| room: "alloc_room pf mm esz eal i n s m = Some (a, s', m') \<Longrightarrow> store_step pf (s, h) (s', gain i h s)"
| alloc_bytes: "alloc_bytes_with pf mm i len fill s m = Some (sl, s', m') \<Longrightarrow> 0 < len \<Longrightarrow>
    store_step pf (s, h) (s', gain i h s)"
| hydrate: "install_hydrated_region pages index base s m = Some (i, s', m') \<Longrightarrow>
    store_step pf (s, h) (s', h(i := 1))"
| retain: "incref i s = Some s' \<Longrightarrow> mode s i = Some (Counted rc) \<Longrightarrow> unsaturated s' \<Longrightarrow>
    store_step pf (s, h) (s', h(i := h i + 1))"
| release: "decref pf i s mem = Some (n, s', mem') \<Longrightarrow> 0 < h i \<Longrightarrow> quiet mem \<Longrightarrow>
    store_step pf (s, h) (s', h(i := h i - 1))"
| release_owned: "decref pf i s mem = Some (n, s', mem') \<Longrightarrow> region_is_owned s i \<Longrightarrow>
    store_step pf (s, h) (s', h)"
| put: "incref dst s = Some s1 \<Longrightarrow> recordable src dst \<Longrightarrow> is_live s src \<Longrightarrow> is_live s dst \<Longrightarrow>
    tame (record_outgoing src dst s1) \<Longrightarrow> store_step pf (s, h) (record_outgoing src dst s1, h)"
| remove: "decref pf dst (unrecord_outgoing src dst s) mem = Some (n, s', mem') \<Longrightarrow>
    recordable src dst \<Longrightarrow> 0 < out_edge s src dst \<Longrightarrow> quiet mem \<Longrightarrow> store_step pf (s, h) (s', h)"
| adopt: "adopt_region p c s = Some s' \<Longrightarrow> p \<noteq> c \<Longrightarrow> \<not> region_is_owned s c \<Longrightarrow> tame s' \<Longrightarrow>
    store_step pf (s, h) (s', (gain p h s)(c := 0))"
| move_out: "extract_owned_region c s = Some s' \<Longrightarrow> region_is_owned s c \<Longrightarrow>
    store_step pf (s, h) (s', h(c := 1))"
| reparent: "reparent_owned_children p q s = Some s' \<Longrightarrow> p \<noteq> q \<Longrightarrow> kids s p \<noteq> [] \<Longrightarrow> tame s' \<Longrightarrow>
    store_step pf (s, h) (s', gain q h s)"
| drop_group: "free_region_group pf members s mem = Some (n, s', mem') \<Longrightarrow> droppable s h members \<Longrightarrow>
    quiet mem \<Longrightarrow> store_step pf (s, h) (s', h)"

inductive_cases store_stepE: "store_step pf (s, h) (s', h')"

definition store_start :: "held_store \<Rightarrow> bool" where
  "store_start x \<longleftrightarrow> (\<exists>page cache sid. x = (new_store page cache sid, \<lambda>_. 0))"

definition store_inv :: "held_store \<Rightarrow> bool" where
  "store_inv x = safe (fst x) (snd x) []"

definition store_reach :: "platform \<Rightarrow> region_store \<Rightarrow> (nat \<Rightarrow> nat) \<Rightarrow> bool" where
  "store_reach pf s h \<longleftrightarrow> (\<exists>x. store_start x \<and> (store_step pf)\<^sup>*\<^sup>* x (s, h))"

lemma safe_regions: "regions s' = regions s \<Longrightarrow> safe s' h [] = safe s h []"
  by (rule safe_view [OF same_view_regions])

lemma new_store_safe: "safe (new_store page cache sid) (\<lambda>_. 0) []"
  by (rule safeI) (simp_all add: new_store_def mode_def kids_def out_edge_def in_edge_def tables_ok_def
      entry_at_def)

text \<open>Allocation that reads no content: the region is materialized, then only its pool changes.\<close>

lemma ensure_pool_safe:
  assumes "safe s h []" "ensure_raw i s = Some s1" "with_pool i f s1 = Some (x, s', m)"
  shows "safe s' (gain i h s) []"
  using ensure_safe [OF assms(1,2)] safe_view [OF with_pool_view [OF assms(3)]] by simp

lemma hydrate_parts:
  assumes "install_hydrated_region pages index base s m = Some (i, s', m')"
  shows "\<exists>s1 s2. new_runtime_region s = Some (i, s1) \<and> ensure_raw i s1 = Some s2 \<and> same_view s' s2"
proof -
  obtain s1 where s1: "new_runtime_region s = Some (i, s1)"
    using assms by (auto simp: install_hydrated_region_def Let_def split: option.splits prod.splits)
  obtain s2 where s2: "ensure_raw i s1 = Some s2"
    using assms s1 by (auto simp: install_hydrated_region_def Let_def split: option.splits)
  define s3 where "s3 = (if pages = [] then s2 else s2\<lparr>images := vpush (images s2) i\<rparr>)"
  have r3: "regions s3 = regions s2" by (simp add: s3_def)
  have "(case entry_at s3 i of None \<Rightarrow> None
      | Some e \<Rightarrow> (let (r, m') = adopt_image (e_pool e) pages m;
                       r' = install_object_index (map (\<lambda>(off, t). (base + off, t)) index) r
                   in Some (i, set_entry i (Some (e\<lparr>e_pool := r'\<rparr>)) s3, m'))) = Some (i, s', m')"
    using assms s1 s2 unfolding install_hydrated_region_def s3_def by (simp add: Let_def)
  then obtain e r where e: "entry_at s3 i = Some e" and s': "s' = set_entry i (Some (e\<lparr>e_pool := r\<rparr>)) s3"
    by (auto simp: Let_def case_prod_unfold split: option.splits)
  have "same_view s' s3"
    by (rule same_viewI) (use e in \<open>auto simp: s' row_def dest: entry_bound\<close>)
  moreover have "same_view s3 s2" by (rule same_view_regions [OF r3])
  ultimately have "same_view s' s2" by (simp add: same_view_def)
  then show ?thesis using s1 s2 by blast
qed

lemma hydrate_safe:
  assumes safe: "safe s h []" and i: "install_hydrated_region pages index base s m = Some (i, s', m')"
  shows "safe s' (h(i := 1)) []"
proof -
  obtain s1 s2 where s1: "new_runtime_region s = Some (i, s1)" and s2: "ensure_raw i s1 = Some s2"
    and v: "same_view s' s2" using hydrate_parts [OF i] by blast
  have "\<not> is_live s i"
    using mint_loop_dead [of s] s1 mint_loop_regions [of s]
    by (auto simp: new_runtime_region_def runtime_region_def is_live_def entry_at_def Let_def case_prod_unfold
        split: option.splits if_splits)
  then have "\<not> is_live s1 i" using is_live_regions [OF mint_regions [OF s1]] by simp
  then have "safe s2 (h(i := 1)) []"
    using ensure_safe [OF _ s2, of h] safe safe_regions [OF mint_regions [OF s1]] by (simp add: gain_def)
  then show ?thesis using safe_view [OF v] by simp
qed

lemma decref_owned:
  assumes "decref pf i s mem = Some (n, s', mem')" "region_is_owned s i"
  shows "s' = s"
  using assms by (auto simp: decref_def decref_reaches_zero_def region_is_owned_def note_over_free_def
      is_live_def Let_def split: option.splits reclaim.splits)

lemma store_step_inv: "store_step pf x y \<Longrightarrow> store_inv x \<Longrightarrow> store_inv y"
proof (induction rule: store_step.induct)
  case (mint s i s' h)
  then show ?case by (simp add: store_inv_def safe_regions [OF mint_regions])
next
  case (recycle s h m)
  then show ?case by (simp add: store_inv_def safe_regions [OF recycle_regions])
next
  case (open_scope s h)
  then show ?case using safe_regions [of "begin_mint_log s" s] by (simp add: store_inv_def begin_mint_log_def)
next
  case (alloc mm i ob s mem v s' mem' h)
  then show ?case using alloc_obj_safe by (simp add: store_inv_def tame_def)
next
  case (alloc_slice mm esz eal enc i vs s mem sl s' mem' h)
  then show ?case using ensure_pool_safe
    by (fastforce simp: store_inv_def store_alloc_slice_def split: option.splits)
next
  case (room mm esz eal i n s m a s' m' h)
  then show ?case using ensure_pool_safe by (fastforce simp: store_inv_def alloc_room_def split: option.splits)
next
  case (alloc_bytes mm i len fill s m sl s' m' h)
  then show ?case using ensure_pool_safe
    by (fastforce simp: store_inv_def alloc_bytes_with_def Let_def split: option.splits)
next
  case (hydrate pages index base s m i s' m' h)
  then show ?case using hydrate_safe by (simp add: store_inv_def)
next
  case (retain i s s' rc h)
  have live: "is_live s i" using retain by (simp add: live_mode)
  have "safe s' h [i]"
    by (rule incref_safe [OF _ live _ retain(1)]) (use retain incref_room [OF retain(1) live] in \<open>auto simp: store_inv_def\<close>)
  moreover have "\<exists>rc'. mode s' i = Some (Counted rc')" using retain(2) by (simp add: incref_views [OF retain(1) live])
  ultimately show ?case using hold_safe by (auto simp: store_inv_def)
next
  case (release i s mem n s' mem' h)
  have "safe s (h(i := h i - 1)) [i]" using unhold_safe [of s h "[]" i] release by (simp add: store_inv_def)
  from decref_op_safe [OF this release(3), of pf] show ?case using release(1) by (auto simp: store_inv_def)
next
  case (release_owned i s mem n s' mem' h)
  then show ?case using decref_owned [OF release_owned(1,2)] by (simp add: store_inv_def)
next
  case (put dst s s1 src h)
  have "unsaturated s1" using put(5) by (simp add: tame_def unsaturated_def record_views)
  then have "safe s1 h [dst]"
    using put by (intro incref_safe [OF _ put(4) _ put(1)] incref_room [OF put(1,4)]) (auto simp: store_inv_def)
  moreover have "is_live s1 src" "is_live s1 dst"
    using put(3,4) by (auto simp: live_mode incref_views [OF put(1,4)] split: reclaim.splits)
  ultimately show ?case using record_safe put(2,5) by (simp add: store_inv_def tame_def)
next
  case (remove dst src s mem n s' mem' h)
  have "safe (unrecord_outgoing src dst s) h [dst]"
    using unrecord_safe [of s h "[]" src dst] remove by (simp add: store_inv_def)
  from decref_op_safe [OF this remove(4), of pf] show ?case using remove(1) by (auto simp: store_inv_def)
next
  case (adopt p c s s' h)
  then show ?case using adopt_safe by (simp add: store_inv_def tame_def)
next
  case (move_out c s s' h)
  then obtain ow where "mode s c = Some (Owned ow)"
    by (auto simp: region_is_owned_def mode_def split: option.splits reclaim.splits)
  then show ?case using move_out extract_safe by (simp add: store_inv_def)
next
  case (reparent p q s s' h)
  then show ?case using reparent_safe by (simp add: store_inv_def tame_def)
next
  case (drop_group members s mem n s' mem' h)
  then show ?case using free_cascade_safe [of s h mem "[members]" pf 0]
    by (auto simp: store_inv_def free_region_group_def free_region_set_def)
qed

interpretation hist: transition_system store_start "store_step pf" store_inv for pf
  by unfold_locales (auto simp: store_start_def store_inv_def intro: new_store_safe store_step_inv [unfolded store_inv_def])

lemma reach_safe: "store_reach pf s h \<Longrightarrow> safe s h []"
  using hist.run_inv by (fastforce simp: store_reach_def store_inv_def)

section \<open>Concrete stores\<close>

text \<open>Small ids always materialize, and the operations on live regions answer.\<close>

lemma ensure_the: "i \<le> MAX_PLAUSIBLE_REGION_ID \<Longrightarrow> ensure_raw i s = Some (the (ensure_raw i s))"
  using ensure_bound [of i s] by auto

lemma adopt_the:
  assumes "p \<le> MAX_PLAUSIBLE_REGION_ID" "c \<le> MAX_PLAUSIBLE_REGION_ID"
  shows "adopt_region p c s = Some (the (adopt_region p c s))"
proof -
  obtain s1 s2 where s1: "ensure_raw p s = Some s1" and s2: "ensure_raw c s1 = Some s2"
    using ensure_the assms by blast
  have "is_live s2 p" using ensure_live [OF s2] ensure_live [OF s1] by simp
  then show ?thesis using s1 s2
    by (auto simp: adopt_region_def Let_def is_live_def split: option.splits if_splits)
qed

lemma incref_the: "is_live s i \<Longrightarrow> incref i s = Some (the (incref i s))"
  using incref_total [of s i] by auto

lemma small_ids: "2 \<le> MAX_PLAUSIBLE_REGION_ID" "3 \<le> MAX_PLAUSIBLE_REGION_ID" "4 \<le> MAX_PLAUSIBLE_REGION_ID"
  "5 \<le> MAX_PLAUSIBLE_REGION_ID"
  by (simp_all add: MAX_PLAUSIBLE_REGION_ID_def push_bit_eq_mult)

lemma new_store_views:
  "mode (new_store a b c) j = None" "kids (new_store a b c) j = []" "out_edge (new_store a b c) i j = 0"
  "in_edge (new_store a b c) i j = 0" "in_total (new_store a b c) j = 0" "tables_ok (new_store a b c)"
  by (simp_all add: new_store_def mode_def kids_def out_edge_def in_edge_def in_total_def tables_ok_def
      entry_at_def)

lemma room_step:
  assumes "ensure_raw i s = Some s1"
  shows "store_step pf (s, h) (s1, gain i h s)"
proof (rule store_step.room)
  obtain e where e: "entry_at s1 i = Some e" using ensure_live [OF assms, of i] by (auto simp: is_live_def)
  have "regions s1 ! i = Some e" using e by (simp add: entry_at_def split: if_splits)
  then have "(regions s1)[i := Some e] = regions s1" by (metis list_update_id)
  then have "set_entry i (Some e) s1 = s1" by (simp add: set_entry_def)
  then show "alloc_room pf (\<lambda>_. None) 0 1 i 0 s m = Some (1, s1, m)" for m
    using assms e by (simp add: alloc_room_def with_pool_def alloc_data_def)
qed

text \<open>Two regions, the first holding a reference to the second.\<close>

definition pair_store :: region_store where
  "pair_store = record_outgoing 2 3 (the (incref 3 (the (ensure_raw 3 (the (ensure_raw 2 (new_store 4096 8 7)))))))"

lemma pair_views:
  "mode pair_store j = (if j = 2 then Some (Counted 1) else if j = 3 then Some (Counted 2) else None)"
  "kids pair_store j = []" "out_edge pair_store a b = (if a = 2 \<and> b = 3 then 1 else 0)"
  "in_edge pair_store a b = (if a = 2 \<and> b = 3 then 1 else 0)" "tables_ok pair_store"
proof -
  let ?a = "the (ensure_raw 2 (new_store 4096 8 7))"
  let ?b = "the (ensure_raw 3 ?a)"
  note e = ensure_views [OF ensure_the [OF small_ids(1)]] ensure_views [OF ensure_the [OF small_ids(2)]]
  have m: "mode ?b j = (if j = 2 \<or> j = 3 then Some (Counted 1) else None)" for j
    by (simp add: e live_mode new_store_views)
  have l: "is_live ?b 3" by (simp add: live_mode m)
  note i = incref_views [OF incref_the [OF l] l]
  have live: "is_live (the (incref 3 ?b)) 2" "is_live (the (incref 3 ?b)) 3" by (simp_all add: live_mode i m)
  show "mode pair_store j = (if j = 2 then Some (Counted 1) else if j = 3 then Some (Counted 2) else None)"
    by (simp add: pair_store_def record_views i m sat_add32_def u32_max_def)
  show "kids pair_store j = []" "out_edge pair_store a b = (if a = 2 \<and> b = 3 then 1 else 0)"
    "in_edge pair_store a b = (if a = 2 \<and> b = 3 then 1 else 0)" "tables_ok pair_store"
    by (simp_all add: pair_store_def record_views i e new_store_views recordable_def live)
qed

lemma pair_reach: "store_reach pf pair_store ((\<lambda>_. 0)(2 := 1, 3 := 1))"
proof -
  let ?s = "new_store 4096 8 7"
  let ?a = "the (ensure_raw 2 ?s)"
  let ?b = "the (ensure_raw 3 ?a)"
  note e = ensure_views [OF ensure_the [OF small_ids(1)]] ensure_views [OF ensure_the [OF small_ids(2)]]
  have "gain 2 (\<lambda>_. 0) ?s = (\<lambda>_. 0)(2 := 1)" by (simp add: gain_def live_mode new_store_views)
  then have a: "store_step pf (?s, \<lambda>_. 0) (?a, (\<lambda>_. 0)(2 := 1))"
    using room_step [OF ensure_the [OF small_ids(1), of ?s], of pf "\<lambda>_. 0"] by simp
  have "gain 3 ((\<lambda>_. 0)(2 := 1)) ?a = (\<lambda>_. 0)(2 := 1, 3 := 1)"
    by (simp add: gain_def live_mode e new_store_views)
  then have b: "store_step pf (?a, (\<lambda>_. 0)(2 := 1)) (?b, (\<lambda>_. 0)(2 := 1, 3 := 1))"
    using room_step [OF ensure_the [OF small_ids(2), of ?a], of pf "(\<lambda>_. 0)(2 := 1)"] by simp
  have l: "is_live ?b 2" "is_live ?b 3" by (simp_all add: live_mode e new_store_views)
  have t: "tame pair_store"
    by (simp add: tame_def no_backedges_def unsaturated_def pair_views u32_max_def)
  have c: "store_step pf (?b, (\<lambda>_. 0)(2 := 1, 3 := 1)) (pair_store, (\<lambda>_. 0)(2 := 1, 3 := 1))"
    unfolding pair_store_def
    by (rule store_step.put [OF incref_the [OF l(2)]]) (use l t in \<open>simp_all add: recordable_def pair_store_def\<close>)
  have "(store_step pf)\<^sup>*\<^sup>* (?s, \<lambda>_. 0) (pair_store, (\<lambda>_. 0)(2 := 1, 3 := 1))"
    by (rule rtranclp_trans [of "store_step pf", OF r_into_rtranclp [of "store_step pf", OF a]])
      (rule rtranclp_trans [of "store_step pf", OF r_into_rtranclp [of "store_step pf", OF b]
        r_into_rtranclp [of "store_step pf", OF c]])
  then show ?thesis unfolding store_reach_def store_start_def by blast
qed

end
