(* ===== verification/Region_Backedge.thy ===== *)
theory Region_Backedge
  imports Region_History
begin

text \<open>
  Why the histories exclude references from a subtree back to its root: the counts a rescue or
  an extraction rebuilds leave those references out, and a later drop of the root frees it while
  a rescued member still refers to it.
\<close>

lemma rescue_one:
  assumes k: "kids s x = [m]" "kids s m = []" and live: "is_live s x" "is_live s m" "is_live s t"
    and ne: "x \<noteq> m" "t \<noteq> x" "t \<noteq> m" and ok: "tables_ok s" and e: "0 < in_edge s t m"
  shows "collect_dying s [(x, None)] [] [] = ([(x, None), (m, Some x)], [m, x])"
    "rescue_loop s [(x, None), (m, Some x)] [m, x] [] = Some ([x], [(m, x)])"
proof -
  show "collect_dying s [(x, None)] [] [] = ([(x, None), (m, Some x)], [m, x])"
    using collect_snoc [of s "[]" x None "[]" "[]"] collect_snoc [of s "[]" m "Some x" "[(x, None)]" "[x]"]
      k live ne by simp
  have r: "m < length (regions s)" using live_range live(2) by blast
  have "prune_subtree s [m] [m, x] = Some [x]"
    using prune_snoc [of s "[]" m "[m, x]"] k r ne by simp
  moreover have "ext_ref s [m, x] m" using ext_refI [OF ok e live(3)] ne by simp
  moreover have "rescue_pass s [(m, Some x)] [m, x] [] False =
      (case prune_subtree s [m] [m, x] of None \<Rightarrow> None | Some d' \<Rightarrow> Some (d', vpush [] (m, x), True))"
    using calculation(2) r by (simp only: rescue_pass_child) (simp split: option.split)
  ultimately have p1: "rescue_pass s [(x, None), (m, Some x)] [m, x] [] False = Some ([x], [(m, x)], True)"
    by (simp add: vpush_def)
  have p2: "rescue_pass s [(x, None), (m, Some x)] [x] [(m, x)] False = Some ([x], [(m, x)], False)"
    using ne by simp
  show "rescue_loop s [(x, None), (m, Some x)] [m, x] [] = Some ([x], [(m, x)])"
    by (simp add: rescue_loop.simps [of s _ "[m, x]"] rescue_loop.simps [of s _ "[x]"] p1 p2
        del: rescue_pass.simps)
qed

lemma backedge_teardown:
  assumes k: "kids s x = [m]" "kids s m = []" and c: "mode s x = Some (Counted 0)" and o: "mode s m = Some (Owned x)"
    and t: "is_live s t" "t \<noteq> x" "t \<noteq> m" "0 < in_edge s t m" and ne: "x \<noteq> m" and ok: "tables_ok s"
    and bk: "0 < out_edge s m x" and quiet: "quiet mem" and leaf: "\<And>b. out_edge s x b = 0"
  shows "\<exists>n s' mem'. teardown_set pf [x] s mem = Some (n, [], s', mem')
    \<and> \<not> is_live s' x \<and> is_live s' m \<and> out_edge s' m x = out_edge s m x"
proof -
  have live: "is_live s x" "is_live s m" using c o by (simp_all add: live_mode)
  note one = rescue_one [OF k live t(1) ne t(2,3) ok t(4)]
  have range: "m < length (regions s)" "x < length (regions s)" using live_range live by blast+
  define s1 where "s1 = unlink_rescued [(m, x)] (s\<lparr>counters := count_rescue 1 1 (counters s)\<rparr>)"
  have v: "same_view (s\<lparr>counters := count_rescue 1 1 (counters s)\<rparr>) s" by (rule same_view_regions) simp
  have k1: "kids s1 m = []" "is_live s1 m"
    using v k live by (simp_all add: s1_def unlink_views same_view_def live_mode del: unlink_rescued.simps)
  have "subtree_walk s1 [m] [] = Some [m]"
    using walk_snoc [of s1 "[]" m "[]"] k1 live_range [OF k1(2)] by simp
  then obtain s2 where s2: "rebuild_counts [(m, x)] s1 = Some s2"
    using k1(2) by (auto simp: is_live_def)
  have resc: "rescue_externally_referenced [(x, None), (m, Some x)] [m, x] s = Some ([x], s2)"
    using s2 by (simp add: rescue_externally_referenced_def one(2) Let_def s1_def del: rebuild_counts.simps)
  obtain n fr s' mem' where td: "teardown_set pf [x] s mem = Some (n, fr, s', mem')"
    using teardown_defined [of s "[x]" _ _ pf mem] resc one(1) by fastforce
  obtain cands dying d q1 ms q2 q3 m1 di where
    p: "collect_dying s (map (\<lambda>r. (r, None)) [x]) [] [] = (cands, dying)"
      "rescue_externally_referenced cands dying s = Some (d, q1)" "unindex_members d cands q1 = (ms, q2)"
      "q3 = retire_all (retired_edges q2 ms) q2" "discharge_members q3 ms mem = (di, m1)"
      "fr = member_frontier q2 ms @ di" "same_view s' q3"
    using teardown_parts [OF td] by blast
  have q: "cands = [(x, None), (m, Some x)]" "d = [x]" "q1 = s2" using p(1,2) one(1) resc by auto
  have v2: "out_edge s2 a b = out_edge s a b" "mode s2 j = (if j = m then Some (Counted (ext_total s1 m)) else mode s j)" for a b j
    using rebuild_views [OF s2] v by (auto simp: q s1_def unlink_views same_view_def simp del: unlink_rescued.simps)
  note u = unindex_views [of d cands q1 ms q2, OF _ p(3)]
  have "\<not> is_live s' x" "is_live s' m" "out_edge s' m x = out_edge s m x"
    using p(7) ne live o by (simp_all add: live_mode same_view_def p(4) retire_views u q v2 del: retire_all.simps)
  moreover have "fr = []"
  proof -
    have "cnt (outgoing e) b = 0" if "(a, e) \<in> set ms" for a e b
    proof -
      have "a \<in> set d" "\<exists>e0. entry_at q1 a = Some e0 \<and> e = e0\<lparr>owned_children := []\<rparr>"
        using unindex_member [of a e d cands q1] p(3) that by auto
      then show ?thesis using v2(1) [of x b] leaf [of b] by (auto simp: q out_edge_def)
    qed
    moreover have "table_ok (outgoing e)" if "(a, e) \<in> set ms" for a e
      using unindex_member [of a e d cands q1] p(3) that rebuild_views [OF s2] ok v
      by (auto simp: q s1_def same_view_def unlink_views dest: tables_okD simp del: unlink_rescued.simps)
    ultimately have "retired_edges q2 ms = []"
      using table_entry by (fastforce simp: retired_edges_def filter_empty_conv)
    then show ?thesis using p(5,6) discharge_objects_quiet [OF quiet] by (simp add: member_frontier_def discharge_members_def)
  qed
  ultimately show ?thesis using td by blast
qed

section \<open>A run that reaches it\<close>

text \<open>
  Region 2 is adopted by 5 and adopts 3; 3 stores a reference back to 2; 2 is moved out of 5,
  and 4 stores a reference to 3. The mover holds the one counted reference on 2.
\<close>

definition backedge_adopted :: region_store where
  "backedge_adopted =
     (let s1 = the (ensure_raw 4 (the (ensure_raw 3 (the (ensure_raw 2 (new_store 4096 8 7))))))
      in the (adopt_region 2 3 (the (adopt_region 5 2 s1))))"

definition backedge_moved :: region_store where
  "backedge_moved =
     the (extract_owned_region 2 (record_outgoing 3 2 (the (incref 2 backedge_adopted))))"

definition backedge_store :: region_store where
  "backedge_store = record_outgoing 4 3 (the (incref 3 backedge_moved))"

lemma adopted_views:
  "mode backedge_adopted j = (if j = 2 then Some (Owned 5) else if j = 3 then Some (Owned 2)
     else if j = 4 \<or> j = 5 then Some (Counted 1) else None)"
  "kids backedge_adopted j = (if j = 5 then [2] else if j = 2 then [3] else [])"
  "out_edge backedge_adopted a b = 0" "in_edge backedge_adopted a b = 0" "in_total backedge_adopted b = 0"
  "tables_ok backedge_adopted"
proof -
  let ?a = "the (ensure_raw 2 (new_store 4096 8 7))"
  let ?b = "the (ensure_raw 3 ?a)"
  let ?c = "the (ensure_raw 4 ?b)"
  note e = ensure_views [OF ensure_the [OF small_ids(1)]] ensure_views [OF ensure_the [OF small_ids(2)]]
    ensure_views [OF ensure_the [OF small_ids(3)]]
  note a1 = adopt_views [OF adopt_the [OF small_ids(4,1)]] and
    a2 = adopt_views [OF adopt_the [OF small_ids(1,2)]]
  have m: "mode ?c j = (if j = 2 \<or> j = 3 \<or> j = 4 then Some (Counted 1) else None)" for j
    by (simp add: e live_mode new_store_views)
  show "mode backedge_adopted j = (if j = 2 then Some (Owned 5) else if j = 3 then Some (Owned 2)
     else if j = 4 \<or> j = 5 then Some (Counted 1) else None)"
    by (simp add: backedge_adopted_def Let_def a1 a2 m live_mode)
  show "kids backedge_adopted j = (if j = 5 then [2] else if j = 2 then [3] else [])"
    "out_edge backedge_adopted a b = 0" "in_edge backedge_adopted a b = 0" "in_total backedge_adopted b = 0"
    "tables_ok backedge_adopted"
    by (simp_all add: backedge_adopted_def Let_def a1 a2 e new_store_views)
qed

lemma moved_views:
  "mode backedge_moved j = (if j = 3 then Some (Owned 2)
     else if j = 2 \<or> j = 4 \<or> j = 5 then Some (Counted 1) else None)"
  "kids backedge_moved j = (if j = 2 then [3] else [])"
  "out_edge backedge_moved a b = (if a = 3 \<and> b = 2 then 1 else 0)"
  "in_edge backedge_moved a b = (if a = 3 \<and> b = 2 then 1 else 0)"
  "tables_ok backedge_moved"
proof -
  let ?a = "the (incref 2 backedge_adopted)"
  let ?b = "record_outgoing 3 2 ?a"
  have l: "is_live backedge_adopted 2" by (simp add: live_mode adopted_views)
  note i = incref_views [OF incref_the [OF l] l]
  have m: "mode ?b j = mode backedge_adopted j" for j
    by (simp add: record_views i adopted_views)
  have live: "is_live ?a 2" "is_live ?a 3" by (simp_all add: live_mode i adopted_views)
  have k: "kids ?b j = kids backedge_adopted j" for j by (simp add: record_views i)
  have oe: "out_edge ?b a b = (if a = 3 \<and> b = 2 then 1 else 0)" for a b
    by (simp add: record_views i adopted_views recordable_def live)
  have ie: "in_edge ?b a b = (if a = 3 \<and> b = 2 then 1 else 0)" for a b
    by (simp add: record_views i adopted_views recordable_def live)
  have ok: "tables_ok ?b" by (simp add: record_views i adopted_views)
  have own: "mode ?b 2 = Some (Owned 5)" by (simp add: m adopted_views)
  have kl: "is_live ?b c" if "c \<in> set (kids ?b x)" for x c
    using that by (auto simp: k adopted_views live_mode m split: if_splits)
  have ext: "ext_total ?b 2 = 0"
  proof -
    have "3 \<in> desc ?b 2" by (rule desc_kid [OF desc_self]) (simp add: k adopted_views)
    obtain e where e: "entry_at ?b 2 = Some e" using own by (auto simp: mode_def)
    have "total_where (\<lambda>k. k \<notin> desc ?b 2) (incoming e) = 0"
    proof -
      have "kk \<in> desc ?b 2" if "kk \<in> fst ` set (incoming e)" for kk
        using that table_key [of "incoming e" kk] tables_okD [OF ok e] ie [of kk 2] e \<open>3 \<in> desc ?b 2\<close>
        by (auto simp: in_edge_def split: if_splits)
      then have "filter (\<lambda>(k, n). k \<notin> desc ?b 2) (incoming e) = []"
        by (force simp: filter_empty_conv)
      then show ?thesis by (simp add: total_where_def total_def)
    qed
    then show ?thesis by (simp add: ext_total_def e)
  qed
  obtain s' where s': "extract_owned_region 2 ?b = Some s'" using extract_total [of ?b 2] kl by blast
  then have s: "backedge_moved = s'" by (simp add: backedge_moved_def)
  note x = extract_views [OF s' own]
  show "mode backedge_moved j = (if j = 3 then Some (Owned 2)
     else if j = 2 \<or> j = 4 \<or> j = 5 then Some (Counted 1) else None)"
    "kids backedge_moved j = (if j = 2 then [3] else [])"
    "out_edge backedge_moved a b = (if a = 3 \<and> b = 2 then 1 else 0)"
    "in_edge backedge_moved a b = (if a = 3 \<and> b = 2 then 1 else 0)"
    "tables_ok backedge_moved"
    by (auto simp: s x m k oe ie ok ext adopted_views)
qed

lemma backedge_views:
  "mode backedge_store j = (if j = 3 then Some (Owned 2)
     else if j = 2 \<or> j = 4 \<or> j = 5 then Some (Counted 1) else None)"
  "kids backedge_store j = (if j = 2 then [3] else [])"
  "out_edge backedge_store a b = (if a = 3 \<and> b = 2 \<or> a = 4 \<and> b = 3 then 1 else 0)"
  "in_edge backedge_store a b = (if a = 3 \<and> b = 2 \<or> a = 4 \<and> b = 3 then 1 else 0)"
  "tables_ok backedge_store"
proof -
  have l: "is_live backedge_moved 3" by (simp add: live_mode moved_views)
  note i = incref_views [OF incref_the [OF l] l]
  have live: "is_live (the (incref 3 backedge_moved)) 3" "is_live (the (incref 3 backedge_moved)) 4"
    by (simp_all add: live_mode i moved_views)
  show "mode backedge_store j = (if j = 3 then Some (Owned 2)
     else if j = 2 \<or> j = 4 \<or> j = 5 then Some (Counted 1) else None)"
    "kids backedge_store j = (if j = 2 then [3] else [])"
    "out_edge backedge_store a b = (if a = 3 \<and> b = 2 \<or> a = 4 \<and> b = 3 then 1 else 0)"
    "in_edge backedge_store a b = (if a = 3 \<and> b = 2 \<or> a = 4 \<and> b = 3 then 1 else 0)"
    "tables_ok backedge_store"
    by (auto simp: backedge_store_def record_views i moved_views recordable_def live)
qed

section \<open>Properties\<close>

text \<open>
  C12: A root dropped under a reference. Releasing the last counted reference on a region \<open>x\<close>
  whose one owned member \<open>m\<close> refers back to it, while another region \<open>t\<close> refers to \<open>m\<close>, rescues
  \<open>m\<close> and frees \<open>x\<close>: the store is left with a live region that records an edge to a dead one.
\<close>

theorem rescued_member_keeps_dead_edge:
  assumes "mode s x = Some (Counted 1)" "kids s x = [m]" "kids s m = []" "mode s m = Some (Owned x)"
    and "is_live s t" "t \<noteq> x" "t \<noteq> m" "0 < in_edge s t m" "x \<noteq> m" "tables_ok s"
    and "0 < out_edge s m x" "\<And>b. out_edge s x b = 0" "quiet mem"
  shows "\<exists>n s' mem'. decref pf x s mem = Some (n, s', mem')
    \<and> \<not> is_live s' x \<and> is_live s' m \<and> 0 < out_edge s' m x"
proof -
  let ?s = "snd (decref_reaches_zero x True s)"
  note v = decref_views [where i = x and d = True and s = s]
  have "\<exists>n s' mem'. teardown_set pf [x] ?s mem = Some (n, [], s', mem')
    \<and> \<not> is_live s' x \<and> is_live s' m \<and> out_edge s' m x = out_edge ?s m x"
    by (rule backedge_teardown [where t = t]) (use assms in \<open>simp_all add: v live_mode\<close>)
  then obtain n s' mem' where t: "teardown_set pf [x] ?s mem = Some (n, [], s', mem')"
    and l: "\<not> is_live s' x" "is_live s' m" "out_edge s' m x = out_edge ?s m x" by blast
  have "fst (decref_reaches_zero x True s)" using decref_zero [of x True s] assms(1) by auto
  then have "decref pf x s mem = free_cascade pf ([] @ [[x]]) ?s mem 0"
    by (simp add: decref_def case_prod_unfold free_runtime_region_pages_def free_region_set_def)
  also have "\<dots> = Some (n, s', mem')"
    by (simp add: free_cascade_step [of pf "[]" "[x]", simplified] t free_cascade.simps [of pf "[]"])
  finally show ?thesis using l assms(11) by (auto simp: v)
qed

theorem rescued_member_keeps_dead_edge_witness:
  "\<exists>n s' mem'. decref sample_platform 2 backedge_store empty_memory = Some (n, s', mem')
    \<and> \<not> is_live s' 2 \<and> is_live s' 3 \<and> 0 < out_edge s' 3 2"
  by (rule rescued_member_keeps_dead_edge [where t = 4])
    (simp_all add: backedge_views live_mode quiet_def empty_memory_def)

end
