(* ===== verification/Region_Ids.thy ===== *)
theory Region_Ids
  imports Region_Backedge
begin

text \<open>
  What a free does to the ids: which leave the table, that each goes back on the free list once
  and with a new generation, and what minting may then answer.
\<close>

section \<open>Relations a cascade keeps\<close>

lemma cascade_rel:
  assumes refl: "\<And>s. R s s" and trans: "\<And>a b c. R a b \<Longrightarrow> R b c \<Longrightarrow> R a c"
    and down: "\<And>pf rs s mem n fr s1 mem1. teardown_set pf rs s mem = Some (n, fr, s1, mem1) \<Longrightarrow> R s s1"
    and dec: "\<And>d rs s. R s (snd (cascade_decrefs d rs s))"
  shows "free_cascade pf wl s mem f = Some (n, s', mem') \<Longrightarrow> R s s'"
proof (induction pf wl s mem f rule: free_cascade.induct)
  case (1 pf wl s mem f)
  show ?case
  proof (cases wl rule: rev_cases)
    case Nil
    then show ?thesis using "1.prems" refl by (simp add: free_cascade.simps [of pf "[]"])
  next
    case (snoc rest rs)
    then obtain k fr s1 mem1 where t: "teardown_set pf rs s mem = Some (k, fr, s1, mem1)"
      using "1.prems"(1) by (auto simp: free_cascade_step split: option.splits)
    let ?z = "cascade_decrefs (rs = []) fr s1"
    have "R (snd ?z) s'"
      using "1.prems" snoc t
      by (intro "1.IH" [of "(rs, rest)" rs rest _ k _ fr _ s1 mem1 ?z "fst ?z" "snd ?z"])
        (simp_all add: free_cascade_step)
    then show ?thesis using down [OF t] dec [of s1 "rs = []" fr] trans by blast
  qed
qed

lemma cascade_stays_dead:
  assumes "free_cascade pf wl s mem f = Some (n, s', mem')" "is_live s' j"
  shows "is_live s j"
proof -
  have "is_live s' j \<longrightarrow> is_live s j"
    by (rule cascade_rel [of "\<lambda>a b. is_live b j \<longrightarrow> is_live a j", OF _ _ _ _ assms(1)])
      (auto dest: teardown_live(1))
  then show ?thesis using assms(2) by simp
qed

section \<open>The ids a free gives back\<close>

text \<open>The part of a store that decides which ids are issued and when an id is a new region.\<close>

definition ids :: "region_store \<Rightarrow> nat list \<times> nat list \<times> nat" where
  "ids s = (free_physical s, generations s, next_physical s)"

lemma ids_simps [simp]:
  "ids (set_entry i e s) = ids s" "ids (upd_entry i f s) = ids s" "ids (s\<lparr>counters := c\<rparr>) = ids s"
  "ids (unmirror_incoming a b n s) = ids s" "ids (note_over_free x s) = ids s"
  "ids (unlink_child ow j s) = ids s"
  by (simp_all add: ids_def set_entry_def upd_entry_def unmirror_incoming_def note_over_free_def
      unlink_child_def split: option.split)

lemma ids_unlink [simp]: "ids (unlink_rescued rs s) = ids s"
  by (induction rs s rule: unlink_rescued.induct) simp_all

lemma ids_rebuild: "rebuild_counts rs s = Some s' \<Longrightarrow> ids s' = ids s"
  by (induction rs s rule: rebuild_counts.induct) (auto split: option.splits)

lemma ids_rescue: "rescue_externally_referenced cs dying s = Some (d, s') \<Longrightarrow> ids s' = ids s"
  by (auto simp: rescue_externally_referenced_def Let_def split: option.splits if_splits dest!: ids_rebuild)

lemma ids_unindex [simp]: "ids (snd (unindex_members d cs s)) = ids s"
  by (induction d cs s rule: unindex_members.induct) (simp_all add: Let_def case_prod_unfold split: option.split)

lemma ids_retire [simp]: "ids (retire_all es s) = ids s"
  by (induction es s rule: retire_all.induct) simp_all

lemma ids_decref [simp]: "ids (snd (decref_reaches_zero i d s)) = ids s"
  by (simp add: decref_reaches_zero_def Let_def split: option.split reclaim.split)

lemma ids_cascade [simp]: "ids (snd (cascade_decrefs d rs s)) = ids s"
  by (induction rs arbitrary: s) (simp_all add: Let_def case_prod_unfold split: option.splits)

lemma release_pages_ids:
  "free_physical (fst (snd (release_pages pf i e s m))) = free_physical s"
  "next_physical (fst (snd (release_pages pf i e s m))) = next_physical s"
  "length (generations (fst (snd (release_pages pf i e s m)))) = length (generations s)"
  "generation_raw (fst (snd (release_pages pf i e s m))) j =
     (if j = i \<and> i < length (generations s) then wrap_add32 (generation_raw s i) 1 else generation_raw s j)"
  by (simp_all add: release_pages_def bump_generation_def Let_def case_prod_unfold generation_raw_def nth_list_update)

lemma release_members_ids:
  "distinct (map fst ms) \<Longrightarrow>
   free_physical (fst (snd (release_members pf ms s m))) = free_physical s @ map fst ms
   \<and> next_physical (fst (snd (release_members pf ms s m))) = next_physical s
   \<and> length (generations (fst (snd (release_members pf ms s m)))) = length (generations s)
   \<and> generation_raw (fst (snd (release_members pf ms s m))) j =
       (if j \<in> fst ` set ms \<and> j < length (generations s) then wrap_add32 (generation_raw s j) 1
        else generation_raw s j)"
proof (induction ms arbitrary: s m)
  case (Cons p ms)
  obtain r e where p: "p = (r, e)" by (cases p)
  define s1 where "s1 = s\<lparr>counters := count_free (length (page_ranges (e_pool e))) (obj_count (e_pool e))
      (case reclaim_of e of Owned _ \<Rightarrow> True | Counted _ \<Rightarrow> False) (counters s)\<rparr>"
  define s2 where "s2 = fst (snd (release_pages pf r e s1 m))"
  define s3 where "s3 = s2\<lparr>free_physical := vpush (free_physical s2) r\<rparr>"
  define m2 where "m2 = snd (snd (release_pages pf r e s1 m))"
  have eq: "fst (snd (release_members pf (p # ms) s m)) = fst (snd (release_members pf ms s3 m2))"
    by (simp add: p s1_def s2_def s3_def m2_def Let_def case_prod_unfold)
  have s3: "free_physical s3 = free_physical s @ [r]" "next_physical s3 = next_physical s"
    "length (generations s3) = length (generations s)"
    "generation_raw s3 j = (if j = r \<and> r < length (generations s) then wrap_add32 (generation_raw s r) 1 else generation_raw s j)"
  proof -
    have i: "ids s1 = ids s" by (simp add: s1_def)
    have g: "generation_raw s1 x = generation_raw s x" for x using i by (simp add: ids_def generation_raw_def)
    have g3: "generation_raw s3 x = generation_raw s2 x" for x by (simp add: s3_def generation_raw_def)
    show "free_physical s3 = free_physical s @ [r]" "next_physical s3 = next_physical s"
      "length (generations s3) = length (generations s)"
      using release_pages_ids(1-3) [of pf r e s1 m] i by (simp_all add: s3_def s2_def vpush_def ids_def)
    show "generation_raw s3 j = (if j = r \<and> r < length (generations s)
        then wrap_add32 (generation_raw s r) 1 else generation_raw s j)"
      using release_pages_ids(4) [of pf r e s1 m j] i by (simp only: g3 g s2_def) (simp add: ids_def)
  qed
  show ?case unfolding eq using Cons.IH [of s3 m2] Cons.prems s3 by (auto simp: p)
qed simp

text \<open>
  From \<open>s\<close> to \<open>s'\<close> exactly the ids that lost their entry went on the free list, each once and
  with its generation bumped.
\<close>

definition recycled :: "region_store \<Rightarrow> region_store \<Rightarrow> bool" where
  "recycled s s' \<longleftrightarrow> (\<exists>L. distinct L \<and> set L = {j. is_live s j \<and> \<not> is_live s' j}
     \<and> (\<forall>j. is_live s' j \<longrightarrow> is_live s j)
     \<and> free_physical s' = free_physical s @ L \<and> next_physical s' = next_physical s
     \<and> length (generations s') = length (generations s)
     \<and> (\<forall>j. generation_raw s' j =
          (if j \<in> set L \<and> j < length (generations s) then wrap_add32 (generation_raw s j) 1
           else generation_raw s j)))"

lemma recycled_ids: "ids s' = ids s \<Longrightarrow> (\<And>j. is_live s' j = is_live s j) \<Longrightarrow> recycled s s'"
  unfolding recycled_def by (rule exI [of _ "[]"]) (simp add: ids_def generation_raw_def)

lemma recycled_trans:
  assumes "recycled a b" "recycled b c"
  shows "recycled a c"
proof -
  obtain L where L: "distinct L" "set L = {j. is_live a j \<and> \<not> is_live b j}"
    "\<And>j. is_live b j \<Longrightarrow> is_live a j" "free_physical b = free_physical a @ L" "next_physical b = next_physical a"
    "length (generations b) = length (generations a)"
    "\<And>j. generation_raw b j = (if j \<in> set L \<and> j < length (generations a) then wrap_add32 (generation_raw a j) 1 else generation_raw a j)"
    using assms(1) unfolding recycled_def by blast
  obtain K where K: "distinct K" "set K = {j. is_live b j \<and> \<not> is_live c j}"
    "\<And>j. is_live c j \<Longrightarrow> is_live b j" "free_physical c = free_physical b @ K" "next_physical c = next_physical b"
    "length (generations c) = length (generations b)"
    "\<And>j. generation_raw c j = (if j \<in> set K \<and> j < length (generations b) then wrap_add32 (generation_raw b j) 1 else generation_raw b j)"
    using assms(2) unfolding recycled_def by blast
  show ?thesis unfolding recycled_def
  proof (intro exI [of _ "L @ K"] conjI allI impI)
    show "set (L @ K) = {j. is_live a j \<and> \<not> is_live c j}" using L(2,3) K(2,3) by auto
    show "generation_raw c j = (if j \<in> set (L @ K) \<and> j < length (generations a) then wrap_add32 (generation_raw a j) 1
        else generation_raw a j)" for j
      using L(2) K(2) L(6) by (auto simp: K(7) L(7))
  qed (use L K in auto)
qed

lemma unindex_ids:
  "j \<in> fst ` set (fst (unindex_members d cs s)) \<longleftrightarrow> j \<in> set d \<and> j \<in> fst ` set cs \<and> is_live s j"
proof -
  have "j \<in> fst ` X \<longleftrightarrow> (\<exists>e. (j, e) \<in> X)" for X :: "(nat \<times> region_entry) set" by force
  then show ?thesis by (simp only: unindex_member is_live_def) auto
qed

lemma recycled_teardown:
  assumes t: "teardown_set pf roots s mem = Some (n, fr, s', mem')"
  shows "recycled s s'"
proof -
  obtain cands dying where c: "collect_dying s (map (\<lambda>r. (r, None)) roots) [] [] = (cands, dying)" by fastforce
  obtain d s1 where r: "rescue_externally_referenced cands dying s = Some (d, s1)"
    using t c by (auto simp: teardown_set_def split: option.splits)
  obtain ms s2 where u: "unindex_members d cands s1 = (ms, s2)" by fastforce
  define s3 where "s3 = retire_all (retired_edges s2 ms) s2"
  have i3: "ids s3 = ids s" using ids_rescue [OF r] ids_unindex [of d cands s1] u by (simp add: s3_def)
  have m: "j \<in> fst ` set ms \<longleftrightarrow> j \<in> set d \<and> j \<in> fst ` set cands \<and> is_live s j" for j
    using unindex_ids [of j d cands s1] u is_live_rescue [OF r, of j] by simp
  have l3: "is_live s3 j \<longleftrightarrow> is_live s j \<and> j \<notin> fst ` set ms" for j
  proof -
    have "is_live s2 j \<longleftrightarrow> is_live s1 j \<and> \<not> (j \<in> set d \<and> j \<in> fst ` set cands)"
      using unindex_entry [of d cands s1 j] u by (simp add: is_live_def)
    then show ?thesis unfolding m using is_live_rescue [OF r, of j] by (simp add: s3_def) blast
  qed
  have dist: "distinct (map fst ms)" using unindex_distinct [of d cands s1] u by simp
  have s': "\<exists>m. s' = fst (snd (release_members pf ms s3 m))"
    using t c r u by (cases "ms = []") (auto simp: teardown_set_def s3_def Let_def case_prod_unfold retired_edges_def)
  then obtain m where s': "s' = fst (snd (release_members pf ms s3 m))" by blast
  show ?thesis unfolding recycled_def
  proof (intro exI [of _ "map fst ms"] conjI allI impI)
    show "set (map fst ms) = {j. is_live s j \<and> \<not> is_live s' j}" using l3 m unfolding set_map s' is_live_release by blast
    show "is_live s j" if "is_live s' j" for j using that l3 by (simp add: s')
    show "free_physical s' = free_physical s @ map fst ms" "next_physical s' = next_physical s"
      "length (generations s') = length (generations s)"
      using release_members_ids [OF dist, of pf s3 m] i3 by (simp_all add: s' ids_def)
    show "generation_raw s' j = (if j \<in> set (map fst ms) \<and> j < length (generations s)
        then wrap_add32 (generation_raw s j) 1 else generation_raw s j)" for j
    proof -
      have "generation_raw s3 j = generation_raw s j" "generations s3 = generations s"
        using i3 by (simp_all add: ids_def generation_raw_def)
      then show ?thesis using release_members_ids [OF dist, of pf s3 m j] by (simp only: s' set_map)
    qed
  qed (rule dist)
qed

lemma recycled_cascade: "free_cascade pf wl s mem f = Some (n, s', mem') \<Longrightarrow> recycled s s'"
  by (rule cascade_rel [of recycled])
    (simp_all add: recycled_ids recycled_teardown, rule recycled_trans)

lemma recycled_decref:
  assumes "decref pf i s mem = Some (n, s', mem')"
  shows "recycled s s'"
proof -
  let ?s = "snd (decref_reaches_zero i True s)"
  have "recycled s ?s" by (rule recycled_ids) simp_all
  moreover have "recycled ?s s'"
    using assms recycled_ids [of ?s ?s]
    by (auto simp: decref_def Let_def case_prod_unfold free_runtime_region_pages_def free_region_set_def
        split: if_splits dest: recycled_cascade)
  ultimately show ?thesis by (rule recycled_trans)
qed

section \<open>Minting\<close>

lemma mint_loop_result:
  "mint_loop s = (i, s') \<Longrightarrow>
     (regions s' = regions s \<and> generations s' = generations s \<and> next_physical s \<le> next_physical s')
     \<and> (\<exists>gone. free_physical s = free_physical s' @ gone \<and>
         (i \<in> set gone \<or> next_physical s \<le> i \<and> i < next_physical s'))"
proof (induction s arbitrary: i s' rule: mint_loop.induct)
  case (1 s)
  show ?case
  proof (cases "free_physical s" rule: rev_cases)
    case Nil
    let ?s = "s\<lparr>next_physical := next_physical s + 1\<rparr>"
    show ?thesis
    proof (cases "is_live ?s (next_physical s)")
      case True
      then have "mint_loop ?s = (i, s')" using "1.prems" Nil by (simp add: mint_loop.simps [of s])
      from "1.IH" [of "(next_physical s, ?s)" "next_physical s" ?s, OF _ _ _ this] True Nil
      show ?thesis by auto
    next
      case False
      then show ?thesis using "1.prems" Nil by (auto simp: mint_loop.simps [of s])
    qed
  next
    case (snoc rest x)
    let ?s = "s\<lparr>free_physical := rest\<rparr>"
    show ?thesis
    proof (cases "is_live ?s x")
      case True
      then have "mint_loop ?s = (i, s')" using "1.prems" snoc by (simp add: mint_loop.simps [of s])
      from "1.IH" [of "(x, ?s)" x ?s, OF _ _ _ this] True snoc show ?thesis by fastforce
    next
      case False
      then show ?thesis using "1.prems" snoc by (auto simp: mint_loop.simps [of s])
    qed
  qed
qed

lemma mint_result:
  assumes "new_runtime_region_tracked s = Some (m, s')"
  shows "regions s' = regions s" "generations s' = generations s" "next_physical s \<le> next_physical s'"
    "2 \<le> mint_region m" "mint_gen m = generation_raw s (mint_region m)" "\<not> is_live s (mint_region m)"
    "\<exists>gone. free_physical s = free_physical s' @ gone \<and>
       (mint_region m \<in> set gone \<or> next_physical s \<le> mint_region m \<and> mint_region m < next_physical s')"
proof -
  obtain i s1 where l: "mint_loop s = (i, s1)" by fastforce
  note r = mint_loop_result [OF l]
  have m: "2 \<le> i" "m = \<lparr>mint_region = i, mint_gen = generation_raw (log_mint i s1) i\<rparr>" "s' = log_mint i s1"
    using assms l by (auto simp: new_runtime_region_tracked_def new_runtime_region_def runtime_region_def
        split: if_splits)
  have lg: "regions s' = regions s1" "generations s' = generations s1" "next_physical s' = next_physical s1"
    "free_physical s' = free_physical s1"
    by (simp_all add: m(3) log_mint_def split: option.split)
  show "regions s' = regions s" "generations s' = generations s" "next_physical s \<le> next_physical s'"
    "2 \<le> mint_region m" "mint_gen m = generation_raw s (mint_region m)"
    using r lg m by (simp_all add: generation_raw_def)
  show "\<not> is_live s (mint_region m)"
    using mint_loop_dead [of s] l r m(2) is_live_regions [of s1 s] by simp
  show "\<exists>gone. free_physical s = free_physical s' @ gone \<and>
       (mint_region m \<in> set gone \<or> next_physical s \<le> mint_region m \<and> mint_region m < next_physical s')"
    using r lg m(2) by simp
qed

section \<open>Histories of mints\<close>

text \<open>
  A history of the ids: the store and the mint receipts not yet used up. A receipt is recycled at
  most once, and a region is materialized under its receipt while its generation still matches.
  A free meets no generation at the end of its 32 bits.
\<close>

type_synonym minting = "region_store \<times> region_mint set"

definition young :: "region_store \<Rightarrow> bool" where
  "young s \<longleftrightarrow> (\<forall>g \<in> set (generations s). g < u32_max)"

inductive id_step :: "platform \<Rightarrow> minting \<Rightarrow> minting \<Rightarrow> bool" for pf where
  mint: "new_runtime_region_tracked s = Some (m, s') \<Longrightarrow> id_step pf (s, R) (s', insert m R)"
| recycle: "m \<in> R \<Longrightarrow> id_step pf (s, R) (recycle_unmaterialized m s, R - {m})"
| materialize: "m \<in> R \<Longrightarrow> mint_gen m = generation_raw s (mint_region m) \<Longrightarrow>
    ensure_raw (mint_region m) s = Some s' \<Longrightarrow> id_step pf (s, R) (s', R)"
| retain: "is_live s i \<Longrightarrow> incref i s = Some s' \<Longrightarrow> id_step pf (s, R) (s', R)"
| link: "id_step pf (s, R) (record_outgoing src dst s, R)"
| unlink: "id_step pf (s, R) (unrecord_outgoing src dst s, R)"
| release: "decref pf i s mem = Some (n, s', mem') \<Longrightarrow> young s \<Longrightarrow> id_step pf (s, R) (s', R)"
| drop_group: "free_region_group pf members s mem = Some (n, s', mem') \<Longrightarrow> young s \<Longrightarrow>
    id_step pf (s, R) (s', R)"

definition ids_ok :: "minting \<Rightarrow> bool" where
  "ids_ok x = (case x of (s, R) \<Rightarrow>
     distinct (free_physical s)
     \<and> (\<forall>i \<in> set (free_physical s). \<not> is_live s i \<and> 2 \<le> i \<and> i < next_physical s)
     \<and> (\<forall>i. is_live s i \<longrightarrow> 2 \<le> i \<and> i < next_physical s \<and> i < length (generations s))
     \<and> (\<forall>m \<in> R. 2 \<le> mint_region m \<and> mint_region m < next_physical s \<and> mint_gen m \<le> generation_raw s (mint_region m))
     \<and> (\<forall>m \<in> R. mint_gen m = generation_raw s (mint_region m) \<longrightarrow> mint_region m \<notin> set (free_physical s))
     \<and> 2 \<le> next_physical s)"

lemma ids_okD:
  assumes "ids_ok (s, R)"
  shows "distinct (free_physical s)" "i \<in> set (free_physical s) \<Longrightarrow> \<not> is_live s i \<and> 2 \<le> i \<and> i < next_physical s"
    "is_live s i \<Longrightarrow> 2 \<le> i \<and> i < next_physical s \<and> i < length (generations s)"
    "m \<in> R \<Longrightarrow> 2 \<le> mint_region m \<and> mint_region m < next_physical s \<and> mint_gen m \<le> generation_raw s (mint_region m)"
    "m \<in> R \<Longrightarrow> mint_gen m = generation_raw s (mint_region m) \<Longrightarrow> mint_region m \<notin> set (free_physical s)"
    "2 \<le> next_physical s"
proof -
  note c = assms [unfolded ids_ok_def prod.case]
  show "distinct (free_physical s)" using c [THEN conjunct1] .
  show "i \<in> set (free_physical s) \<Longrightarrow> \<not> is_live s i \<and> 2 \<le> i \<and> i < next_physical s"
    using c [THEN conjunct2, THEN conjunct1] by blast
  show "is_live s i \<Longrightarrow> 2 \<le> i \<and> i < next_physical s \<and> i < length (generations s)"
    using c [THEN conjunct2, THEN conjunct2, THEN conjunct1] by blast
  show "m \<in> R \<Longrightarrow> 2 \<le> mint_region m \<and> mint_region m < next_physical s \<and> mint_gen m \<le> generation_raw s (mint_region m)"
    using c [THEN conjunct2, THEN conjunct2, THEN conjunct2, THEN conjunct1] by blast
  show "m \<in> R \<Longrightarrow> mint_gen m = generation_raw s (mint_region m) \<Longrightarrow> mint_region m \<notin> set (free_physical s)"
    using c [THEN conjunct2, THEN conjunct2, THEN conjunct2, THEN conjunct2, THEN conjunct1] by blast
  show "2 \<le> next_physical s"
    using c [THEN conjunct2, THEN conjunct2, THEN conjunct2, THEN conjunct2, THEN conjunct2] .
qed

lemma ids_okI:
  assumes "distinct (free_physical s)" "\<And>i. i \<in> set (free_physical s) \<Longrightarrow> \<not> is_live s i \<and> 2 \<le> i \<and> i < next_physical s"
    "\<And>i. is_live s i \<Longrightarrow> 2 \<le> i \<and> i < next_physical s \<and> i < length (generations s)"
    "\<And>m. m \<in> R \<Longrightarrow> 2 \<le> mint_region m \<and> mint_region m < next_physical s \<and> mint_gen m \<le> generation_raw s (mint_region m)"
    "\<And>m. m \<in> R \<Longrightarrow> mint_gen m = generation_raw s (mint_region m) \<Longrightarrow> mint_region m \<notin> set (free_physical s)"
    "2 \<le> next_physical s"
  shows "ids_ok (s, R)"
  unfolding ids_ok_def prod.case using assms by (intro conjI ballI allI impI) blast+

lemma ids_ok_frame:
  assumes "ids_ok (s, R)" "ids s' = ids s" "\<And>j. is_live s' j = is_live s j"
  shows "ids_ok (s', R)"
proof -
  have f: "free_physical s' = free_physical s" "generations s' = generations s" "next_physical s' = next_physical s"
    using assms(2) by (simp_all add: ids_def)
  then have "generation_raw s' = generation_raw s" by (simp add: fun_eq_iff generation_raw_def)
  then show ?thesis using assms(1) unfolding ids_ok_def prod.case f assms(3) by simp
qed

lemma ids_ok_mint:
  assumes ok: "ids_ok (s, R)" and m: "new_runtime_region_tracked s = Some (m, s')"
  shows "ids_ok (s', insert m R)" "m' \<in> R \<Longrightarrow> mint_region m' = mint_region m \<Longrightarrow> mint_gen m' < mint_gen m"
proof -
  note D = ids_okD [OF ok] and M = mint_result [OF m]
  obtain gone where g: "free_physical s = free_physical s' @ gone"
    and i: "mint_region m \<in> set gone \<or> next_physical s \<le> mint_region m \<and> mint_region m < next_physical s'"
    using M(7) by blast
  have gen: "generation_raw s' j = generation_raw s j" and live: "is_live s' j = is_live s j" for j
    using M(1,2) is_live_regions [of s' s] by (simp_all add: generation_raw_def)
  have new: "mint_region m \<notin> set (free_physical s')" "mint_region m < next_physical s'"
    using i g D(1) D(2) [of "mint_region m"] M(3,4) by auto
  show old: "mint_gen m' < mint_gen m" if "m' \<in> R" "mint_region m' = mint_region m" for m'
  proof -
    have "mint_gen m' \<le> mint_gen m" "mint_region m < next_physical s" using D(4) [OF that(1)] that(2) M(5) by simp_all
    moreover have "mint_gen m' \<noteq> mint_gen m"
    proof
      assume "mint_gen m' = mint_gen m"
      then have "mint_region m \<notin> set (free_physical s)" using D(5) [OF that(1)] that(2) M(5) by simp
      then show False using i g \<open>mint_region m < next_physical s\<close> by simp
    qed
    ultimately show ?thesis by simp
  qed
  show "ids_ok (s', insert m R)"
  proof (rule ids_okI)
    show "distinct (free_physical s')" using D(1) g by simp
    show "\<not> is_live s' i \<and> 2 \<le> i \<and> i < next_physical s'" if "i \<in> set (free_physical s')" for i
      using D(2) [of i] that g M(3) live by auto
    show "2 \<le> i \<and> i < next_physical s' \<and> i < length (generations s')" if "is_live s' i" for i
      using D(3) [of i] that live M(2,3) by auto
    show "2 \<le> mint_region x \<and> mint_region x < next_physical s' \<and> mint_gen x \<le> generation_raw s' (mint_region x)" if "x \<in> insert m R" for x
      using D(4) [of x] that new(2) M(3-5) gen by auto
    show "mint_region x \<notin> set (free_physical s')"
      if "x \<in> insert m R" "mint_gen x = generation_raw s' (mint_region x)" for x
      using D(5) [of x] that new(1) g gen by auto
    show "2 \<le> next_physical s'" using D(6) M(3) by simp
  qed
qed

lemma ids_ok_recycle:
  assumes ok: "ids_ok (s, R)" and m: "m \<in> R"
  shows "ids_ok (recycle_unmaterialized m s, R - {m})"
proof (cases "is_live s (mint_region m) \<or> generation_raw s (mint_region m) \<noteq> mint_gen m")
  case True
  then have "recycle_unmaterialized m s = s" by (auto simp: recycle_unmaterialized_def)
  then show ?thesis using ids_okD [OF ok] by (intro ids_okI) simp_all
next
  case False
  let ?s = "recycle_unmaterialized m s"
  note D = ids_okD [OF ok]
  have s: "?s = s\<lparr>free_physical := free_physical s @ [mint_region m]\<rparr>"
    using False by (simp add: recycle_unmaterialized_def vpush_def)
  have live: "is_live ?s j = is_live s j" for j by (rule is_live_regions) (simp add: s)
  have gen: "generation_raw ?s j = generation_raw s j" for j by (simp add: s generation_raw_def)
  have new: "mint_region m \<notin> set (free_physical s)" using D(5) [OF m] False by simp
  show ?thesis
  proof (rule ids_okI)
    show "distinct (free_physical ?s)" using D(1) new by (simp add: s)
    show "\<not> is_live ?s i \<and> 2 \<le> i \<and> i < next_physical ?s" if "i \<in> set (free_physical ?s)" for i
      using that D(2) [of i] D(4) [OF m] False unfolding live by (auto simp: s)
    show "2 \<le> i \<and> i < next_physical ?s \<and> i < length (generations ?s)" if "is_live ?s i" for i
      using that D(3) [of i] unfolding live by (simp add: s)
    show "2 \<le> mint_region x \<and> mint_region x < next_physical ?s \<and> mint_gen x \<le> generation_raw ?s (mint_region x)" if "x \<in> R - {m}" for x
      using that D(4) [of x] unfolding gen by (simp add: s)
    show "mint_region x \<notin> set (free_physical ?s)"
      if "x \<in> R - {m}" "mint_gen x = generation_raw ?s (mint_region x)" for x
      using that D(5) [of x] False unfolding gen by (auto simp: s intro: region_mint.equality)
    show "2 \<le> next_physical ?s" using D(6) by (simp add: s)
  qed
qed

lemma ids_ok_materialize:
  assumes ok: "ids_ok (s, R)" and m: "m \<in> R" "mint_gen m = generation_raw s (mint_region m)"
    and e: "ensure_raw (mint_region m) s = Some s'"
  shows "ids_ok (s', R)"
proof -
  let ?i = "mint_region m"
  note D = ids_okD [OF ok]
  have live: "is_live s' j \<longleftrightarrow> j = ?i \<or> is_live s j" for j using ensure_live [OF e] by auto
  have f: "free_physical s' = free_physical s" "next_physical s' = next_physical s"
    "generations s' = resize (?i + 1) 0 (generations s)"
    using e by (auto simp: ensure_raw_def Let_def set_entry_def split: if_splits)
  have gen: "generation_raw s' j = generation_raw s j" for j
    by (simp add: generation_raw_def f resize_def nth_append)
  have len: "length (generations s) \<le> length (generations s')" "?i < length (generations s')"
    by (simp_all add: f resize_def)
  show ?thesis
  proof (rule ids_okI)
    show "\<not> is_live s' i \<and> 2 \<le> i \<and> i < next_physical s'" if "i \<in> set (free_physical s')" for i
      using that D(2) [of i] D(5) [OF m] by (auto simp: f live)
    show "2 \<le> i \<and> i < next_physical s' \<and> i < length (generations s')" if "is_live s' i" for i
      using that D(3) [of i] D(4) [OF m(1)] len by (auto simp: f(1,2) live)
  qed (use D(1,4-6) in \<open>simp_all add: f(1,2) gen\<close>)
qed

lemma ids_ok_free:
  assumes ok: "ids_ok (s, R)" and y: "young s" and r: "recycled s s'"
  shows "ids_ok (s', R)"
proof -
  note D = ids_okD [OF ok]
  obtain L where L: "distinct L" "set L = {j. is_live s j \<and> \<not> is_live s' j}"
    "\<And>j. is_live s' j \<Longrightarrow> is_live s j" "free_physical s' = free_physical s @ L" "next_physical s' = next_physical s"
    "length (generations s') = length (generations s)"
    "\<And>j. generation_raw s' j = (if j \<in> set L \<and> j < length (generations s) then wrap_add32 (generation_raw s j) 1 else generation_raw s j)"
    using r unfolding recycled_def by blast
  have gen: "generation_raw s' j = (if j \<in> set L then generation_raw s j + 1 else generation_raw s j)" for j
  proof (cases "j \<in> set L")
    case True
    then have "j < length (generations s)" using D(3) [of j] L(2) by auto
    moreover from this have "generation_raw s j < u32_max" using y by (simp add: young_def generation_raw_def)
    ultimately show ?thesis using True by (simp add: L(7) wrap_add32_def u32_max_def)
  qed (simp add: L(7))
  show ?thesis
  proof (rule ids_okI)
    show "distinct (free_physical s')" using D(1,2) L(1,2) by (auto simp: L(4))
    show "\<not> is_live s' i \<and> 2 \<le> i \<and> i < next_physical s'" if "i \<in> set (free_physical s')" for i
      using that D(2,3) [of i] L(2) L(3) [of i] by (auto simp: L(4,5))
    show "2 \<le> i \<and> i < next_physical s' \<and> i < length (generations s')" if "is_live s' i" for i
      using D(3) [OF L(3) [OF that]] by (simp add: L(5,6))
    show "2 \<le> mint_region x \<and> mint_region x < next_physical s' \<and> mint_gen x \<le> generation_raw s' (mint_region x)" if "x \<in> R" for x
      using D(4) [OF that] by (auto simp: gen L(5))
    show "mint_region x \<notin> set (free_physical s')" if "x \<in> R" "mint_gen x = generation_raw s' (mint_region x)" for x
      using D(4,5) [OF that(1)] that(2) by (auto simp: gen L(4) split: if_splits)
    show "2 \<le> next_physical s'" using D(6) by (simp add: L(5))
  qed
qed

lemma ids_frame:
  "ids (record_outgoing a b s) = ids s" "ids (unrecord_outgoing a b s) = ids s"
  "is_live s i \<Longrightarrow> i < length (generations s) \<Longrightarrow> incref i s = Some s' \<Longrightarrow> ids s' = ids s"
  by (auto simp: record_outgoing_def unrecord_outgoing_def incref_def ensure_raw_def resize_def ids_def
      set_entry_def upd_entry_def unmirror_incoming_def is_live_def
      split: option.splits if_splits reclaim.splits dest: entry_bound)

definition id_start :: "minting \<Rightarrow> bool" where
  "id_start x \<longleftrightarrow> (\<exists>page cache sid. x = (new_store page cache sid, {}))"

definition id_reach :: "platform \<Rightarrow> region_store \<Rightarrow> region_mint set \<Rightarrow> bool" where
  "id_reach pf s R \<longleftrightarrow> (\<exists>x. id_start x \<and> (id_step pf)\<^sup>*\<^sup>* x (s, R))"

lemma id_start_ok: "id_start x \<Longrightarrow> ids_ok x"
  by (clarsimp simp: id_start_def) (rule ids_okI, simp_all add: new_store_def is_live_def entry_at_def)

lemma unrecord_live: "is_live (unrecord_outgoing src dst s) j = is_live s j"
  by (simp add: unrecord_outgoing_def unmirror_incoming_def upd_entry_def set_entry_Some_live split: option.split)

lemma incref_live: "is_live s i \<Longrightarrow> incref i s = Some s' \<Longrightarrow> is_live s' j = is_live s j"
  using incref_views(1) [of i s s' j] by (auto simp: live_mode split: option.splits reclaim.splits if_splits)

lemma id_step_ok: "id_step pf x y \<Longrightarrow> ids_ok x \<Longrightarrow> ids_ok y"
proof (induction rule: id_step.induct)
  case (mint s m s' R)
  then show ?case by (intro ids_ok_mint(1))
next
  case (recycle m R s)
  then show ?case by (intro ids_ok_recycle)
next
  case (materialize m R s s')
  then show ?case using ids_ok_materialize by blast
next
  case (retain s i s' R)
  have "i < length (generations s)" using ids_okD(3) [OF retain.prems retain.hyps(1)] by simp
  then have "ids s' = ids s" using ids_frame(3) [OF retain.hyps(1) _ retain.hyps(2)] by blast
  from retain.prems this incref_live [OF retain.hyps] show ?case by (rule ids_ok_frame)
next
  case (link s R src dst)
  from link.prems show ?case by (rule ids_ok_frame) (simp_all add: ids_frame(1) live_mode record_views)
next
  case (unlink s R src dst)
  from unlink.prems ids_frame(2) unrecord_live show ?case by (rule ids_ok_frame)
next
  case (release i s mem n s' mem' R)
  from release.prems release.hyps(2) recycled_decref [OF release.hyps(1)] show ?case by (rule ids_ok_free)
next
  case (drop_group members s mem n s' mem' R)
  have "free_cascade pf [members] s mem 0 = Some (n, s', mem')"
    using drop_group.hyps(1) by (simp add: free_region_group_def free_region_set_def)
  from drop_group.prems drop_group.hyps(2) recycled_cascade [OF this] show ?case by (rule ids_ok_free)
qed

interpretation minted: transition_system id_start "id_step pf" ids_ok for pf
  by unfold_locales (auto intro: id_start_ok id_step_ok)

lemma mint_answers:
  assumes "ids_ok (s, R)"
  shows "\<exists>m s'. new_runtime_region_tracked s = Some (m, s')"
proof -
  obtain i s1 where l: "mint_loop s = (i, s1)" by fastforce
  have "2 \<le> i" using mint_loop_result [OF l] ids_okD(2,6) [OF assms] by fastforce
  then show ?thesis using l
    by (simp add: new_runtime_region_tracked_def new_runtime_region_def runtime_region_def)
qed

end
