(* ===== verification/Region_Claims.thy ===== *)
theory Region_Claims
  imports Region_Ids
begin




section \<open>Histories\<close>







section \<open>Releases\<close>





section \<open>Ids\<close>

text \<open>
  C4: Freeing gives ids back exactly once. Whatever a decref frees, in its own subtree or down the
  cascade, the ids that lost their table entry are appended to the free list without repetition,
  their generations are bumped and no other generation changes, and no id becomes live.
\<close>

theorem freed_ids_return_once:
  assumes "decref pf i s mem = Some (n, s', mem')" "length (regions s) \<le> length (generations s)"
  shows "\<exists>gone. free_physical s' = free_physical s @ gone \<and> distinct gone
    \<and> (\<forall>j. is_live s j \<longleftrightarrow> is_live s' j \<or> j \<in> set gone) \<and> (\<forall>j. \<not> (is_live s' j \<and> j \<in> set gone))
    \<and> (\<forall>j. generation_raw s' j = (if j \<in> set gone then wrap_add32 (generation_raw s j) 1 else generation_raw s j))"
proof -
  have bound: "is_live s j \<Longrightarrow> j < length (generations s)" for j
    using assms(2) live_range [of s j] by simp
  obtain L where L: "distinct L" "set L = {j. is_live s j \<and> \<not> is_live s' j}"
    "\<And>j. is_live s' j \<Longrightarrow> is_live s j" "free_physical s' = free_physical s @ L"
    "\<And>j. generation_raw s' j = (if j \<in> set L \<and> j < length (generations s) then wrap_add32 (generation_raw s j) 1 else generation_raw s j)"
    using recycled_decref [OF assms(1)] unfolding recycled_def by blast
  show ?thesis
  proof (intro exI [of _ L] conjI allI)
    show "is_live s j \<longleftrightarrow> is_live s' j \<or> j \<in> set L" for j using L(2) L(3) [of j] by auto
    show "\<not> (is_live s' j \<and> j \<in> set L)" for j using L(2) by simp
    show "generation_raw s' j = (if j \<in> set L then wrap_add32 (generation_raw s j) 1 else generation_raw s j)" for j
      using L(2) bound [of j] by (simp add: L(5))
  qed (use L in auto)
qed

definition lengths_ok :: "region_store \<Rightarrow> bool" where
  "lengths_ok s \<longleftrightarrow> length (regions s) \<le> length (generations s)"

lemma set_entry_lengths: "lengths_ok s \<Longrightarrow> lengths_ok (set_entry i e s)"
  by (simp add: lengths_ok_def set_entry_def)

lemma ensure_lengths: "lengths_ok s \<Longrightarrow> ensure_raw i s = Some s' \<Longrightarrow> lengths_ok s'"
  by (auto simp: ensure_raw_def Let_def lengths_ok_def set_entry_def resize_def split: if_splits)

lemma incref_lengths: "lengths_ok s \<Longrightarrow> incref i s = Some s' \<Longrightarrow> lengths_ok s'"
  by (auto simp: incref_def split: option.splits reclaim.splits intro: set_entry_lengths ensure_lengths)

lemma record_lengths: "lengths_ok s \<Longrightarrow> lengths_ok (record_outgoing a b s)"
  by (simp add: record_outgoing_def upd_entry_def set_entry_lengths split: option.split)

lemma pair_lengths: "length (regions pair_store) \<le> length (generations pair_store)"
proof -
  let ?a = "the (ensure_raw 2 (new_store 4096 8 7))"
  let ?b = "the (ensure_raw 3 ?a)"
  have l: "is_live ?b 3" using ensure_live [OF ensure_the [OF small_ids(2)]] by simp
  have "lengths_ok (new_store 4096 8 7)" by (simp add: lengths_ok_def new_store_def)
  then have "lengths_ok ?b"
    using ensure_lengths [OF _ ensure_the [OF small_ids(1)]] ensure_lengths [OF _ ensure_the [OF small_ids(2)]] by blast
  then have "lengths_ok (the (incref 3 ?b))" by (rule incref_lengths [OF _ incref_the [OF l]])
  then show ?thesis using record_lengths unfolding pair_store_def lengths_ok_def by blast
qed

theorem freed_ids_return_once_witness:
  "\<exists>n s' mem' gone. decref sample_platform 2 pair_store empty_memory = Some (n, s', mem')
    \<and> free_physical s' = free_physical pair_store @ gone \<and> distinct gone"
proof -
  have "safe pair_store (((\<lambda>_. 0)(2 := 1, 3 := 1))(2 := 0)) [2]"
    using unhold_safe [OF reach_safe [OF pair_reach], of 2] by simp
  moreover have "quiet empty_memory" by (simp add: quiet_def empty_memory_def)
  ultimately obtain n s' mem' where d: "decref sample_platform 2 pair_store empty_memory = Some (n, s', mem')"
    using decref_op_safe by blast
  then show ?thesis using freed_ids_return_once [OF d pair_lengths] by blast
qed


lemma first_mint: "new_runtime_region_tracked (new_store 4096 8 7) =
  Some (\<lparr>mint_region = 2, mint_gen = 0\<rparr>, (new_store 4096 8 7)\<lparr>next_physical := 3\<rparr>)"
  by (simp add: new_runtime_region_tracked_def new_runtime_region_def mint_loop.simps new_store_def
      is_live_def entry_at_def log_mint_def runtime_region_def generation_raw_def)


text \<open>
  C13: The once is the caller's. A receipt is a plain copyable value, and the store checks only that
  its id is dead and of the same generation: recycling one unmaterialized receipt twice puts its id
  on the free list twice, and the next two mints answer that same id.
\<close>

theorem receipt_recycled_twice:
  assumes "new_runtime_region_tracked s = Some (m, s1)"
  shows "\<exists>s2 s3. new_runtime_region (recycle_unmaterialized m (recycle_unmaterialized m s1)) = Some (mint_region m, s2)
    \<and> new_runtime_region s2 = Some (mint_region m, s3)"
proof -
  let ?i = "mint_region m"
  note M = mint_result [OF assms]
  have dead: "\<not> is_live s1 ?i" using M(1,6) is_live_regions [of s1 s] by simp
  have gen: "generation_raw s1 ?i = mint_gen m" using M(2,5) by (simp add: generation_raw_def)
  have l: "is_live (s1\<lparr>free_physical := x\<rparr>) ?i = is_live s1 ?i"
    "generation_raw (s1\<lparr>free_physical := x\<rparr>) ?i = generation_raw s1 ?i" for x
    by (simp_all add: is_live_def entry_at_def generation_raw_def)
  have r: "recycle_unmaterialized m (recycle_unmaterialized m s1)
      = s1\<lparr>free_physical := free_physical s1 @ [?i, ?i]\<rparr>"
    using dead gen by (simp add: recycle_unmaterialized_def vpush_def l)
  have pop: "new_runtime_region t = Some (?i, log_mint ?i (t\<lparr>free_physical := rest\<rparr>))"
    if "free_physical t = rest @ [?i]" "regions t = regions s1" for t rest
  proof -
    have "\<not> is_live (t\<lparr>free_physical := rest\<rparr>) ?i" using dead that(2) is_live_regions [of "t\<lparr>free_physical := rest\<rparr>" s1] by simp
    then show ?thesis using that(1) M(4)
      by (simp add: new_runtime_region_def mint_loop.simps [of t] runtime_region_def)
  qed
  have log: "free_physical (log_mint j t) = free_physical t" "regions (log_mint j t) = regions t" for j t
    by (simp_all add: log_mint_def split: option.split)
  show ?thesis unfolding r using pop [of _ "free_physical s1 @ [?i]"] pop [of _ "free_physical s1"]
    by (simp add: log)
qed

theorem receipt_recycled_twice_witness:
  "\<exists>s2 s3. new_runtime_region (recycle_unmaterialized \<lparr>mint_region = 2, mint_gen = 0\<rparr>
      (recycle_unmaterialized \<lparr>mint_region = 2, mint_gen = 0\<rparr> ((new_store 4096 8 7)\<lparr>next_physical := 3\<rparr>))) = Some (2, s2)
    \<and> new_runtime_region s2 = Some (2, s3)"
  using receipt_recycled_twice [OF first_mint] by simp

end
