(* ===== verification/Match_Patterns.thy ===== *)
theory Match_Patterns
  imports Signal_Registry
begin

text \<open>
  The patterns of \<^verbatim>\<open>match\<close> (\<^verbatim>\<open>hir/pattern.rs\<close>), the values they are tried on, and the sequential
  matching that \<^verbatim>\<open>lir/lower/pattern/matching.rs\<close>, \<^verbatim>\<open>seq.rs\<close> and \<^verbatim>\<open>keyed.rs\<close> emit. A value is the
  part of a heap value a pattern can see: its kind and its components. Floats are their 64 bits;
  a keyword is the hash of its name. \<^verbatim>\<open>NamedStruct\<close>, which no \<^verbatim>\<open>match\<close> pattern contains, is left
  out of the pattern type.
\<close>

section \<open>Numbers\<close>

definition f64_nan :: "64 word \<Rightarrow> bool" where
  "f64_nan b \<longleftrightarrow> 0x7FF0000000000000 < (b AND 0x7FFFFFFFFFFFFFFF)"

definition f64_zero :: "64 word \<Rightarrow> bool" where
  "f64_zero b \<longleftrightarrow> (b AND 0x7FFFFFFFFFFFFFFF) = 0"

text \<open>\<^verbatim>\<open>==\<close> on \<^verbatim>\<open>f64\<close>.\<close>

definition f64_eq :: "64 word \<Rightarrow> 64 word \<Rightarrow> bool" where
  "f64_eq a b \<longleftrightarrow> \<not> f64_nan a \<and> \<not> f64_nan b \<and> (a = b \<or> f64_zero a \<and> f64_zero b)"

lemma f64_eq_sym: "f64_eq a b = f64_eq b a"
  by (auto simp: f64_eq_def)

lemma f64_eq_trans: "f64_eq a b \<Longrightarrow> f64_eq b c \<Longrightarrow> f64_eq a c"
  by (auto simp: f64_eq_def)

fun bit_length :: "nat \<Rightarrow> nat" where
  "bit_length n = (if n = 0 then 0 else Suc (bit_length (n div 2)))"

declare bit_length.simps [simp del]

text \<open>\<^verbatim>\<open>i as f64\<close>: to the nearest double, ties to even.\<close>

definition f64_of_int :: "int \<Rightarrow> 64 word" where
  "f64_of_int i =
     (let n = nat \<bar>i\<bar>; e = bit_length n - 1; sign = (if i < 0 then 2 ^ 63 else 0) in
      if n = 0 then 0
      else if e \<le> 52 then word_of_nat (sign + (e + 1023) * 2 ^ 52 + (n * 2 ^ (52 - e) - 2 ^ 52))
      else
        (let q = n div 2 ^ (e - 52); r = n mod 2 ^ (e - 52); half = 2 ^ (e - 53);
             q' = (if half < r \<or> r = half \<and> odd q then q + 1 else q)
         in word_of_nat (sign + (e + 1023) * 2 ^ 52 + (q' - 2 ^ 52))))"

section \<open>Values\<close>

datatype mkey = KeyKeyword "64 word" | KeySymbol "64 word" | KeyOther nat

datatype mvalue =
    VNil
  | VEmptyList
  | VBool bool
  | VInt int
  | VFloat "64 word"
  | VKeyword "64 word"
  | VString string
  | VStringMut string
  | VPair mvalue mvalue
  | VArray "mvalue list"
  | VArrayMut "mvalue list"
  | VStruct "(mkey \<times> mvalue) list"
  | VStructMut "(mkey \<times> mvalue) list"
  | VSet "mvalue list"
  | VSetMut "mvalue list"
  | VOther nat

section \<open>Patterns\<close>

datatype pattern_literal =
    LBool bool | LInt int | LFloat "64 word" | LString string | LKeyword string

text \<open>The derived \<^verbatim>\<open>PartialEq\<close>: floats compare as numbers.\<close>

definition literal_eq :: "pattern_literal \<Rightarrow> pattern_literal \<Rightarrow> bool" where
  "literal_eq a b = (case (a, b) of (LFloat x, LFloat y) \<Rightarrow> f64_eq x y | _ \<Rightarrow> a = b)"

datatype pattern_key = PKeyword string | PSymbol "64 word"

datatype hir_pattern =
    Wildcard
  | PNil
  | PLiteral pattern_literal
  | PVar nat
  | PPair hir_pattern hir_pattern
  | PList "hir_pattern list" "hir_pattern option"
  | PTuple "hir_pattern list" "hir_pattern option"
  | PArray "hir_pattern list" "hir_pattern option"
  | PStruct "(pattern_key \<times> hir_pattern) list" "hir_pattern option"
  | PTable "(pattern_key \<times> hir_pattern) list" "hir_pattern option"
  | PSet hir_pattern
  | PSetMut hir_pattern
  | POr "hir_pattern list"

fun is_irrefutable :: "hir_pattern \<Rightarrow> bool" where
  "is_irrefutable Wildcard = True"
| "is_irrefutable (PVar b) = True"
| "is_irrefutable (POr alts) = list_ex is_irrefutable alts"
| "is_irrefutable p = False"

section \<open>The instructions a match runs\<close>

definition as_pair :: "mvalue \<Rightarrow> (mvalue \<times> mvalue) option" where
  "as_pair v = (case v of VPair a d \<Rightarrow> Some (a, d) | _ \<Rightarrow> None)"

definition as_array :: "mvalue \<Rightarrow> mvalue list option" where
  "as_array v = (case v of VArray xs \<Rightarrow> Some xs | _ \<Rightarrow> None)"

definition as_array_mut :: "mvalue \<Rightarrow> mvalue list option" where
  "as_array_mut v = (case v of VArrayMut xs \<Rightarrow> Some xs | _ \<Rightarrow> None)"

definition as_struct :: "mvalue \<Rightarrow> (mkey \<times> mvalue) list option" where
  "as_struct v = (case v of VStruct fs \<Rightarrow> Some fs | _ \<Rightarrow> None)"

definition as_struct_mut :: "mvalue \<Rightarrow> (mkey \<times> mvalue) list option" where
  "as_struct_mut v = (case v of VStructMut fs \<Rightarrow> Some fs | _ \<Rightarrow> None)"

definition is_set :: "mvalue \<Rightarrow> bool" where
  "is_set v = (case v of VSet xs \<Rightarrow> True | _ \<Rightarrow> False)"

definition is_set_mut :: "mvalue \<Rightarrow> bool" where
  "is_set_mut v = (case v of VSetMut xs \<Rightarrow> True | _ \<Rightarrow> False)"

text \<open>The comparison of a value with a pattern literal: the language's \<^verbatim>\<open>=\<close>.\<close>

definition as_number :: "mvalue \<Rightarrow> 64 word option" where
  "as_number v = (case v of VInt i \<Rightarrow> Some (f64_of_int i) | VFloat f \<Rightarrow> Some f | _ \<Rightarrow> None)"

definition number_test :: "mvalue \<Rightarrow> 64 word \<Rightarrow> bool" where
  "number_test v f = (case as_number v of None \<Rightarrow> False | Some g \<Rightarrow> f64_eq g f)"

definition literal_test :: "mvalue \<Rightarrow> pattern_literal \<Rightarrow> bool" where
  "literal_test v l =
     (case l of
        LBool b \<Rightarrow> v = VBool b
      | LInt j \<Rightarrow> (case v of VInt i \<Rightarrow> i = j | _ \<Rightarrow> number_test v (f64_of_int j))
      | LFloat f \<Rightarrow> number_test v f
      | LString s \<Rightarrow> v = VString s \<or> v = VStringMut s
      | LKeyword k \<Rightarrow> v = VKeyword (name_hash k))"

definition pattern_key_const :: "pattern_key \<Rightarrow> mkey" where
  "pattern_key_const k = (case k of PKeyword s \<Rightarrow> KeyKeyword (name_hash s) | PSymbol i \<Rightarrow> KeySymbol i)"

definition struct_get_or_nil :: "mvalue \<Rightarrow> pattern_key \<Rightarrow> mvalue" where
  "struct_get_or_nil v k =
     (let get = (\<lambda>fs. map_of fs (pattern_key_const k)) in
      case Option.bind (as_struct v) get of
        Some x \<Rightarrow> x
      | None \<Rightarrow> (case Option.bind (as_struct_mut v) get of Some x \<Rightarrow> x | None \<Rightarrow> VNil))"

definition struct_to_list :: "mvalue \<Rightarrow> (mkey \<times> mvalue) list option" where
  "struct_to_list v = (case as_struct_mut v of None \<Rightarrow> as_struct v | Some fs \<Rightarrow> Some fs)"

definition struct_rest :: "mvalue \<Rightarrow> pattern_key list \<Rightarrow> mvalue" where
  "struct_rest v ks =
     VStruct (filter (\<lambda>(k, x). k \<notin> set (map pattern_key_const ks))
       (case struct_to_list v of None \<Rightarrow> [] | Some fs \<Rightarrow> fs))"

definition as_u16 :: "nat \<Rightarrow> nat" where
  "as_u16 i = i mod 65536"

definition array_ref :: "mvalue \<Rightarrow> nat \<Rightarrow> mvalue option" where
  "array_ref v i =
     (case (case as_array_mut v of None \<Rightarrow> as_array v | Some xs \<Rightarrow> Some xs) of
        None \<Rightarrow> None
      | Some xs \<Rightarrow> if as_u16 i < length xs then Some (xs ! as_u16 i) else None)"

definition array_slice_from :: "mvalue \<Rightarrow> nat \<Rightarrow> mvalue option" where
  "array_slice_from v i =
     (case as_array_mut v of
        Some xs \<Rightarrow> Some (VArrayMut (drop (as_u16 i) xs))
      | None \<Rightarrow> map_option (\<lambda>xs. VArray (drop (as_u16 i) xs)) (as_array v))"

section \<open>Sequential matching\<close>

type_synonym env = "(nat \<times> mvalue) list"

datatype 'a attempt = Bound 'a | Mismatch | Signalled

fun bind_attempt :: "'a attempt \<Rightarrow> ('a \<Rightarrow> 'b attempt) \<Rightarrow> 'b attempt" where
  "bind_attempt (Bound x) f = f x"
| "bind_attempt Mismatch f = Mismatch"
| "bind_attempt Signalled f = Signalled"

lemma bind_attempt_cong [fundef_cong]:
  "a = b \<Longrightarrow> (\<And>x. b = Bound x \<Longrightarrow> f x = g x) \<Longrightarrow> bind_attempt a f = bind_attempt b g"
  by (cases b) auto

definition of_load :: "mvalue option \<Rightarrow> mvalue attempt" where
  "of_load x = (case x of None \<Rightarrow> Signalled | Some v \<Rightarrow> Bound v)"

text \<open>Whether the lowering of a pattern's own rest builds the collection.\<close>

fun own_rest_builds :: "hir_pattern \<Rightarrow> bool" where
  "own_rest_builds (PTuple es (Some r)) = (r \<noteq> Wildcard \<or> es = [])"
| "own_rest_builds (PArray es (Some r)) = (r \<noteq> Wildcard \<or> es = [])"
| "own_rest_builds (PStruct es (Some r)) = (r \<noteq> Wildcard)"
| "own_rest_builds (PTable es (Some r)) = (r \<noteq> Wildcard)"
| "own_rest_builds p = False"

definition length_ok :: "nat \<Rightarrow> hir_pattern option \<Rightarrow> mvalue list \<Rightarrow> bool" where
  "length_ok n rest xs = (if rest = None then length xs = n else n \<le> length xs)"

text \<open>
  One pattern against one value, in the order the emitted code tests and binds. An array read
  that signals is \<^const>\<open>Signalled\<close>.
\<close>

function (sequential) lower_pattern_match :: "hir_pattern \<Rightarrow> mvalue \<Rightarrow> env attempt"
  and match_list :: "hir_pattern list \<Rightarrow> hir_pattern option \<Rightarrow> mvalue \<Rightarrow> env attempt"
  and match_elements :: "nat \<Rightarrow> hir_pattern list \<Rightarrow> mvalue \<Rightarrow> env attempt"
  and match_entries :: "(pattern_key \<times> hir_pattern) list \<Rightarrow> mvalue \<Rightarrow> env attempt"
  and match_alternatives :: "hir_pattern list \<Rightarrow> mvalue \<Rightarrow> env attempt"
where
  "lower_pattern_match Wildcard v = Bound []"
| "lower_pattern_match PNil v = (if v = VNil then Bound [] else Mismatch)"
| "lower_pattern_match (PLiteral l) v = (if literal_test v l then Bound [] else Mismatch)"
| "lower_pattern_match (PVar b) v = Bound [(b, v)]"
| "lower_pattern_match (PPair h t) v =
     (case as_pair v of
        Some (a, d) \<Rightarrow>
          bind_attempt (lower_pattern_match h a)
            (\<lambda>e. bind_attempt (lower_pattern_match t d) (\<lambda>f. Bound (e @ f)))
      | None \<Rightarrow> Mismatch)"
| "lower_pattern_match (PList es rest) v = match_list es rest v"
| "lower_pattern_match (PTuple es rest) v =
     (case as_array v of
        Some xs \<Rightarrow>
          if length_ok (length es) rest xs
          then bind_attempt (match_elements 0 es v)
                 (\<lambda>e. case rest of
                    None \<Rightarrow> Bound e
                  | Some r \<Rightarrow>
                      if own_rest_builds (PTuple es rest)
                      then bind_attempt (of_load (array_slice_from v (length es)))
                             (\<lambda>w. bind_attempt (lower_pattern_match r w) (\<lambda>f. Bound (e @ f)))
                      else Bound e)
          else Mismatch
      | None \<Rightarrow> Mismatch)"
| "lower_pattern_match (PArray es rest) v =
     (case as_array_mut v of
        Some xs \<Rightarrow>
          if length_ok (length es) rest xs
          then bind_attempt (match_elements 0 es v)
                 (\<lambda>e. case rest of
                    None \<Rightarrow> Bound e
                  | Some r \<Rightarrow>
                      if own_rest_builds (PArray es rest)
                      then bind_attempt (of_load (array_slice_from v (length es)))
                             (\<lambda>w. bind_attempt (lower_pattern_match r w) (\<lambda>f. Bound (e @ f)))
                      else Bound e)
          else Mismatch
      | None \<Rightarrow> Mismatch)"
| "lower_pattern_match (PStruct es rest) v =
     (case as_struct v of
        Some fs \<Rightarrow>
          bind_attempt (match_entries es v)
            (\<lambda>e. case rest of
               None \<Rightarrow> Bound e
             | Some r \<Rightarrow>
                 if own_rest_builds (PStruct es rest)
                 then bind_attempt (lower_pattern_match r (struct_rest v (map fst es))) (\<lambda>f. Bound (e @ f))
                 else Bound e)
      | None \<Rightarrow> Mismatch)"
| "lower_pattern_match (PTable es rest) v =
     (case as_struct_mut v of
        Some fs \<Rightarrow>
          bind_attempt (match_entries es v)
            (\<lambda>e. case rest of
               None \<Rightarrow> Bound e
             | Some r \<Rightarrow>
                 if own_rest_builds (PTable es rest)
                 then bind_attempt (lower_pattern_match r (struct_rest v (map fst es))) (\<lambda>f. Bound (e @ f))
                 else Bound e)
      | None \<Rightarrow> Mismatch)"
| "lower_pattern_match (PSet p) v = (if is_set v then lower_pattern_match p v else Mismatch)"
| "lower_pattern_match (PSetMut p) v = (if is_set_mut v then lower_pattern_match p v else Mismatch)"
| "lower_pattern_match (POr alts) v = match_alternatives alts v"
| "match_list [] rest v =
     (case rest of
        None \<Rightarrow> if v = VEmptyList then Bound [] else Mismatch
      | Some r \<Rightarrow> lower_pattern_match r v)"
| "match_list (p # ps) rest v =
     (case as_pair v of
        Some (a, d) \<Rightarrow>
          bind_attempt (lower_pattern_match p a)
            (\<lambda>e. bind_attempt (match_list ps rest d) (\<lambda>f. Bound (e @ f)))
      | None \<Rightarrow> Mismatch)"
| "match_elements i [] v = Bound []"
| "match_elements i (p # ps) v =
     bind_attempt (of_load (array_ref v i))
       (\<lambda>w. bind_attempt (lower_pattern_match p w)
          (\<lambda>e. bind_attempt (match_elements (Suc i) ps v) (\<lambda>f. Bound (e @ f))))"
| "match_entries [] v = Bound []"
| "match_entries ((k, p) # es) v =
     bind_attempt (lower_pattern_match p (struct_get_or_nil v k))
       (\<lambda>e. bind_attempt (match_entries es v) (\<lambda>f. Bound (e @ f)))"
| "match_alternatives [] v = Mismatch"
| "match_alternatives (p # ps) v =
     (case lower_pattern_match p v of
        Bound e \<Rightarrow> Bound e
      | Mismatch \<Rightarrow> match_alternatives ps v
      | Signalled \<Rightarrow> Signalled)"
  by pat_completeness auto
termination
  by (relation "measure (case_sum (case_sum (\<lambda>(p, v). size p) (\<lambda>(es, rest, v). size_list size es + size_option size rest))
    (case_sum (\<lambda>(i, es, v). size_list size es) (case_sum (\<lambda>(es, v). size_list (size_prod (\<lambda>_. 0) size) es) (\<lambda>(es, v). size_list size es))))")
    simp_all

end
