(* ===== verification/Match_Spec.thy ===== *)
theory Match_Spec
  imports Match_Patterns
begin

text \<open>
  What it is for a pattern to match: all the ways it can, each with what it binds. Sequential
  matching takes the first of them and never signals.
\<close>

section \<open>The ways a pattern matches\<close>

definition both :: "env list \<Rightarrow> env list \<Rightarrow> env list" where
  "both A B = concat (map (\<lambda>e. map ((@) e) B) A)"

definition elements_of :: "mvalue \<Rightarrow> nat \<Rightarrow> mvalue list" where
  "elements_of v n = map (\<lambda>i. the (array_ref v i)) [0..<n]"

function (sequential) ways :: "hir_pattern \<Rightarrow> mvalue \<Rightarrow> env list"
  and ways_list :: "hir_pattern list \<Rightarrow> hir_pattern option \<Rightarrow> mvalue \<Rightarrow> env list"
  and ways_seq :: "hir_pattern list \<Rightarrow> mvalue list \<Rightarrow> env list"
  and ways_entries :: "(pattern_key \<times> hir_pattern) list \<Rightarrow> mvalue \<Rightarrow> env list"
  and ways_or :: "hir_pattern list \<Rightarrow> mvalue \<Rightarrow> env list"
where
  "ways Wildcard v = [[]]"
| "ways PNil v = (if v = VNil then [[]] else [])"
| "ways (PLiteral l) v = (if literal_test v l then [[]] else [])"
| "ways (PVar b) v = [[(b, v)]]"
| "ways (PPair h t) v = (case as_pair v of None \<Rightarrow> [] | Some (a, d) \<Rightarrow> both (ways h a) (ways t d))"
| "ways (PList es rest) v = ways_list es rest v"
| "ways (PTuple es rest) v =
     (case as_array v of
        None \<Rightarrow> []
      | Some xs \<Rightarrow>
          if length_ok (length es) rest xs
          then both (ways_seq es (elements_of v (length es)))
                 (case rest of None \<Rightarrow> [[]] | Some r \<Rightarrow> ways r (the (array_slice_from v (length es))))
          else [])"
| "ways (PArray es rest) v =
     (case as_array_mut v of
        None \<Rightarrow> []
      | Some xs \<Rightarrow>
          if length_ok (length es) rest xs
          then both (ways_seq es (elements_of v (length es)))
                 (case rest of None \<Rightarrow> [[]] | Some r \<Rightarrow> ways r (the (array_slice_from v (length es))))
          else [])"
| "ways (PStruct es rest) v =
     (case as_struct v of
        None \<Rightarrow> []
      | Some fs \<Rightarrow>
          both (ways_entries es v)
            (case rest of None \<Rightarrow> [[]] | Some r \<Rightarrow> ways r (struct_rest v (map fst es))))"
| "ways (PTable es rest) v =
     (case as_struct_mut v of
        None \<Rightarrow> []
      | Some fs \<Rightarrow>
          both (ways_entries es v)
            (case rest of None \<Rightarrow> [[]] | Some r \<Rightarrow> ways r (struct_rest v (map fst es))))"
| "ways (PSet p) v = (if is_set v then ways p v else [])"
| "ways (PSetMut p) v = (if is_set_mut v then ways p v else [])"
| "ways (POr alts) v = ways_or alts v"
| "ways_list [] rest v = (case rest of None \<Rightarrow> if v = VEmptyList then [[]] else [] | Some r \<Rightarrow> ways r v)"
| "ways_list (p # ps) rest v =
     (case as_pair v of None \<Rightarrow> [] | Some (a, d) \<Rightarrow> both (ways p a) (ways_list ps rest d))"
| "ways_seq [] vs = [[]]"
| "ways_seq (p # ps) [] = []"
| "ways_seq (p # ps) (v # vs) = both (ways p v) (ways_seq ps vs)"
| "ways_entries [] v = [[]]"
| "ways_entries ((k, p) # es) v = both (ways p (struct_get_or_nil v k)) (ways_entries es v)"
| "ways_or [] v = []"
| "ways_or (p # ps) v = ways p v @ ways_or ps v"
  by pat_completeness auto
termination
  by (relation "measure (case_sum (case_sum (\<lambda>(p, v). size p) (\<lambda>(es, rest, v). size_list size es + size_option size rest))
    (case_sum (\<lambda>(es, v). size_list size es) (case_sum (\<lambda>(es, v). size_list (size_prod (\<lambda>_. 0) size) es) (\<lambda>(es, v). size_list size es))))")
    simp_all

section \<open>Sequential matching takes the first way\<close>

definition first_way :: "env list \<Rightarrow> env attempt" where
  "first_way ws = (case ws of [] \<Rightarrow> Mismatch | e # _ \<Rightarrow> Bound e)"

lemma first_way_simps [simp]: "first_way [] = Mismatch" "first_way (e # ws) = Bound e"
  by (simp_all add: first_way_def)

lemma both_Nil [simp]: "both [] B = []" "both A [] = []"
  by (simp_all add: both_def)

lemma both_unit [simp]: "both [[]] B = B" "both A [[]] = A"
  by (simp_all add: both_def map_idI)

lemma first_both:
  "first_way (both A B) = bind_attempt (first_way A) (\<lambda>e. bind_attempt (first_way B) (\<lambda>f. Bound (e @ f)))"
proof (cases B)
  case Nil
  then show ?thesis by (cases A) simp_all
next
  case (Cons f B')
  then show ?thesis by (cases A) (simp_all add: both_def)
qed

lemma first_or: "first_way (A @ B) = (case first_way A of Bound e \<Rightarrow> Bound e | Mismatch \<Rightarrow> first_way B | Signalled \<Rightarrow> Signalled)"
  by (cases A) simp_all

lemma bind_assoc: "bind_attempt (bind_attempt a f) g = bind_attempt a (\<lambda>x. bind_attempt (f x) g)"
  by (cases a) simp_all

lemma bind_Bound [simp]: "bind_attempt a Bound = a"
  by (cases a) simp_all

lemma array_ref_in_range:
  "as_array v = Some xs \<or> as_array_mut v = Some xs \<Longrightarrow> i < length xs \<Longrightarrow> array_ref v i \<noteq> None"
  using mod_less_eq_dividend [of i 65536]
  by (auto simp: array_ref_def as_u16_def as_array_def as_array_mut_def split: mvalue.splits)

lemma slice_loads:
  "as_array v = Some xs \<or> as_array_mut v = Some xs \<Longrightarrow> \<exists>w. array_slice_from v i = Some w"
  by (auto simp: array_slice_from_def split: option.splits)

lemma rest_first:
  assumes "\<And>r. rest = Some r \<Longrightarrow> lower_pattern_match r w = first_way (ways r w)"
    and "rest = None \<or> b \<or> rest = Some Wildcard" and "l = Bound w"
  shows "(case rest of None \<Rightarrow> Bound e
           | Some r \<Rightarrow> if b then bind_attempt l (\<lambda>w. bind_attempt (lower_pattern_match r w) (\<lambda>f. Bound (e @ f)))
                        else Bound e)
    = bind_attempt (first_way (case rest of None \<Rightarrow> [[]] | Some r \<Rightarrow> ways r w)) (\<lambda>f. Bound (e @ f))"
  using assms by (cases rest) auto

lemma elements_first:
  assumes "\<And>p w. p \<in> set es \<Longrightarrow> lower_pattern_match p w = first_way (ways p w)"
    and "\<And>j. i \<le> j \<Longrightarrow> j < i + length es \<Longrightarrow> array_ref v j \<noteq> None"
  shows "match_elements i es v = first_way (ways_seq es (map (\<lambda>j. the (array_ref v j)) [i..<i + length es]))"
  using assms
proof (induction es arbitrary: i)
  case (Cons p ps)
  have "array_ref v i \<noteq> None" by (rule Cons.prems(2)) simp_all
  then obtain w where w: "array_ref v i = Some w" by blast
  have "match_elements (Suc i) ps v = first_way (ways_seq ps (map (\<lambda>j. the (array_ref v j)) [Suc i..<Suc i + length ps]))"
    by (rule Cons.IH) (use Cons.prems in auto)
  moreover have "[i..<i + length (p # ps)] = i # [Suc i..<Suc i + length ps]" by (simp add: upt_rec)
  ultimately show ?case using Cons.prems(1) [of p] w
    by (simp only: match_elements.simps list.map ways_seq.simps first_both) (simp add: of_load_def)
qed simp

lemma array_first:
  assumes xs: "as_array v = Some xs \<or> as_array_mut v = Some xs" and len: "length_ok (length es) rest xs"
    and el: "\<And>p w. p \<in> set es \<Longrightarrow> lower_pattern_match p w = first_way (ways p w)"
    and r: "\<And>r w. rest = Some r \<Longrightarrow> lower_pattern_match r w = first_way (ways r w)"
    and b: "rest = None \<or> b \<or> rest = Some Wildcard"
  shows "bind_attempt (match_elements 0 es v)
      (\<lambda>e. case rest of None \<Rightarrow> Bound e
         | Some r \<Rightarrow> if b then bind_attempt (of_load (array_slice_from v (length es)))
              (\<lambda>w. bind_attempt (lower_pattern_match r w) (\<lambda>f. Bound (e @ f))) else Bound e)
    = first_way (both (ways_seq es (elements_of v (length es)))
        (case rest of None \<Rightarrow> [[]] | Some r \<Rightarrow> ways r (the (array_slice_from v (length es)))))"
proof -
  obtain w where w: "array_slice_from v (length es) = Some w" using slice_loads [OF xs] by blast
  have "array_ref v j \<noteq> None" if "j < length es" for j
    using array_ref_in_range [OF xs, of j] len that by (auto simp: length_ok_def split: if_splits)
  then have m: "match_elements 0 es v = first_way (ways_seq es (elements_of v (length es)))"
    using elements_first [of es 0 v, OF el] by (simp add: elements_of_def)
  show ?thesis unfolding m first_both
    by (rule bind_attempt_cong [OF refl], rule rest_first) (simp_all add: r b w of_load_def)
qed

lemma entries_first:
  assumes "\<And>k p w. (k, p) \<in> set es \<Longrightarrow> lower_pattern_match p w = first_way (ways p w)"
  shows "match_entries es v = first_way (ways_entries es v)"
  using assms
proof (induction es)
  case (Cons kp es)
  have "match_entries es v = first_way (ways_entries es v)" by (rule Cons.IH) (use Cons.prems in auto)
  then show ?case using Cons.prems [of "fst kp" "snd kp"] by (cases kp) (simp add: first_both)
qed simp

lemma keyed_first:
  assumes m: "match_entries es v = first_way (ways_entries es v)"
    and r: "\<And>r w. rest = Some r \<Longrightarrow> lower_pattern_match r w = first_way (ways r w)"
    and b: "rest = None \<or> b \<or> rest = Some Wildcard"
  shows "bind_attempt (match_entries es v)
      (\<lambda>e. case rest of None \<Rightarrow> Bound e
         | Some r \<Rightarrow> if b then bind_attempt (lower_pattern_match r w) (\<lambda>f. Bound (e @ f)) else Bound e)
    = first_way (both (ways_entries es v) (case rest of None \<Rightarrow> [[]] | Some r \<Rightarrow> ways r w))"
  unfolding m first_both
  by (rule bind_attempt_cong [OF refl]) (use r b in \<open>cases rest; auto\<close>)

lemma list_first:
  assumes "\<And>p w. p \<in> set es \<or> rest = Some p \<Longrightarrow> lower_pattern_match p w = first_way (ways p w)"
  shows "match_list es rest v = first_way (ways_list es rest v)"
  using assms
proof (induction es arbitrary: v)
  case (Cons p ps)
  have "match_list ps rest d = first_way (ways_list ps rest d)" for d
    by (rule Cons.IH) (use Cons.prems in auto)
  then show ?case using Cons.prems [of p] by (auto simp: first_both split: option.split)
qed (auto split: option.split)

lemma or_first:
  assumes "\<And>p w. p \<in> set es \<Longrightarrow> lower_pattern_match p w = first_way (ways p w)"
  shows "match_alternatives es v = first_way (ways_or es v)"
  using assms by (induction es) (auto simp: first_or split: attempt.split)

theorem seq_first: "lower_pattern_match p v = first_way (ways p v)"
proof (induction p arbitrary: v)
  case (PPair h t)
  then show ?case by (auto simp: first_both split: option.split)
next
  case (PList es rest)
  then show ?case using list_first [of es rest v] by (cases rest) auto
next
  case (PTuple es rest)
  have b: "rest = None \<or> own_rest_builds (PTuple es rest) \<or> rest = Some Wildcard" by (cases rest) auto
  have r: "lower_pattern_match r w = first_way (ways r w)" if "rest = Some r" for r w
    using PTuple(2) that by simp
  show ?case
  proof (cases "as_array v")
    case (Some xs)
    show ?thesis using array_first [OF disjI1 [OF Some] _ PTuple(1) r b] Some by simp
  qed simp
next
  case (PArray es rest)
  have b: "rest = None \<or> own_rest_builds (PArray es rest) \<or> rest = Some Wildcard" by (cases rest) auto
  have r: "lower_pattern_match r w = first_way (ways r w)" if "rest = Some r" for r w
    using PArray(2) that by simp
  show ?case
  proof (cases "as_array_mut v")
    case (Some xs)
    show ?thesis using array_first [OF disjI2 [OF Some] _ PArray(1) r b] Some by simp
  qed simp
next
  case (PStruct es rest)
  have "match_entries es v = first_way (ways_entries es v)" by (rule entries_first) (use PStruct(1) in fastforce)
  note k = keyed_first [OF this, of rest "own_rest_builds (PStruct es rest)"]
  have "rest = None \<or> own_rest_builds (PStruct es rest) \<or> rest = Some Wildcard" by (cases rest) auto
  moreover have "lower_pattern_match r w = first_way (ways r w)" if "rest = Some r" for r w
    using PStruct(2) that by simp
  ultimately show ?case by (cases "as_struct v") (simp_all add: k)
next
  case (PTable es rest)
  have "match_entries es v = first_way (ways_entries es v)" by (rule entries_first) (use PTable(1) in fastforce)
  note k = keyed_first [OF this, of rest "own_rest_builds (PTable es rest)"]
  have "rest = None \<or> own_rest_builds (PTable es rest) \<or> rest = Some Wildcard" by (cases rest) auto
  moreover have "lower_pattern_match r w = first_way (ways r w)" if "rest = Some r" for r w
    using PTable(2) that by simp
  ultimately show ?case by (cases "as_struct_mut v") (simp_all add: k)
next
  case (POr alts)
  then show ?case using or_first [of alts v] by simp
qed simp_all

end
