(* ===== verification/Match_Tree.thy ===== *)
theory Match_Tree
  imports Match_Patterns "HOL-Library.Multiset_Order"
begin

text \<open>
  The decision-tree compiler (\<^verbatim>\<open>hir/decision/mod.rs\<close>, \<^verbatim>\<open>algo.rs\<close> and \<^verbatim>\<open>constructors.rs\<close>). An operation
  that indexes past a row's end panics, and answers \<^const>\<open>None\<close>.
\<close>

section \<open>Data\<close>

datatype access_path =
    Root
  | First access_path
  | Rest access_path
  | Index access_path nat
  | Slice access_path nat
  | Key access_path pattern_key
  | StructRest access_path "pattern_key list"

datatype ctor =
    CLiteral pattern_literal
  | CPair
  | CNil
  | CEmptyList
  | CArray nat
  | CArrayRest nat
  | CArrayMut nat
  | CArrayMutRest nat
  | CStruct "pattern_key list"
  | CTable "pattern_key list"
  | CSet
  | CSetMut

definition ctor_eq :: "ctor \<Rightarrow> ctor \<Rightarrow> bool" where
  "ctor_eq c d = (case (c, d) of (CLiteral a, CLiteral b) \<Rightarrow> literal_eq a b | _ \<Rightarrow> c = d)"

fun arity :: "ctor \<Rightarrow> nat" where
  "arity (CLiteral l) = 0"
| "arity CNil = 0"
| "arity CEmptyList = 0"
| "arity CPair = 2"
| "arity (CArray n) = n"
| "arity (CArrayMut n) = n"
| "arity (CArrayRest n) = n + 1"
| "arity (CArrayMutRest n) = n + 1"
| "arity (CStruct ks) = length ks"
| "arity (CTable ks) = length ks"
| "arity CSet = 1"
| "arity CSetMut = 1"

type_synonym bindings = "(nat \<times> access_path) list"

record pattern_row =
  row_patterns :: "hir_pattern list"
  has_guard :: bool
  arm_index :: nat
  row_bindings :: bindings

datatype decision_tree =
    Leaf nat bindings
  | Fail
  | Switch access_path "(ctor \<times> decision_tree) list" "decision_tree option"
  | Guard nat bindings decision_tree

definition row_new :: "hir_pattern list \<Rightarrow> bool \<Rightarrow> nat \<Rightarrow> pattern_row" where
  "row_new ps g i = \<lparr>row_patterns = ps, has_guard = g, arm_index = i, row_bindings = []\<rparr>"

fun expand_or_pattern :: "hir_pattern \<Rightarrow> hir_pattern list" where
  "expand_or_pattern (POr alts) = concat (map expand_or_pattern alts)"
| "expand_or_pattern p = [p]"

text \<open>An arm is its pattern and whether it has a guard; the bodies play no part.\<close>

type_synonym arm = "hir_pattern \<times> bool"

definition from_arms :: "arm list \<Rightarrow> pattern_row list" where
  "from_arms arms =
     concat (map (\<lambda>(i, p, g). map (\<lambda>q. row_new [q] g i) (expand_or_pattern p)) (enumerate 0 arms))"

section \<open>Constructors of a column\<close>

definition is_wildcard :: "hir_pattern \<Rightarrow> bool" where
  "is_wildcard p = (case p of Wildcard \<Rightarrow> True | PVar b \<Rightarrow> True | _ \<Rightarrow> False)"

fun pattern_constructor :: "hir_pattern \<Rightarrow> ctor option" where
  "pattern_constructor Wildcard = None"
| "pattern_constructor (PVar b) = None"
| "pattern_constructor PNil = Some CNil"
| "pattern_constructor (PLiteral l) = Some (CLiteral l)"
| "pattern_constructor (PPair h t) = Some CPair"
| "pattern_constructor (PList es rest) =
     (if es = [] \<and> rest = None then Some CEmptyList else Some CPair)"
| "pattern_constructor (PTuple es rest) =
     (if rest \<noteq> None then Some (CArrayRest (length es)) else Some (CArray (length es)))"
| "pattern_constructor (PArray es rest) =
     (if rest \<noteq> None then Some (CArrayMutRest (length es)) else Some (CArrayMut (length es)))"
| "pattern_constructor (PStruct es rest) = Some (CStruct (map fst es))"
| "pattern_constructor (PTable es rest) = Some (CTable (map fst es))"
| "pattern_constructor (PSet p) = Some CSet"
| "pattern_constructor (PSetMut p) = Some CSetMut"
| "pattern_constructor (POr alts) = None"

text \<open>
  The set a column's constructors are counted in. A member is found by its hash, which reads a
  float's bits, and by \<^verbatim>\<open>==\<close>: the two zeros count twice, and so does a repeated NaN.
\<close>

definition set_insert :: "ctor \<Rightarrow> ctor list \<Rightarrow> ctor list" where
  "set_insert c out = (if list_ex (\<lambda>d. d = c \<and> ctor_eq d c) out then out else out @ [c])"

fun collect_constructors_for_column :: "hir_pattern \<Rightarrow> ctor list \<Rightarrow> ctor list" where
  "collect_constructors_for_column (POr alts) out = fold collect_constructors_for_column alts out"
| "collect_constructors_for_column p out =
     (case pattern_constructor p of None \<Rightarrow> out | Some c \<Rightarrow> set_insert c out)"

fun collect_constructors_from_pattern :: "hir_pattern \<Rightarrow> ctor list \<Rightarrow> ctor list" where
  "collect_constructors_from_pattern (POr alts) seen = fold collect_constructors_from_pattern alts seen"
| "collect_constructors_from_pattern p seen =
     (case pattern_constructor p of
        None \<Rightarrow> seen
      | Some c \<Rightarrow> if list_ex (\<lambda>s. ctor_eq s c) seen then seen else vpush seen c)"

definition struct_keys :: "ctor \<Rightarrow> pattern_key list option" where
  "struct_keys c = (case c of CStruct ks \<Rightarrow> Some ks | _ \<Rightarrow> None)"

definition table_keys :: "ctor \<Rightarrow> pattern_key list option" where
  "table_keys c = (case c of CTable ks \<Rightarrow> Some ks | _ \<Rightarrow> None)"

definition add_key :: "pattern_key \<Rightarrow> pattern_key list \<Rightarrow> pattern_key list" where
  "add_key k acc = (if k \<in> set acc then acc else vpush acc k)"

fun union_keys :: "(ctor \<Rightarrow> pattern_key list option) \<Rightarrow> ctor list \<Rightarrow> pattern_key list \<Rightarrow> pattern_key list" where
  "union_keys f [] acc = acc"
| "union_keys f (c # cs) acc =
     union_keys f cs (case f c of None \<Rightarrow> acc | Some ks \<Rightarrow> fold add_key ks acc)"

definition merge_keys ::
  "(ctor \<Rightarrow> pattern_key list option) \<Rightarrow> (pattern_key list \<Rightarrow> ctor) \<Rightarrow> ctor list \<Rightarrow> ctor list" where
  "merge_keys f mk cs =
     (if list_ex (\<lambda>c. f c \<noteq> None) cs
      then vpush (filter (\<lambda>c. f c = None) cs) (mk (union_keys f cs []))
      else cs)"

definition merge_struct_table_constructors :: "ctor list \<Rightarrow> ctor list" where
  "merge_struct_table_constructors cs = merge_keys table_keys CTable (merge_keys struct_keys CStruct cs)"

definition short_row :: "nat \<Rightarrow> pattern_row list \<Rightarrow> bool" where
  "short_row col rows \<longleftrightarrow> list_ex (\<lambda>r. length (row_patterns r) \<le> col) rows"

definition collect_constructors :: "pattern_row list \<Rightarrow> nat \<Rightarrow> ctor list option" where
  "collect_constructors rows col =
     (if short_row col rows then None
      else Some (merge_struct_table_constructors
                   (fold (\<lambda>r. collect_constructors_from_pattern (row_patterns r ! col)) rows [])))"

text \<open>The column with the most distinct constructors.\<close>

definition column_count :: "pattern_row list \<Rightarrow> nat \<Rightarrow> nat" where
  "column_count rows col =
     length (fold (\<lambda>r. collect_constructors_for_column (row_patterns r ! col)) rows [])"

fun best_column :: "pattern_row list \<Rightarrow> nat list \<Rightarrow> nat \<Rightarrow> nat \<Rightarrow> nat" where
  "best_column rows [] best n = best"
| "best_column rows (c # cs) best n =
     (if n < column_count rows c then best_column rows cs c (column_count rows c)
      else best_column rows cs best n)"

definition select_column :: "pattern_row list \<Rightarrow> nat option" where
  "select_column rows =
     (let ncols = (case rows of [] \<Rightarrow> 0 | r # _ \<Rightarrow> length (row_patterns r)) in
      if list_ex (\<lambda>r. length (row_patterns r) < ncols) rows then None
      else Some (best_column rows [0..<ncols] 0 0))"

section \<open>Bindings\<close>

function (sequential) collect_pattern_bindings :: "hir_pattern \<Rightarrow> access_path \<Rightarrow> bindings"
  and collect_spine :: "hir_pattern list \<Rightarrow> hir_pattern option \<Rightarrow> access_path \<Rightarrow> bindings"
  and collect_elements :: "nat \<Rightarrow> hir_pattern list \<Rightarrow> access_path \<Rightarrow> bindings"
  and collect_entries :: "(pattern_key \<times> hir_pattern) list \<Rightarrow> access_path \<Rightarrow> bindings"
where
  "collect_pattern_bindings (PVar b) a = [(b, a)]"
| "collect_pattern_bindings Wildcard a = []"
| "collect_pattern_bindings PNil a = []"
| "collect_pattern_bindings (PLiteral l) a = []"
| "collect_pattern_bindings (PPair h t) a =
     collect_pattern_bindings h (First a) @ collect_pattern_bindings t (Rest a)"
| "collect_pattern_bindings (PList es rest) a = collect_spine es rest a"
| "collect_pattern_bindings (PTuple es rest) a =
     collect_elements 0 es a
     @ (case rest of None \<Rightarrow> [] | Some r \<Rightarrow> collect_pattern_bindings r (Slice a (length es)))"
| "collect_pattern_bindings (PArray es rest) a =
     collect_elements 0 es a
     @ (case rest of None \<Rightarrow> [] | Some r \<Rightarrow> collect_pattern_bindings r (Slice a (length es)))"
| "collect_pattern_bindings (PStruct es rest) a =
     collect_entries es a
     @ (case rest of None \<Rightarrow> [] | Some r \<Rightarrow> collect_pattern_bindings r (StructRest a (map fst es)))"
| "collect_pattern_bindings (PTable es rest) a =
     collect_entries es a
     @ (case rest of None \<Rightarrow> [] | Some r \<Rightarrow> collect_pattern_bindings r (StructRest a (map fst es)))"
| "collect_pattern_bindings (PSet p) a = collect_pattern_bindings p a"
| "collect_pattern_bindings (PSetMut p) a = collect_pattern_bindings p a"
| "collect_pattern_bindings (POr []) a = []"
| "collect_pattern_bindings (POr (p # ps)) a = collect_pattern_bindings p a"
| "collect_spine [] rest a = (case rest of None \<Rightarrow> [] | Some r \<Rightarrow> collect_pattern_bindings r a)"
| "collect_spine (p # ps) rest a = collect_pattern_bindings p (First a) @ collect_spine ps rest (Rest a)"
| "collect_elements i [] a = []"
| "collect_elements i (p # ps) a = collect_pattern_bindings p (Index a i) @ collect_elements (Suc i) ps a"
| "collect_entries [] a = []"
| "collect_entries ((k, p) # es) a = collect_pattern_bindings p (Key a k) @ collect_entries es a"
  by pat_completeness auto
termination
  by (relation "measure (case_sum (case_sum (\<lambda>(p, a). size p) (\<lambda>(es, rest, a). size_list size es + size_option size rest))
    (case_sum (\<lambda>(i, es, a). size_list size es) (\<lambda>(es, a). size_list (size_prod (\<lambda>_. 0) size) es)))")
    simp_all

section \<open>Specialization\<close>

text \<open>
  The children of a matrix: the rows that a constructor leaves, with its sub-patterns in place of
  the column, and the rows of the default case.
\<close>

definition constructor_compatible :: "ctor \<Rightarrow> ctor \<Rightarrow> bool" where
  "constructor_compatible c target =
     (case (c, target) of
        (CStruct _, CStruct _) \<Rightarrow> True
      | (CTable _, CTable _) \<Rightarrow> True
      | _ \<Rightarrow> ctor_eq c target)"

definition entry_pattern :: "(pattern_key \<times> hir_pattern) list \<Rightarrow> pattern_key \<Rightarrow> hir_pattern" where
  "entry_pattern es k = (case find (\<lambda>(j, p). j = k) es of None \<Rightarrow> Wildcard | Some (j, p) \<Rightarrow> p)"

definition keyed_sub_patterns :: "(pattern_key \<times> hir_pattern) list \<Rightarrow> ctor \<Rightarrow> hir_pattern list" where
  "keyed_sub_patterns es c =
     (case c of
        CStruct ks \<Rightarrow> map (entry_pattern es) ks
      | CTable ks \<Rightarrow> map (entry_pattern es) ks
      | _ \<Rightarrow> map snd es)"

definition array_sub_patterns :: "hir_pattern list \<Rightarrow> hir_pattern option \<Rightarrow> ctor \<Rightarrow> hir_pattern list" where
  "array_sub_patterns es rest c =
     (case c of
        CArrayRest n \<Rightarrow> vpush es (case rest of None \<Rightarrow> Wildcard | Some r \<Rightarrow> r)
      | CArrayMutRest n \<Rightarrow> vpush es (case rest of None \<Rightarrow> Wildcard | Some r \<Rightarrow> r)
      | _ \<Rightarrow> es)"

fun extract_sub_patterns :: "hir_pattern \<Rightarrow> ctor \<Rightarrow> hir_pattern list" where
  "extract_sub_patterns Wildcard c = replicate (arity c) Wildcard"
| "extract_sub_patterns (PVar b) c = replicate (arity c) Wildcard"
| "extract_sub_patterns (PPair h t) c = [h, t]"
| "extract_sub_patterns (PList [] rest) c = []"
| "extract_sub_patterns (PList [p] rest) c = [p, (case rest of None \<Rightarrow> PList [] None | Some r \<Rightarrow> r)]"
| "extract_sub_patterns (PList (p # q # ps) rest) c = [p, PList (q # ps) rest]"
| "extract_sub_patterns (PTuple es rest) c = array_sub_patterns es rest c"
| "extract_sub_patterns (PArray es rest) c = array_sub_patterns es rest c"
| "extract_sub_patterns (PStruct es rest) c = keyed_sub_patterns es c"
| "extract_sub_patterns (PTable es rest) c = keyed_sub_patterns es c"
| "extract_sub_patterns (PSet p) c = [p]"
| "extract_sub_patterns (PSetMut p) c = [p]"
| "extract_sub_patterns p c = []"

definition var_binding :: "hir_pattern \<Rightarrow> access_path \<Rightarrow> bindings" where
  "var_binding p a = (case p of PVar b \<Rightarrow> [(b, a)] | _ \<Rightarrow> [])"

definition rest_bindings :: "hir_pattern \<Rightarrow> access_path \<Rightarrow> bindings" where
  "rest_bindings p a =
     (case p of
        PStruct es (Some r) \<Rightarrow> collect_pattern_bindings r (StructRest a (map fst es))
      | PTable es (Some r) \<Rightarrow> collect_pattern_bindings r (StructRest a (map fst es))
      | _ \<Rightarrow> [])"

definition row_with :: "pattern_row \<Rightarrow> nat \<Rightarrow> hir_pattern list \<Rightarrow> bindings \<Rightarrow> pattern_row" where
  "row_with r col sub bs =
     r\<lparr>row_patterns := take col (row_patterns r) @ sub @ drop (col + 1) (row_patterns r),
       row_bindings := row_bindings r @ bs\<rparr>"

definition has_constructor :: "hir_pattern \<Rightarrow> ctor \<Rightarrow> bool" where
  "has_constructor p c =
     (case pattern_constructor p of None \<Rightarrow> False | Some d \<Rightarrow> constructor_compatible d c)"

definition specialize_row :: "nat \<Rightarrow> ctor \<Rightarrow> access_path \<Rightarrow> pattern_row \<Rightarrow> pattern_row list" where
  "specialize_row col c a r =
     (let p = row_patterns r ! col in
      if is_wildcard p then [row_with r col (replicate (arity c) Wildcard) (var_binding p a)]
      else (case p of
              POr alts \<Rightarrow>
                map (\<lambda>alt. row_with r col (extract_sub_patterns alt c) (var_binding alt a))
                  (filter (\<lambda>alt. is_wildcard alt \<or> has_constructor alt c) alts)
            | _ \<Rightarrow>
                if has_constructor p c
                then [row_with r col (extract_sub_patterns p c) (rest_bindings p a)]
                else []))"

definition specialize ::
  "pattern_row list \<Rightarrow> nat \<Rightarrow> ctor \<Rightarrow> access_path \<Rightarrow> pattern_row list option" where
  "specialize rows col c a =
     (if short_row col rows then None else Some (concat (map (specialize_row col c a) rows)))"

definition default_matrix :: "pattern_row list \<Rightarrow> nat \<Rightarrow> access_path \<Rightarrow> pattern_row list option" where
  "default_matrix rows col a =
     (if short_row col rows then None
      else Some (map (\<lambda>r. row_with r col [] (var_binding (row_patterns r ! col) a))
                   (filter (\<lambda>r. is_wildcard (row_patterns r ! col)) rows)))"

definition sub_access :: "access_path \<Rightarrow> ctor \<Rightarrow> access_path list" where
  "sub_access a c =
     (case c of
        CPair \<Rightarrow> [First a, Rest a]
      | CArray n \<Rightarrow> map (Index a) [0..<n]
      | CArrayMut n \<Rightarrow> map (Index a) [0..<n]
      | CArrayRest n \<Rightarrow> map (Index a) [0..<n] @ [Slice a n]
      | CArrayMutRest n \<Rightarrow> map (Index a) [0..<n] @ [Slice a n]
      | CStruct ks \<Rightarrow> map (Key a) ks
      | CTable ks \<Rightarrow> map (Key a) ks
      | CSet \<Rightarrow> [a]
      | CSetMut \<Rightarrow> [a]
      | _ \<Rightarrow> [])"

definition expand_access :: "access_path list \<Rightarrow> nat \<Rightarrow> ctor \<Rightarrow> access_path list" where
  "expand_access acc col c = take col acc @ sub_access (acc ! col) c @ drop (col + 1) acc"

definition remove_column :: "access_path list \<Rightarrow> nat \<Rightarrow> access_path list" where
  "remove_column acc col = take col acc @ drop (col + 1) acc"

section \<open>A measure\<close>

text \<open>
  Splitting a column replaces each row that is not a wildcard there by rows of smaller patterns
  and keeps the size of the others; the default case drops a column.
\<close>

fun weight :: "hir_pattern \<Rightarrow> nat" where
  "weight Wildcard = 0"
| "weight (PVar b) = 0"
| "weight PNil = 1"
| "weight (PLiteral l) = 1"
| "weight (PPair h t) = Suc (weight h + weight t)"
| "weight (PList es rest) =
     Suc (sum_list (map (\<lambda>p. Suc (weight p)) es) + (case rest of None \<Rightarrow> 0 | Some r \<Rightarrow> weight r))"
| "weight (PTuple es rest) =
     Suc (sum_list (map weight es) + (case rest of None \<Rightarrow> 0 | Some r \<Rightarrow> weight r))"
| "weight (PArray es rest) =
     Suc (sum_list (map weight es) + (case rest of None \<Rightarrow> 0 | Some r \<Rightarrow> weight r))"
| "weight (PStruct es rest) =
     Suc (sum_list (map (\<lambda>(k, p). weight p) es) + (case rest of None \<Rightarrow> 0 | Some r \<Rightarrow> weight r))"
| "weight (PTable es rest) =
     Suc (sum_list (map (\<lambda>(k, p). weight p) es) + (case rest of None \<Rightarrow> 0 | Some r \<Rightarrow> weight r))"
| "weight (PSet p) = Suc (weight p)"
| "weight (PSetMut p) = Suc (weight p)"
| "weight (POr alts) = Suc (sum_list (map weight alts))"

definition row_weight :: "pattern_row \<Rightarrow> nat" where
  "row_weight r = sum_list (map weight (row_patterns r))"

lemma row_with_weight:
  assumes "col < length (row_patterns r)"
  shows "row_weight (row_with r col sub bs) + weight (row_patterns r ! col)
    = row_weight r + sum_list (map weight sub)"
proof -
  have "row_patterns r = take col (row_patterns r) @ row_patterns r ! col # drop (col + 1) (row_patterns r)"
    using assms by (simp add: id_take_nth_drop)
  then have "row_weight r = sum_list (map weight (take col (row_patterns r))) + weight (row_patterns r ! col)
      + sum_list (map weight (drop (col + 1) (row_patterns r)))"
    unfolding row_weight_def by (metis (no_types, lifting) add.assoc list.simps(9) map_append sum_list.Cons sum_list_append)
  then show ?thesis by (simp add: row_weight_def row_with_def)
qed

lemma wildcard_weight: "is_wildcard p \<Longrightarrow> weight p = 0"
  by (auto simp: is_wildcard_def split: hir_pattern.splits)

lemma replicate_weight [simp]: "sum_list (map weight (replicate n Wildcard)) = 0"
  by (induction n) simp_all

text \<open>Distinct keys find distinct entries.\<close>

lemma entry_pattern_Cons:
  "entry_pattern ((j, p) # es) k = (if j = k then p else entry_pattern es k)"
  by (simp add: entry_pattern_def)

lemma entries_weight:
  "distinct ks \<Longrightarrow> sum_list (map (\<lambda>k. weight (entry_pattern es k)) ks) \<le> sum_list (map (\<lambda>(k, p). weight p) es)"
proof (induction es arbitrary: ks)
  case Nil
  then show ?case by (induction ks) (simp_all add: entry_pattern_def)
next
  case (Cons jp es)
  obtain j p where jp: "jp = (j, p)" by (cases jp)
  have ih: "sum_list (map (\<lambda>k. weight (entry_pattern es k)) (remove1 j ks)) \<le> sum_list (map (\<lambda>(k, p). weight p) es)"
    using Cons by simp
  have same: "sum_list (map (\<lambda>k. weight (entry_pattern (jp # es) k)) xs) = sum_list (map (\<lambda>k. weight (entry_pattern es k)) xs)"
    if "j \<notin> set xs" for xs using that by (intro arg_cong [where f = sum_list]) (auto simp: jp entry_pattern_Cons)
  show ?case
  proof (cases "j \<in> set ks")
    case True
    have "sum_list (map (\<lambda>k. weight (entry_pattern (jp # es) k)) ks)
        = weight p + sum_list (map (\<lambda>k. weight (entry_pattern (jp # es) k)) (remove1 j ks))"
      using sum_list_map_remove1 [OF True, of "\<lambda>k. weight (entry_pattern (jp # es) k)"]
      by (simp add: jp entry_pattern_Cons)
    moreover have "j \<notin> set (remove1 j ks)" using Cons.prems by simp
    ultimately show ?thesis using ih same [of "remove1 j ks"] by (simp add: jp)
  next
    case False
    then show ?thesis using Cons.IH [OF Cons.prems] same [OF False] by (simp add: jp)
  qed
qed

definition keys_distinct :: "ctor \<Rightarrow> bool" where
  "keys_distinct c = (case c of CStruct ks \<Rightarrow> distinct ks | CTable ks \<Rightarrow> distinct ks | _ \<Rightarrow> True)"

lemma sub_patterns_weight:
  assumes "keys_distinct c" "pattern_constructor p \<noteq> None"
  shows "sum_list (map weight (extract_sub_patterns p c)) < weight p"
proof (cases p)
  case (PList es rest)
  show ?thesis unfolding PList
  proof (cases es)
    case (Cons q qs)
    then show "sum_list (map weight (extract_sub_patterns (PList es rest) c)) < weight (PList es rest)"
      by (cases qs; cases rest) simp_all
  qed simp
next
  case (PStruct es rest)
  show ?thesis using assms(1) entries_weight [of _ es]
    by (auto simp: PStruct keyed_sub_patterns_def keys_distinct_def o_def case_prod_unfold le_imp_less_Suc
        trans_le_add1 split: ctor.splits)
next
  case (PTable es rest)
  show ?thesis using assms(1) entries_weight [of _ es]
    by (auto simp: PTable keyed_sub_patterns_def keys_distinct_def o_def case_prod_unfold le_imp_less_Suc
        trans_le_add1 split: ctor.splits)
qed (use assms in \<open>auto simp: array_sub_patterns_def vpush_def split: ctor.split option.split\<close>)

lemma add_key_distinct: "distinct acc \<Longrightarrow> distinct (fold add_key ks acc)"
  by (induction ks arbitrary: acc) (simp_all add: add_key_def vpush_def)

lemma union_keys_distinct: "distinct acc \<Longrightarrow> distinct (union_keys f cs acc)"
  by (induction cs arbitrary: acc) (simp_all add: add_key_distinct split: option.split)

lemma collected_keys_distinct:
  assumes "collect_constructors rows col = Some cs" "c \<in> set cs"
  shows "keys_distinct c"
  using assms
  by (auto simp: collect_constructors_def merge_struct_table_constructors_def merge_keys_def keys_distinct_def
      struct_keys_def table_keys_def union_keys_distinct vpush_def list_ex_iff split: if_splits ctor.splits)

lemma collect_wild: "is_wildcard p \<Longrightarrow> collect_constructors_from_pattern p seen = seen"
  by (auto simp: is_wildcard_def split: hir_pattern.splits)

lemma collected_nonwild:
  assumes "collect_constructors rows col = Some cs" "cs \<noteq> []"
  shows "\<exists>r \<in> set rows. \<not> is_wildcard (row_patterns r ! col)"
proof (rule ccontr)
  assume "\<not> ?thesis"
  then have "fold (\<lambda>r. collect_constructors_from_pattern (row_patterns r ! col)) rows [] = []"
    by (induction rows) (simp_all add: collect_wild)
  then show False using assms by (auto simp: collect_constructors_def merge_struct_table_constructors_def merge_keys_def split: if_splits)
qed

definition matrix_weight :: "pattern_row list \<Rightarrow> nat multiset" where
  "matrix_weight rows = mset (map row_weight rows)"

lemma specialize_row_weight:
  assumes "keys_distinct c" "col < length (row_patterns r)" "\<not> is_wildcard (row_patterns r ! col)"
    and "s \<in> set (specialize_row col c a r)"
  shows "row_weight s < row_weight r"
proof -
  obtain p sub bs where p: "s = row_with r col sub bs" "sum_list (map weight sub) < weight (row_patterns r ! col)"
  proof (cases "row_patterns r ! col")
    case (POr alts)
    then obtain alt where alt: "alt \<in> set alts" "is_wildcard alt \<or> has_constructor alt c"
      "s = row_with r col (extract_sub_patterns alt c) (var_binding alt a)"
      using assms by (auto simp: specialize_row_def Let_def is_wildcard_def)
    have "weight alt \<le> sum_list (map weight alts)" using alt(1) by (simp add: member_le_sum_list)
    moreover have "sum_list (map weight (extract_sub_patterns alt c)) \<le> weight alt"
    proof (cases "is_wildcard alt")
      case True
      then show ?thesis by (auto simp: is_wildcard_def split: hir_pattern.splits)
    next
      case False
      then show ?thesis using alt(2) sub_patterns_weight [OF assms(1), of alt]
        by (auto simp: has_constructor_def split: option.splits)
    qed
    ultimately show ?thesis using that [OF alt(3)] POr by simp
  qed (use assms sub_patterns_weight [OF assms(1), of "row_patterns r ! col"] that in
      \<open>auto simp: specialize_row_def Let_def has_constructor_def is_wildcard_def split: option.splits if_splits\<close>)
  show ?thesis using row_with_weight [OF assms(2), of sub bs] p by simp
qed

lemma specialize_row_wild:
  assumes "col < length (row_patterns r)" "is_wildcard (row_patterns r ! col)"
  shows "matrix_weight (specialize_row col c a r) = {#row_weight r#}"
  using row_with_weight [OF assms(1), of "replicate (arity c) Wildcard" "var_binding (row_patterns r ! col) a"]
    assms(2) by (simp add: specialize_row_def matrix_weight_def wildcard_weight)

lemma specialize_row_less:
  assumes "keys_distinct c" "col < length (row_patterns r)" "\<not> is_wildcard (row_patterns r ! col)"
  shows "matrix_weight (specialize_row col c a r) < {#row_weight r#}"
  by (rule ex_gt_imp_less_multiset) (use specialize_row_weight [OF assms] in \<open>auto simp: matrix_weight_def\<close>)

lemma specialize_rows_le:
  assumes "keys_distinct c" "\<not> short_row col rows"
  shows "matrix_weight (concat (map (specialize_row col c a) rows)) \<le> matrix_weight rows"
  using assms(2)
proof (induction rows)
  case (Cons r rows)
  have "matrix_weight (specialize_row col c a r) \<le> {#row_weight r#}"
    using Cons.prems specialize_row_less [OF assms(1), of col r a] specialize_row_wild [of col r c a]
    by (cases "is_wildcard (row_patterns r ! col)") (auto simp: short_row_def)
  then have "matrix_weight (specialize_row col c a r) + matrix_weight (concat (map (specialize_row col c a) rows))
      \<le> {#row_weight r#} + matrix_weight rows"
    using Cons by (intro add_mono) (simp_all add: short_row_def)
  then show ?case by (simp add: matrix_weight_def)
qed (simp add: matrix_weight_def)

lemma specialize_less:
  assumes "keys_distinct c" "specialize rows col c a = Some m"
    and "r \<in> set rows" "\<not> is_wildcard (row_patterns r ! col)"
  shows "matrix_weight m < matrix_weight rows"
proof -
  obtain xs ys where rows: "rows = xs @ r # ys" using split_list [OF assms(3)] by blast
  have short: "\<not> short_row col rows" and m: "m = concat (map (specialize_row col c a) rows)"
    using assms(2) by (simp_all add: specialize_def split: if_splits)
  have "matrix_weight (specialize_row col c a r) < {#row_weight r#}"
    using short by (intro specialize_row_less [OF assms(1) _ assms(4)]) (simp add: rows short_row_def)
  moreover have "matrix_weight (concat (map (specialize_row col c a) xs)) \<le> matrix_weight xs"
    "matrix_weight (concat (map (specialize_row col c a) ys)) \<le> matrix_weight ys"
    using short by (auto intro!: specialize_rows_le [OF assms(1)] simp: rows short_row_def)
  ultimately have "matrix_weight (concat (map (specialize_row col c a) xs))
      + (matrix_weight (specialize_row col c a r) + matrix_weight (concat (map (specialize_row col c a) ys)))
      < matrix_weight xs + ({#row_weight r#} + matrix_weight ys)"
    by (intro add_le_less_mono add_less_le_mono)
  then show ?thesis by (simp add: m rows matrix_weight_def add.assoc)
qed

lemma default_weight:
  assumes "default_matrix rows col a = Some m"
  shows "matrix_weight m \<le> matrix_weight rows"
proof -
  have len: "\<not> short_row col rows" and m: "m = map (\<lambda>r. row_with r col [] (var_binding (row_patterns r ! col) a))
      (filter (\<lambda>r. is_wildcard (row_patterns r ! col)) rows)"
    using assms by (simp_all add: default_matrix_def split: if_splits)
  have "row_weight (row_with r col [] (var_binding (row_patterns r ! col) a)) = row_weight r"
    if "r \<in> set rows" "is_wildcard (row_patterns r ! col)" for r
    using row_with_weight [of col r "[]" "var_binding (row_patterns r ! col) a"] that len
    by (auto simp: short_row_def list_ex_iff wildcard_weight)
  then have "map row_weight m = map row_weight (filter (\<lambda>r. is_wildcard (row_patterns r ! col)) rows)"
    unfolding m by (auto intro!: map_cong)
  then have "matrix_weight m = image_mset row_weight (filter_mset (\<lambda>r. is_wildcard (row_patterns r ! col)) (mset rows))"
    unfolding matrix_weight_def by (simp only: mset_map mset_filter)
  moreover have "\<dots> \<subseteq># image_mset row_weight (mset rows)" by (intro image_mset_subseteq_mono multiset_filter_subset)
  ultimately show ?thesis by (simp add: matrix_weight_def subset_eq_imp_le_multiset)
qed

section \<open>Compilation\<close>

definition row_leaf :: "pattern_row \<Rightarrow> access_path list \<Rightarrow> bindings" where
  "row_leaf r acc =
     row_bindings r @ concat (map (\<lambda>(p, a). collect_pattern_bindings p a) (zip (row_patterns r) acc))"

function compile_matrix :: "pattern_row list \<Rightarrow> access_path list \<Rightarrow> decision_tree option" where
  "compile_matrix [] acc = Some Fail"
| "compile_matrix (r # rows) acc =
     (if list_all is_wildcard (row_patterns r)
      then if has_guard r
           then map_option (Guard (arm_index r) (row_leaf r acc)) (compile_matrix rows acc)
           else Some (Leaf (arm_index r) (row_leaf r acc))
      else (case select_column (r # rows) of
              None \<Rightarrow> None
            | Some col \<Rightarrow>
                if length acc \<le> col then None
                else (case (collect_constructors (r # rows) col, default_matrix (r # rows) col (acc ! col)) of
                        (Some ctors, Some dm) \<Rightarrow>
                          (case those (map (\<lambda>c.
                                  case specialize (r # rows) col c (acc ! col) of
                                    None \<Rightarrow> None
                                  | Some m \<Rightarrow> map_option (Pair c) (compile_matrix m (expand_access acc col c)))
                                ctors) of
                             None \<Rightarrow> None
                           | Some cases \<Rightarrow>
                               if dm = [] then Some (Switch (acc ! col) cases None)
                               else map_option (\<lambda>t. Switch (acc ! col) cases (Some t))
                                      (compile_matrix dm (remove_column acc col)))
                      | _ \<Rightarrow> None)))"
  by pat_completeness auto
termination
proof (relation "inv_image ({(x, y). x < y} <*lex*> less_than) (\<lambda>(rows, acc). (matrix_weight rows, length acc))", goal_cases)
  case 1
  show ?case by (intro wf_inv_image wf_lex_prod wf wf_less_than)
next
  case (2 r rows acc)
  then show ?case by (simp add: matrix_weight_def)
next
  case (3 r rows acc col oc od ctors dm c m)
  then have cs: "collect_constructors (r # rows) col = Some ctors" by simp
  moreover have "ctors \<noteq> []" using 3(7) by auto
  ultimately obtain s where "s \<in> set (r # rows)" "\<not> is_wildcard (row_patterns s ! col)"
    using collected_nonwild by blast
  then have "matrix_weight m < matrix_weight (r # rows)"
    by (rule specialize_less [OF collected_keys_distinct [OF cs 3(7)] 3(8)])
  then show ?case by simp
next
  case (4 r rows acc col oc od ctors dm cs)
  then have "default_matrix (r # rows) col (acc ! col) = Some dm" by simp
  then have "matrix_weight dm \<le> matrix_weight (r # rows)" by (rule default_weight)
  moreover have "length (remove_column acc col) < length acc" using 4(3) by (simp add: remove_column_def)
  ultimately show ?case by (auto simp: le_less)
qed

definition compile_match :: "arm list \<Rightarrow> decision_tree option" where
  "compile_match arms = compile_matrix (from_arms arms) [Root]"

section \<open>Reachability\<close>

fun collect_reachable :: "decision_tree \<Rightarrow> nat set \<Rightarrow> nat set" where
  "collect_reachable (Leaf i bs) out = insert i out"
| "collect_reachable Fail out = out"
| "collect_reachable (Switch a cases d) out =
     (let out' = fold (\<lambda>(c, t). collect_reachable t) cases out in
      case d of None \<Rightarrow> out' | Some t \<Rightarrow> collect_reachable t out')"
| "collect_reachable (Guard i bs t) out = collect_reachable t (insert i out)"

definition find_reachable_arms :: "decision_tree \<Rightarrow> nat set" where
  "find_reachable_arms t = collect_reachable t {}"

definition unreachable_arms :: "arm list \<Rightarrow> nat list option" where
  "unreachable_arms arms =
     map_option (\<lambda>t. filter (\<lambda>i. i \<notin> find_reachable_arms t) [0..<length arms]) (compile_match arms)"

section \<open>Running a tree\<close>

text \<open>
  The code \<^verbatim>\<open>lower_decision_tree\<close> emits, on a scrutinee. A run is what it does up to the guards:
  it ends in an arm's body, in \<^verbatim>\<open>:match-error\<close>, or in a signal raised by a load; \<open>Try\<close> evaluates an
  arm's guard and goes on when the guard fails.
\<close>

datatype trail = Done nat env | Try nat env trail | NoMatch | Stuck

fun load_access_path :: "access_path \<Rightarrow> mvalue \<Rightarrow> mvalue option" where
  "load_access_path Root v = Some v"
| "load_access_path (First a) v = Option.bind (load_access_path a v) (\<lambda>w. map_option fst (as_pair w))"
| "load_access_path (Rest a) v = Option.bind (load_access_path a v) (\<lambda>w. map_option snd (as_pair w))"
| "load_access_path (Index a i) v = Option.bind (load_access_path a v) (\<lambda>w. array_ref w i)"
| "load_access_path (Slice a i) v = Option.bind (load_access_path a v) (\<lambda>w. array_slice_from w i)"
| "load_access_path (Key a k) v = map_option (\<lambda>w. struct_get_or_nil w k) (load_access_path a v)"
| "load_access_path (StructRest a ks) v = map_option (\<lambda>w. struct_rest w ks) (load_access_path a v)"

definition emit_constructor_test :: "mvalue \<Rightarrow> ctor \<Rightarrow> bool" where
  "emit_constructor_test v c =
     (case c of
        CLiteral l \<Rightarrow> literal_test v l
      | CPair \<Rightarrow> as_pair v \<noteq> None
      | CNil \<Rightarrow> v = VNil
      | CEmptyList \<Rightarrow> v = VEmptyList
      | CArray n \<Rightarrow> (case as_array v of None \<Rightarrow> False | Some xs \<Rightarrow> length xs = n)
      | CArrayRest n \<Rightarrow> (case as_array v of None \<Rightarrow> False | Some xs \<Rightarrow> n \<le> length xs)
      | CArrayMut n \<Rightarrow> (case as_array_mut v of None \<Rightarrow> False | Some xs \<Rightarrow> length xs = n)
      | CArrayMutRest n \<Rightarrow> (case as_array_mut v of None \<Rightarrow> False | Some xs \<Rightarrow> n \<le> length xs)
      | CStruct ks \<Rightarrow> as_struct v \<noteq> None
      | CTable ks \<Rightarrow> as_struct_mut v \<noteq> None
      | CSet \<Rightarrow> is_set v
      | CSetMut \<Rightarrow> is_set_mut v)"

definition establish :: "bindings \<Rightarrow> mvalue \<Rightarrow> env option" where
  "establish bs v = those (map (\<lambda>(b, a). map_option (Pair b) (load_access_path a v)) bs)"

function (sequential) run_tree :: "decision_tree \<Rightarrow> mvalue \<Rightarrow> trail"
  and run_cases :: "(ctor \<times> decision_tree) list \<Rightarrow> decision_tree option \<Rightarrow> mvalue \<Rightarrow> mvalue \<Rightarrow> trail"
where
  "run_tree Fail v = NoMatch"
| "run_tree (Leaf i bs) v = (case establish bs v of None \<Rightarrow> Stuck | Some e \<Rightarrow> Done i e)"
| "run_tree (Guard i bs t) v = (case establish bs v of None \<Rightarrow> Stuck | Some e \<Rightarrow> Try i e (run_tree t v))"
| "run_tree (Switch a cases d) v =
     (case load_access_path a v of None \<Rightarrow> Stuck | Some w \<Rightarrow> run_cases cases d w v)"
| "run_cases [] d w v = (case d of None \<Rightarrow> NoMatch | Some t \<Rightarrow> run_tree t v)"
| "run_cases ((c, t) # cases) d w v =
     (if emit_constructor_test w c then run_tree t v else run_cases cases d w v)"
  by pat_completeness auto
termination
  by (relation "measure (case_sum (\<lambda>(t, v). size t)
    (\<lambda>(cs, d, w, v). size_list (size_prod (\<lambda>_. 0) size) cs + size_option size d))")
    simp_all

section \<open>Sequential arms\<close>

text \<open>The lowering a guard that may suspend forces: every alternative is tried on its own.\<close>

fun lower_match_sequential :: "(nat \<times> hir_pattern \<times> bool) list \<Rightarrow> mvalue \<Rightarrow> trail" where
  "lower_match_sequential [] v = NoMatch"
| "lower_match_sequential ((i, p, g) # alts) v =
     (case lower_pattern_match p v of
        Signalled \<Rightarrow> Stuck
      | Mismatch \<Rightarrow> lower_match_sequential alts v
      | Bound e \<Rightarrow> if g then Try i e (lower_match_sequential alts v) else Done i e)"

definition alternatives :: "arm list \<Rightarrow> (nat \<times> hir_pattern \<times> bool) list" where
  "alternatives arms =
     concat (map (\<lambda>(i, p, g). map (\<lambda>q. (i, q, g)) (expand_or_pattern p)) (enumerate 0 arms))"

definition lower_match :: "bool \<Rightarrow> arm list \<Rightarrow> mvalue \<Rightarrow> trail option" where
  "lower_match any_guard_yields arms v =
     (if any_guard_yields then Some (lower_match_sequential (alternatives arms) v)
      else map_option (\<lambda>t. run_tree t v) (compile_match arms))"

end
