(* ===== verification/Match_Matrix.thy ===== *)
theory Match_Matrix
  imports Match_Spec Match_Tree
begin

text \<open>
  What a split of the pattern matrix means. A row stands for the ways it can match the values of
  its columns; the rows a constructor leaves stand for the same ways when its test holds, and the
  default rows do when no test of the column holds.
\<close>

section \<open>Solutions\<close>

type_synonym solution = "(nat \<times> mvalue) set"

definition join :: "solution set \<Rightarrow> solution set \<Rightarrow> solution set" where
  "join A B = {a \<union> b |a b. a \<in> A \<and> b \<in> B}"

lemma join_comm: "join A B = join B A"
  unfolding join_def by blast

lemma join_assoc: "join (join A B) C = join A (join B C)"
  unfolding join_def by (rule set_eqI, simp, metis Un_assoc)

lemma join_left_comm: "join A (join B C) = join B (join A C)"
  by (metis join_assoc join_comm)

lemmas join_ac = join_assoc join_comm join_left_comm

lemma join_unit [simp]: "join {{}} B = B" "join A {{}} = A"
  by (auto simp: join_def)

lemma join_empty [simp]: "join {} B = {}" "join A {} = {}"
  by (auto simp: join_def)

lemma join_is_empty [simp]: "join A B = {} \<longleftrightarrow> A = {} \<or> B = {}"
  by (auto simp: join_def)

lemma join_Un: "join (A \<union> A') B = join A B \<union> join A' B"
  by (auto simp: join_def)

lemma join_single: "join {a} {b} = {a \<union> b}"
  by (auto simp: join_def)

definition sol :: "hir_pattern \<Rightarrow> mvalue \<Rightarrow> solution set" where
  "sol p v = set ` set (ways p v)"

definition sols :: "hir_pattern list \<Rightarrow> mvalue list \<Rightarrow> solution set" where
  "sols ps vs = set ` set (ways_seq ps vs)"

lemma both_sol: "set ` set (both A B) = join (set ` set A) (set ` set B)"
proof (induction A)
  case (Cons e A)
  have "both (e # A) B = map ((@) e) B @ both A B" by (simp add: both_def)
  moreover have "join (insert (set e) (set ` set A)) (set ` set B) = (\<union>) (set e) ` set ` set B \<union> join (set ` set A) (set ` set B)"
    unfolding join_def by blast
  ultimately show ?case using Cons by (simp add: image_Un image_image)
qed (simp add: join_def)

lemma sols_simps [simp]:
  "sols [] vs = {{}}" "sols (p # ps) [] = {}" "sols (p # ps) (v # vs) = join (sol p v) (sols ps vs)"
  by (simp_all add: sols_def sol_def both_sol)

lemma sols_append:
  "length ps = length vs \<Longrightarrow> sols (ps @ qs) (vs @ ws) = join (sols ps vs) (sols qs ws)"
  by (induction ps vs rule: list_induct2) (simp_all add: join_assoc)

lemma sol_wild [simp]: "sol Wildcard v = {{}}"
  by (simp add: sol_def)

lemma sols_wild [simp]: "sols (replicate (length vs) Wildcard) vs = {{}}"
  by (induction vs) simp_all

lemma sols_snoc: "length ps = length vs \<Longrightarrow> sols (ps @ [p]) (vs @ [v]) = join (sols ps vs) (sol p v)"
  by (simp add: sols_append)

lemma sol_or: "sol (POr alts) v = (\<Union>p \<in> set alts. sol p v)"
  by (induction alts) (auto simp: sol_def image_Un)

lemma sol_simps [simp]:
  "sol (PVar b) v = {{(b, v)}}"
  "sol PNil v = (if v = VNil then {{}} else {})"
  "sol (PLiteral l) v = (if literal_test v l then {{}} else {})"
  "sol (PSet p) v = (if is_set v then sol p v else {})"
  "sol (PSetMut p) v = (if is_set_mut v then sol p v else {})"
  by (simp_all add: sol_def)

lemma sol_pair: "sol (PPair h t) v = (case as_pair v of None \<Rightarrow> {} | Some (a, d) \<Rightarrow> join (sol h a) (sol t d))"
  by (simp add: sol_def both_sol split: option.split)

lemma sol_list:
  "sol (PList (p # ps) rest) v = (case as_pair v of None \<Rightarrow> {} | Some (a, d) \<Rightarrow> join (sol p a) (sol (PList ps rest) d))"
  "sol (PList [] None) v = (if v = VEmptyList then {{}} else {})"
  "sol (PList [] (Some r)) v = sol r v"
  by (simp_all add: sol_def both_sol split: option.split)

definition rest_sol :: "hir_pattern option \<Rightarrow> mvalue \<Rightarrow> solution set" where
  "rest_sol rest w = (case rest of None \<Rightarrow> {{}} | Some r \<Rightarrow> sol r w)"

lemma sol_tuple:
  "sol (PTuple es rest) v =
    (case as_array v of None \<Rightarrow> {}
     | Some xs \<Rightarrow> if length_ok (length es) rest xs
         then join (sols es (elements_of v (length es))) (rest_sol rest (the (array_slice_from v (length es)))) else {})"
  by (cases rest) (simp_all add: sol_def sols_def both_sol rest_sol_def split: option.split)

lemma sol_array:
  "sol (PArray es rest) v =
    (case as_array_mut v of None \<Rightarrow> {}
     | Some xs \<Rightarrow> if length_ok (length es) rest xs
         then join (sols es (elements_of v (length es))) (rest_sol rest (the (array_slice_from v (length es)))) else {})"
  by (cases rest) (simp_all add: sol_def sols_def both_sol rest_sol_def split: option.split)

definition entries_sol :: "(pattern_key \<times> hir_pattern) list \<Rightarrow> mvalue \<Rightarrow> solution set" where
  "entries_sol es v = set ` set (ways_entries es v)"

lemma entries_sol_simps [simp]:
  "entries_sol [] v = {{}}"
  "entries_sol ((k, p) # es) v = join (sol p (struct_get_or_nil v k)) (entries_sol es v)"
  by (simp_all add: entries_sol_def sol_def both_sol)

lemma sol_struct:
  "sol (PStruct es rest) v =
    (case as_struct v of None \<Rightarrow> {} | Some fs \<Rightarrow> join (entries_sol es v) (rest_sol rest (struct_rest v (map fst es))))"
  by (cases rest) (simp_all add: sol_def entries_sol_def both_sol rest_sol_def split: option.split)

lemma sol_table:
  "sol (PTable es rest) v =
    (case as_struct_mut v of None \<Rightarrow> {} | Some fs \<Rightarrow> join (entries_sol es v) (rest_sol rest (struct_rest v (map fst es))))"
  by (cases rest) (simp_all add: sol_def entries_sol_def both_sol rest_sol_def split: option.split)

lemmas sol_shapes = sol_pair sol_list sol_tuple sol_array sol_struct sol_table sol_or

section \<open>The values of a constructor's columns\<close>

definition sub_values :: "ctor \<Rightarrow> mvalue \<Rightarrow> mvalue list" where
  "sub_values c w =
     (case c of
        CPair \<Rightarrow> [fst (the (as_pair w)), snd (the (as_pair w))]
      | CArray n \<Rightarrow> elements_of w n
      | CArrayMut n \<Rightarrow> elements_of w n
      | CArrayRest n \<Rightarrow> elements_of w n @ [the (array_slice_from w n)]
      | CArrayMutRest n \<Rightarrow> elements_of w n @ [the (array_slice_from w n)]
      | CStruct ks \<Rightarrow> map (struct_get_or_nil w) ks
      | CTable ks \<Rightarrow> map (struct_get_or_nil w) ks
      | CSet \<Rightarrow> [w]
      | CSetMut \<Rightarrow> [w]
      | _ \<Rightarrow> [])"

lemma sub_values_length [simp]: "length (sub_values c w) = arity c"
  by (cases c) (simp_all add: sub_values_def elements_of_def)

definition reads :: "mvalue \<Rightarrow> access_path list \<Rightarrow> mvalue list \<Rightarrow> bool" where
  "reads v acc vs \<longleftrightarrow> list_all2 (\<lambda>a w. load_access_path a v = Some w) acc vs"

lemma reads_split:
  assumes "reads v acc vs" "col < length acc"
  shows "reads v (take col acc) (take col vs)" "reads v (drop (col + 1) acc) (drop (col + 1) vs)"
    "load_access_path (acc ! col) v = Some (vs ! col)"
  using assms list_all2_nthD [of _ acc vs col] by (auto simp: reads_def list_all2_takeI list_all2_dropI)

lemma reads_append: "reads v acc vs \<Longrightarrow> reads v acc' vs' \<Longrightarrow> reads v (acc @ acc') (vs @ vs')"
  by (simp add: reads_def list_all2_appendI)

lemma reads_elements:
  assumes "load_access_path a v = Some w" "as_array w = Some xs \<or> as_array_mut w = Some xs" "n \<le> length xs"
  shows "reads v (map (Index a) [0..<n]) (elements_of w n)"
proof -
  have "array_ref w i = Some (the (array_ref w i))" if "i < n" for i
    using array_ref_in_range [OF assms(2), of i] that assms(3) by simp
  then show ?thesis using assms(1) by (auto simp: reads_def elements_of_def list_all2_conv_all_nth)
qed

lemma reads_slice:
  assumes "load_access_path a v = Some w" "as_array w = Some xs \<or> as_array_mut w = Some xs"
  shows "reads v [Slice a n] [the (array_slice_from w n)]"
  using slice_loads [OF assms(2), of n] assms(1) by (auto simp: reads_def)

lemma reads_sub:
  assumes "load_access_path a v = Some w" "emit_constructor_test w c"
  shows "reads v (sub_access a c) (sub_values c w)"
proof -
  have arr: "reads v (map (Index a) [0..<n]) (elements_of w n)" "reads v [Slice a n] [the (array_slice_from w n)]"
    if "as_array w = Some xs \<or> as_array_mut w = Some xs" "n \<le> length xs" for n xs
    by (rule reads_elements [OF assms(1) that], rule reads_slice [OF assms(1) that(1)])
  show ?thesis using assms
    by (cases c) (auto simp: emit_constructor_test_def sub_access_def sub_values_def list_all2_map1 list_all2_map2
        list_all2_same reads_def [of v "[_, _]"] reads_def [of v "map (Key a) _"] reads_def [of v "[a]"] reads_def [of v "[]"]
        intro!: reads_append arr split: option.splits)
qed

lemma reads_expand:
  assumes "reads v acc vs" "col < length acc" "emit_constructor_test (vs ! col) c"
  shows "reads v (expand_access acc col c) (take col vs @ sub_values c (vs ! col) @ drop (col + 1) vs)"
  unfolding expand_access_def
  by (intro reads_append reads_sub reads_split assms)

lemma reads_remove:
  "reads v acc vs \<Longrightarrow> col < length acc \<Longrightarrow> reads v (remove_column acc col) (take col vs @ drop (col + 1) vs)"
  unfolding remove_column_def by (intro reads_append reads_split)

section \<open>Patterns the compiler treats exactly\<close>

text \<open>
  The compiler splits a list pattern with only a rest as a pair, tests no struct rest that is not a
  name, reads one entry per key, and drops from the default case every or-pattern below the top. A
  pattern is \<open>exact\<close> when it is not of these kinds.
\<close>

definition keyed_rest :: "hir_pattern \<Rightarrow> hir_pattern option" where
  "keyed_rest p = (case p of PStruct es rest \<Rightarrow> rest | PTable es rest \<Rightarrow> rest | _ \<Rightarrow> None)"

definition plain_rest :: "hir_pattern option \<Rightarrow> bool" where
  "plain_rest rest = (case rest of None \<Rightarrow> True | Some r \<Rightarrow> is_wildcard r)"

definition unnamed_rest :: "hir_pattern option \<Rightarrow> bool" where
  "unnamed_rest rest = (case rest of None \<Rightarrow> True | Some r \<Rightarrow> r = Wildcard)"

definition exact_alternative :: "hir_pattern \<Rightarrow> bool" where
  "exact_alternative p \<longleftrightarrow> pattern_constructor p \<noteq> None \<and> unnamed_rest (keyed_rest p)"

fun exact :: "hir_pattern \<Rightarrow> bool" where
  "exact (PPair h t) = (exact h \<and> exact t)"
| "exact (PList es rest) =
     ((es \<noteq> [] \<or> rest = None) \<and> list_all exact es \<and> (case rest of None \<Rightarrow> True | Some r \<Rightarrow> exact r))"
| "exact (PTuple es rest) = (list_all exact es \<and> (case rest of None \<Rightarrow> True | Some r \<Rightarrow> exact r))"
| "exact (PArray es rest) = (list_all exact es \<and> (case rest of None \<Rightarrow> True | Some r \<Rightarrow> exact r))"
| "exact (PStruct es rest) = (distinct (map fst es) \<and> list_all (\<lambda>(k, p). exact p) es \<and> plain_rest rest)"
| "exact (PTable es rest) = (distinct (map fst es) \<and> list_all (\<lambda>(k, p). exact p) es \<and> plain_rest rest)"
| "exact (PSet p) = exact p"
| "exact (PSetMut p) = exact p"
| "exact (POr alts) = list_all (\<lambda>p. exact p \<and> exact_alternative p) alts"
| "exact p = True"

fun or_free :: "hir_pattern \<Rightarrow> bool" where
  "or_free (PPair h t) = (or_free h \<and> or_free t)"
| "or_free (PList es rest) = (list_all or_free es \<and> (case rest of None \<Rightarrow> True | Some r \<Rightarrow> or_free r))"
| "or_free (PTuple es rest) = (list_all or_free es \<and> (case rest of None \<Rightarrow> True | Some r \<Rightarrow> or_free r))"
| "or_free (PArray es rest) = (list_all or_free es \<and> (case rest of None \<Rightarrow> True | Some r \<Rightarrow> or_free r))"
| "or_free (PStruct es rest) = (list_all (\<lambda>(k, p). or_free p) es \<and> (case rest of None \<Rightarrow> True | Some r \<Rightarrow> or_free r))"
| "or_free (PTable es rest) = (list_all (\<lambda>(k, p). or_free p) es \<and> (case rest of None \<Rightarrow> True | Some r \<Rightarrow> or_free r))"
| "or_free (PSet p) = or_free p"
| "or_free (PSetMut p) = or_free p"
| "or_free (POr alts) = False"
| "or_free p = True"

text \<open>The constructors anywhere in a pattern, and when two of them accept a common value.\<close>

definition own_ctor :: "hir_pattern \<Rightarrow> ctor list" where
  "own_ctor p = (case pattern_constructor p of None \<Rightarrow> [] | Some c \<Rightarrow> [c])"

fun all_ctors :: "hir_pattern \<Rightarrow> ctor list" where
  "all_ctors (PPair h t) = all_ctors h @ all_ctors t"
| "all_ctors (PList es rest) =
     concat (map all_ctors es) @ (case rest of None \<Rightarrow> [] | Some r \<Rightarrow> all_ctors r)"
| "all_ctors (PTuple es rest) =
     own_ctor (PTuple es rest) @ concat (map all_ctors es) @ (case rest of None \<Rightarrow> [] | Some r \<Rightarrow> all_ctors r)"
| "all_ctors (PArray es rest) =
     own_ctor (PArray es rest) @ concat (map all_ctors es) @ (case rest of None \<Rightarrow> [] | Some r \<Rightarrow> all_ctors r)"
| "all_ctors (PStruct es rest) = concat (map (\<lambda>(k, p). all_ctors p) es)"
| "all_ctors (PTable es rest) = concat (map (\<lambda>(k, p). all_ctors p) es)"
| "all_ctors (PSet p) = all_ctors p"
| "all_ctors (PSetMut p) = all_ctors p"
| "all_ctors (POr alts) = concat (map all_ctors alts)"
| "all_ctors p = own_ctor p"

definition literal_number :: "pattern_literal \<Rightarrow> 64 word option" where
  "literal_number l = (case l of LInt i \<Rightarrow> Some (f64_of_int i) | LFloat f \<Rightarrow> Some f | _ \<Rightarrow> None)"

definition literal_clash :: "pattern_literal \<Rightarrow> pattern_literal \<Rightarrow> bool" where
  "literal_clash a b \<longleftrightarrow> \<not> literal_eq a b \<and>
     (case (a, b) of
        (LKeyword j, LKeyword k) \<Rightarrow> name_hash j = name_hash k
      | _ \<Rightarrow> (case (literal_number a, literal_number b) of
               (Some x, Some y) \<Rightarrow> f64_eq x y | _ \<Rightarrow> False))"

definition clash :: "ctor \<Rightarrow> ctor \<Rightarrow> bool" where
  "clash c d \<longleftrightarrow>
     (case (c, d) of
        (CLiteral a, CLiteral b) \<Rightarrow> literal_clash a b
      | (CArray m, CArrayRest n) \<Rightarrow> n \<le> m
      | (CArrayRest n, CArray m) \<Rightarrow> n \<le> m
      | (CArrayRest n, CArrayRest m) \<Rightarrow> n \<noteq> m
      | (CArrayMut m, CArrayMutRest n) \<Rightarrow> n \<le> m
      | (CArrayMutRest n, CArrayMut m) \<Rightarrow> n \<le> m
      | (CArrayMutRest n, CArrayMutRest m) \<Rightarrow> n \<noteq> m
      | _ \<Rightarrow> False)"

definition clash_free :: "ctor list \<Rightarrow> bool" where
  "clash_free cs \<longleftrightarrow> list_all (\<lambda>c. list_all (\<lambda>d. \<not> clash c d) cs) cs"

lemma literal_tests_clash:
  assumes "literal_test v a" "literal_test v b" "\<not> literal_eq a b"
  shows "literal_clash a b"
proof -
  have tr: "f64_eq z x \<Longrightarrow> f64_eq z y \<Longrightarrow> f64_eq x y" "f64_eq x z \<Longrightarrow> f64_eq y z \<Longrightarrow> f64_eq x y" for x y z
    using f64_eq_sym f64_eq_trans by blast+
  show ?thesis using assms
    by (cases a; cases b) (auto simp: literal_clash_def literal_number_def literal_test_def number_test_def as_number_def
        literal_eq_def f64_eq_sym split: mvalue.splits dest: tr)
qed

lemma literal_test_shapes [simp]:
  "\<not> literal_test VNil l" "\<not> literal_test VEmptyList l" "\<not> literal_test (VPair a d) l"
  "\<not> literal_test (VArray xs) l" "\<not> literal_test (VArrayMut xs) l" "\<not> literal_test (VStruct fs) l"
  "\<not> literal_test (VStructMut fs) l" "\<not> literal_test (VSet xs) l" "\<not> literal_test (VSetMut xs) l"
  by (cases l; simp add: literal_test_def number_test_def as_number_def)+

lemma tests_clash:
  assumes "emit_constructor_test w c" "emit_constructor_test w d" "\<not> constructor_compatible d c"
  shows "clash c d"
proof (cases "\<exists>a b. c = CLiteral a \<and> d = CLiteral b")
  case True
  then obtain a b where "c = CLiteral a" "d = CLiteral b" by blast
  moreover have "literal_eq b a = literal_eq a b" by (auto simp: literal_eq_def f64_eq_sym split: pattern_literal.splits)
  ultimately show ?thesis using assms literal_tests_clash [of w a b]
    by (simp add: emit_constructor_test_def constructor_compatible_def ctor_eq_def clash_def)
next
  case False
  show ?thesis using assms False
    by (cases w; cases c; cases d) (auto simp: emit_constructor_test_def constructor_compatible_def ctor_eq_def clash_def
        as_pair_def as_array_def as_array_mut_def as_struct_def as_struct_mut_def is_set_def is_set_mut_def)
qed

end
