(* ===== verification/Match_Split.thy ===== *)
theory Match_Split
  imports Match_Matrix
begin

text \<open>One split of the matrix: the rows of a constructor and the default rows, as solutions.\<close>

section \<open>Patterns\<close>

definition keyed_keys :: "hir_pattern \<Rightarrow> pattern_key list" where
  "keyed_keys p = (case p of PStruct es rest \<Rightarrow> map fst es | PTable es rest \<Rightarrow> map fst es | _ \<Rightarrow> [])"

definition keyed_sol :: "hir_pattern \<Rightarrow> mvalue \<Rightarrow> solution set" where
  "keyed_sol p w = rest_sol (keyed_rest p) (struct_rest w (keyed_keys p))"

text \<open>A constructor of a column serves a pattern's own: equal, or with at least its keys.\<close>

definition serves :: "ctor \<Rightarrow> ctor \<Rightarrow> bool" where
  "serves c d \<longleftrightarrow>
     (case (c, d) of
        (CStruct ks, CStruct js) \<Rightarrow> set js \<subseteq> set ks
      | (CTable ks, CTable js) \<Rightarrow> set js \<subseteq> set ks
      | _ \<Rightarrow> True)"

lemma entry_missing: "k \<notin> fst ` set es \<Longrightarrow> entry_pattern es k = Wildcard"
  by (induction es) (auto simp: entry_pattern_Cons entry_pattern_def)

lemma entries_keys:
  assumes "distinct ks" "distinct (map fst es)" "fst ` set es \<subseteq> set ks"
  shows "sols (map (entry_pattern es) ks) (map (struct_get_or_nil w) ks) = entries_sol es w"
  using assms(2,3)
proof (induction es)
  case Nil
  have "sols (map (entry_pattern []) ks) (map (struct_get_or_nil w) ks) = {{}}" for ks
    by (induction ks) (simp_all add: entry_pattern_def)
  then show ?case by simp
next
  case (Cons kp es)
  obtain k p where kp: "kp = (k, p)" by (cases kp)
  obtain xs ys where ks: "ks = xs @ k # ys" using Cons.prems kp by (auto dest: split_list)
  have fresh: "k \<notin> set xs" "k \<notin> set ys" using assms(1) by (simp_all add: ks)
  let ?S = "\<lambda>es zs. sols (map (entry_pattern es) zs) (map (struct_get_or_nil w) zs)"
  have same: "?S (kp # es) zs = ?S es zs" if "k \<notin> set zs" for zs
    using that by (induction zs) (simp_all add: kp entry_pattern_Cons)
  have at: "?S fs ks = join (?S fs xs) (join (sol (entry_pattern fs k) (struct_get_or_nil w k)) (?S fs ys))" for fs
    by (simp add: ks sols_append)
  have "entries_sol es w = join (?S es xs) (?S es ys)"
    using Cons at [of es] entry_missing [of k es] by (simp add: kp)
  then have "entries_sol (kp # es) w = join (sol p (struct_get_or_nil w k)) (join (?S es xs) (?S es ys))" by (simp add: kp)
  also have "\<dots> = ?S (kp # es) ks"
    unfolding at same [OF fresh(1)] same [OF fresh(2)] by (simp only: kp entry_pattern_Cons if_True simp_thms) (rule join_left_comm)
  finally show ?case by (rule sym)
qed

lemma literal_eq_test:
  assumes "literal_eq a b"
  shows "literal_test w a = literal_test w b"
proof (cases "\<exists>x y. a = LFloat x \<and> b = LFloat y")
  case True
  then obtain x y where ab: "a = LFloat x" "b = LFloat y" "f64_eq x y" using assms by (auto simp: literal_eq_def)
  have "f64_eq z x = f64_eq z y" for z using ab(3) f64_eq_sym f64_eq_trans by blast
  then show ?thesis by (simp add: ab literal_test_def number_test_def split: option.split)
next
  case False
  then have "a = b" using assms by (auto simp: literal_eq_def split: pattern_literal.splits)
  then show ?thesis by simp
qed

lemma compatible_cases:
  assumes "constructor_compatible d c"
  obtains (same) "d = c" | (literal) a b where "d = CLiteral a" "c = CLiteral b" "literal_eq a b"
    | (struct) js ks where "d = CStruct js" "c = CStruct ks" | (table) js ks where "d = CTable js" "c = CTable ks"
  using assms by (auto simp: constructor_compatible_def ctor_eq_def split: ctor.splits)

lemma compatible_ctors:
  "constructor_compatible CNil c \<longleftrightarrow> c = CNil" "constructor_compatible CPair c \<longleftrightarrow> c = CPair"
  "constructor_compatible CEmptyList c \<longleftrightarrow> c = CEmptyList"
  "constructor_compatible (CArray n) c \<longleftrightarrow> c = CArray n" "constructor_compatible (CArrayRest n) c \<longleftrightarrow> c = CArrayRest n"
  "constructor_compatible (CArrayMut n) c \<longleftrightarrow> c = CArrayMut n" "constructor_compatible (CArrayMutRest n) c \<longleftrightarrow> c = CArrayMutRest n"
  "constructor_compatible CSet c \<longleftrightarrow> c = CSet" "constructor_compatible CSetMut c \<longleftrightarrow> c = CSetMut"
  "constructor_compatible (CLiteral l) c \<longleftrightarrow> (\<exists>k. c = CLiteral k \<and> literal_eq l k)"
  "constructor_compatible (CStruct js) c \<longleftrightarrow> (\<exists>ks. c = CStruct ks)"
  "constructor_compatible (CTable js) c \<longleftrightarrow> (\<exists>ks. c = CTable ks)"
  by (auto simp: constructor_compatible_def ctor_eq_def split: ctor.splits)

lemma keyed_sol_other [simp]:
  "keyed_rest p = None \<Longrightarrow> keyed_sol p w = {{}}"
  by (simp add: keyed_sol_def rest_sol_def)

lemma list_sub_solutions:
  assumes "es \<noteq> []" "as_pair w = Some (a, d)"
  shows "sol (PList es rest) w = sols (extract_sub_patterns (PList es rest) CPair) (sub_values CPair w)"
proof (cases es)
  case (Cons p ps)
  then show ?thesis using assms by (cases ps; cases rest) (simp_all add: sol_list sub_values_def)
qed (use assms in simp)

lemma elements_length [simp]: "length (elements_of w n) = n"
  by (simp add: elements_of_def)

lemma sub_solutions:
  assumes "exact p" "pattern_constructor p = Some d" "constructor_compatible d c" "emit_constructor_test w c"
    and "serves c d" "keys_distinct c"
  shows "sol p w = join (sols (extract_sub_patterns p c) (sub_values c w)) (keyed_sol p w)"
proof (cases p)
  case (PLiteral l)
  then show ?thesis using assms literal_eq_test by (auto simp: compatible_ctors keyed_rest_def emit_constructor_test_def)
next
  case (PList es rest)
  then show ?thesis using assms list_sub_solutions [of es w _ _ rest]
    by (auto simp: compatible_ctors keyed_rest_def emit_constructor_test_def sol_list split: if_splits)
next
  case (PTuple es rest)
  then show ?thesis using assms
    by (cases rest) (auto simp: compatible_ctors keyed_rest_def emit_constructor_test_def sol_tuple length_ok_def
        sub_values_def array_sub_patterns_def rest_sol_def vpush_def sols_snoc split: option.splits)
next
  case (PArray es rest)
  then show ?thesis using assms
    by (cases rest) (auto simp: compatible_ctors keyed_rest_def emit_constructor_test_def sol_array length_ok_def
        sub_values_def array_sub_patterns_def rest_sol_def vpush_def sols_snoc split: option.splits)
next
  case (PStruct es rest)
  then obtain ks where "c = CStruct ks" using assms(2,3) by (auto simp: compatible_ctors)
  then show ?thesis using assms PStruct entries_keys [of ks es w]
    by (auto simp: sol_struct keyed_sub_patterns_def sub_values_def keyed_sol_def keyed_rest_def keyed_keys_def
        emit_constructor_test_def serves_def keys_distinct_def)
next
  case (PTable es rest)
  then obtain ks where "c = CTable ks" using assms(2,3) by (auto simp: compatible_ctors)
  then show ?thesis using assms PTable entries_keys [of ks es w]
    by (auto simp: sol_table keyed_sub_patterns_def sub_values_def keyed_sol_def keyed_rest_def keyed_keys_def
        emit_constructor_test_def serves_def keys_distinct_def)
qed (use assms in \<open>auto simp: compatible_ctors keyed_rest_def emit_constructor_test_def sol_pair sub_values_def\<close>)

lemma sol_test:
  assumes "sol p w \<noteq> {}" "pattern_constructor p = Some d" "exact p"
  shows "emit_constructor_test w d"
  using assms by (cases p) (auto simp: emit_constructor_test_def sol_shapes length_ok_def neq_Nil_conv split: if_splits option.splits)

section \<open>What sub-patterns inherit\<close>

definition good :: "ctor set \<Rightarrow> bool \<Rightarrow> hir_pattern \<Rightarrow> bool" where
  "good C g p \<longleftrightarrow> exact p \<and> (\<forall>c \<in> set (all_ctors p). c \<in> C) \<and> (g \<longrightarrow> or_free p)"

lemma good_wild [simp]: "good C g Wildcard"
  by (simp add: good_def own_ctor_def)

lemma entry_good:
  "(\<And>k p. (k, p) \<in> set es \<Longrightarrow> good C g p) \<Longrightarrow> good C g (entry_pattern es k)"
  by (induction es) (auto simp: entry_pattern_Cons, auto simp: entry_pattern_def)

lemma entries_good:
  assumes "good C g p" "p = PStruct es rest \<or> p = PTable es rest" "(k, q) \<in> set es"
  shows "good C g q"
  using assms by (fastforce simp: good_def list_all_iff)

lemma elements_good:
  assumes "good C g p" "p = PList es rest \<or> p = PTuple es rest \<or> p = PArray es rest"
  shows "q \<in> set es \<Longrightarrow> good C g q" "rest = Some q \<Longrightarrow> good C g q"
  using assms by (auto simp: good_def list_all_iff)

lemma good_sub:
  assumes "good C g p" "pattern_constructor p \<noteq> None" "q \<in> set (extract_sub_patterns p c)"
  shows "good C g q"
proof (cases p)
  case (PList es rest)
  show ?thesis
  proof (cases "\<exists>e. es = [e]")
    case True
    then show ?thesis using assms(3) elements_good [OF assms(1), of es rest] PList
      by (auto simp: good_def own_ctor_def split: option.splits)
  next
    case False
    have "q \<in> set es \<or> (\<exists>e f fs. es = e # f # fs \<and> q = PList (f # fs) rest)"
      using assms(3) PList False by (cases es rule: remdups_adj.cases) auto
    then show ?thesis using assms(1) elements_good(1) [OF assms(1), of es rest q] PList by (auto simp: good_def)
  qed
next
  case (PTuple es rest)
  then show ?thesis using assms(3) elements_good [OF assms(1), of es rest]
    by (auto simp: array_sub_patterns_def vpush_def split: ctor.splits option.splits)
next
  case (PArray es rest)
  then show ?thesis using assms(3) elements_good [OF assms(1), of es rest]
    by (auto simp: array_sub_patterns_def vpush_def split: ctor.splits option.splits)
next
  case (PStruct es rest)
  then show ?thesis using assms(3) entry_good [of es C g] entries_good [OF assms(1), of es rest]
    by (auto simp: keyed_sub_patterns_def split: ctor.splits)
next
  case (PTable es rest)
  then show ?thesis using assms(3) entry_good [of es C g] entries_good [OF assms(1), of es rest]
    by (auto simp: keyed_sub_patterns_def split: ctor.splits)
qed (use assms in \<open>auto simp: good_def\<close>)

lemma sub_length:
  assumes "exact p" "pattern_constructor p = Some d" "constructor_compatible d c"
  shows "length (extract_sub_patterns p c) = arity c"
proof (cases p)
  case (PList es rest)
  then show ?thesis using assms
    by (cases es rule: remdups_adj.cases) (auto simp: compatible_ctors split: if_splits)
next
  case (PTuple es rest)
  then show ?thesis using assms by (auto simp: compatible_ctors array_sub_patterns_def vpush_def split: if_splits)
next
  case (PArray es rest)
  then show ?thesis using assms by (auto simp: compatible_ctors array_sub_patterns_def vpush_def split: if_splits)
qed (use assms in \<open>auto simp: compatible_ctors keyed_sub_patterns_def\<close>)

section \<open>The constructors of a column\<close>

definition add_ctor :: "ctor \<Rightarrow> ctor list \<Rightarrow> ctor list" where
  "add_ctor c seen = (if list_ex (\<lambda>s. ctor_eq s c) seen then seen else vpush seen c)"

definition contribs :: "hir_pattern \<Rightarrow> ctor list" where
  "contribs p = (case p of POr alts \<Rightarrow> concat (map own_ctor alts) | _ \<Rightarrow> own_ctor p)"

lemma collect_own: "(\<And>alts. p \<noteq> POr alts) \<Longrightarrow> collect_constructors_from_pattern p seen = fold add_ctor (own_ctor p) seen"
  by (cases p) (simp_all add: own_ctor_def add_ctor_def, blast)

lemma collect_alts:
  "list_all exact_alternative alts \<Longrightarrow>
    fold collect_constructors_from_pattern alts seen = fold add_ctor (concat (map own_ctor alts)) seen"
proof (induction alts arbitrary: seen)
  case (Cons p ps)
  then have "p \<noteq> POr a" for a by (auto simp: exact_alternative_def)
  then show ?case using Cons collect_own [of p seen] by simp
qed simp

lemma collect_contribs:
  assumes "exact p"
  shows "collect_constructors_from_pattern p seen = fold add_ctor (contribs p) seen"
proof (cases "\<exists>alts. p = POr alts")
  case True
  then show ?thesis using assms by (auto simp: contribs_def list_all_iff intro!: collect_alts)
next
  case False
  then have "contribs p = own_ctor p" by (cases p) (auto simp: contribs_def)
  then show ?thesis using False collect_own by metis
qed

definition column :: "pattern_row list \<Rightarrow> nat \<Rightarrow> hir_pattern list" where
  "column rows col = map (\<lambda>r. row_patterns r ! col) rows"

definition column_ctors :: "pattern_row list \<Rightarrow> nat \<Rightarrow> ctor list" where
  "column_ctors rows col = concat (map contribs (column rows col))"

lemma collect_rows:
  "list_all exact (column rows col) \<Longrightarrow>
    fold (\<lambda>r. collect_constructors_from_pattern (row_patterns r ! col)) rows seen = fold add_ctor (column_ctors rows col) seen"
  by (induction rows arbitrary: seen) (simp_all add: column_def column_ctors_def collect_contribs)

lemma add_ctors:
  "set seen \<subseteq> set (fold add_ctor cs seen)"
  "set (fold add_ctor cs seen) \<subseteq> set seen \<union> set cs"
  "d \<in> set cs \<Longrightarrow> \<exists>s \<in> set (fold add_ctor cs seen). s = d \<or> ctor_eq s d"
proof (induction cs arbitrary: seen)
  case (Cons c cs)
  { case 1 show ?case using Cons(1) [of "add_ctor c seen"] by (auto simp: add_ctor_def vpush_def split: if_splits) }
  { case 2 show ?case using Cons(2) [of "add_ctor c seen"] by (auto simp: add_ctor_def vpush_def split: if_splits) }
  { case 3
    show ?case
    proof (cases "d = c")
      case True
      then have "\<exists>s \<in> set (add_ctor c seen). s = d \<or> ctor_eq s d" by (auto simp: add_ctor_def vpush_def list_ex_iff)
      then show ?thesis using Cons(1) [of "add_ctor c seen"] by auto
    next
      case False
      then show ?thesis using Cons(3) [of "add_ctor c seen"] 3 by simp
    qed }
qed simp_all

lemma add_keys_set [simp]: "set (fold add_key ks acc) = set ks \<union> set acc"
  by (induction ks arbitrary: acc) (auto simp: add_key_def vpush_def)

lemma union_keys_set:
  "set acc \<subseteq> set (union_keys f cs acc)"
  "c \<in> set cs \<Longrightarrow> f c = Some ks \<Longrightarrow> set ks \<subseteq> set (union_keys f cs acc)"
proof (induction cs arbitrary: acc)
  case (Cons b cs)
  { case 1 show ?case using Cons(1) [of "case f b of None \<Rightarrow> acc | Some ks \<Rightarrow> fold add_key ks acc"]
      by (auto split: option.splits) }
  { case 2
    show ?case
    proof (cases "c = b")
      case True
      then show ?thesis using 2 Cons(1) [of "fold add_key ks acc"] by auto
    next
      case False
      then show ?thesis using 2 Cons(2) by simp
    qed }
qed simp_all

lemma merge_keys_member:
  "c \<in> set (merge_keys f mk cs) \<longleftrightarrow>
    c \<in> set cs \<and> f c = None \<or> (\<exists>b \<in> set cs. f b \<noteq> None) \<and> c = mk (union_keys f cs [])"
  by (auto simp: merge_keys_def vpush_def list_ex_iff)

lemma ctor_eq_keys [simp]: "ctor_eq s (CStruct js) \<longleftrightarrow> s = CStruct js" "ctor_eq s (CTable js) \<longleftrightarrow> s = CTable js"
  by (cases s; simp add: ctor_eq_def)+

lemma ctor_eq_test: "ctor_eq s d \<Longrightarrow> emit_constructor_test w s = emit_constructor_test w d"
  by (cases s; cases d) (simp_all add: ctor_eq_def emit_constructor_test_def literal_eq_test)

lemma struct_keys_iff [simp]: "struct_keys c = Some ks \<longleftrightarrow> c = CStruct ks" "struct_keys c = None \<longleftrightarrow> (\<forall>ks. c \<noteq> CStruct ks)"
  by (cases c; simp add: struct_keys_def)+

lemma table_keys_iff [simp]: "table_keys c = Some ks \<longleftrightarrow> c = CTable ks" "table_keys c = None \<longleftrightarrow> (\<forall>ks. c \<noteq> CTable ks)"
  by (cases c; simp add: table_keys_def)+

text \<open>A column's constructors: the patterns' own, with the keys of its structs put together.\<close>

lemma column_represented:
  assumes "collect_constructors rows col = Some cs" "list_all exact (column rows col)" "d \<in> set (column_ctors rows col)"
    and "emit_constructor_test w d"
  shows "\<exists>c \<in> set cs. emit_constructor_test w c"
proof -
  let ?raw = "fold add_ctor (column_ctors rows col) []"
  have cs: "cs = merge_struct_table_constructors ?raw"
    using assms(1,2) collect_rows by (auto simp: collect_constructors_def split: if_splits)
  obtain s where s: "s \<in> set ?raw" "emit_constructor_test w s"
    using add_ctors(3) [OF assms(3), of "[]"] assms(4) ctor_eq_test by blast
  let ?m = "merge_keys struct_keys CStruct ?raw"
  obtain s' where s': "s' \<in> set ?m" "emit_constructor_test w s'"
  proof (cases "struct_keys s")
    case None
    then show ?thesis using that [of s] s by (simp add: merge_keys_member)
  next
    case (Some ks)
    then show ?thesis using that [of "CStruct (union_keys struct_keys ?raw [])"] s
      by (auto simp: merge_keys_member emit_constructor_test_def)
  qed
  show ?thesis
  proof (cases "table_keys s'")
    case None
    then have "s' \<in> set cs" using s'(1) by (simp add: cs merge_struct_table_constructors_def merge_keys_member [of s' table_keys])
    then show ?thesis using s'(2) by blast
  next
    case (Some ks)
    then have "CTable (union_keys table_keys ?m []) \<in> set cs"
      using s'(1) cs by (auto simp: merge_struct_table_constructors_def merge_keys_member)
    then show ?thesis using s'(2) Some by (force simp: emit_constructor_test_def)
  qed
qed

lemma column_serves:
  assumes "collect_constructors rows col = Some cs" "list_all exact (column rows col)"
    and "d \<in> set (column_ctors rows col)" "c \<in> set cs"
  shows "serves c d"
proof -
  let ?raw = "fold add_ctor (column_ctors rows col) []"
  let ?m = "merge_keys struct_keys CStruct ?raw"
  have cs: "cs = merge_keys table_keys CTable ?m"
    using assms(1,2) collect_rows by (auto simp: collect_constructors_def merge_struct_table_constructors_def split: if_splits)
  have d: "d \<in> set ?raw" if "d = CStruct js \<or> d = CTable js" for js
    using add_ctors(3) [OF assms(3), of "[]"] that by auto
  show ?thesis
  proof (cases c)
    case (CStruct ks)
    then have "CStruct ks \<in> set ?m" using assms(4) by (auto simp: cs merge_keys_member)
    then have "ks = union_keys struct_keys ?raw []" by (auto simp: merge_keys_member)
    then show ?thesis using d union_keys_set(2) [of d ?raw struct_keys _ "[]"]
      by (cases d) (auto simp: serves_def CStruct)
  next
    case (CTable ks)
    then have ks: "ks = union_keys table_keys ?m []" using assms(4) by (auto simp: cs merge_keys_member)
    show ?thesis
    proof (cases "\<exists>js. d = CTable js")
      case True
      then obtain js where js: "d = CTable js" by blast
      then have "d \<in> set ?m" using d by (simp add: merge_keys_member)
      then have "set js \<subseteq> set ks" unfolding ks using js by (intro union_keys_set(2)) simp_all
      then show ?thesis by (simp add: js CTable serves_def)
    next
      case False
      then show ?thesis by (cases d) (simp_all add: CTable serves_def)
    qed
  qed (simp_all add: serves_def)
qed

lemma column_own:
  assumes "collect_constructors rows col = Some cs" "list_all exact (column rows col)" "c \<in> set cs"
  shows "c \<in> set (column_ctors rows col) \<or> (\<forall>d. \<not> clash c d)"
proof -
  have "cs = merge_struct_table_constructors (fold add_ctor (column_ctors rows col) [])"
    using assms(1,2) collect_rows by (auto simp: collect_constructors_def split: if_splits)
  then have "c \<in> set (fold add_ctor (column_ctors rows col) []) \<or> (\<exists>ks. c = CStruct ks \<or> c = CTable ks)"
    using assms(3) by (auto simp: merge_struct_table_constructors_def merge_keys_member)
  then show ?thesis using add_ctors(2) [of "column_ctors rows col" "[]"] by (auto simp: clash_def)
qed

lemma contribs_good:
  assumes "good C g p" "d \<in> set (contribs p)"
  shows "d \<in> C \<or> (\<forall>c. \<not> clash c d \<and> \<not> clash d c)"
proof -
  have own: "d \<in> set (all_ctors q) \<or> (\<forall>c. \<not> clash c d \<and> \<not> clash d c)" if "pattern_constructor q = Some d" for q
    using that by (cases q) (auto simp: own_ctor_def clash_def split: if_splits ctor.splits)
  show ?thesis
  proof (cases "\<exists>alts. p = POr alts")
    case True
    then obtain alts alt where "p = POr alts" "alt \<in> set alts" "pattern_constructor alt = Some d"
      using assms(2) by (auto simp: contribs_def own_ctor_def split: option.splits)
    then show ?thesis using assms(1) own [of alt] by (auto simp: good_def)
  next
    case False
    then have "pattern_constructor p = Some d"
      using assms(2) by (cases p) (auto simp: contribs_def own_ctor_def split: if_splits)
    then show ?thesis using assms(1) own [of p] by (auto simp: good_def)
  qed
qed

lemma column_compatible:
  assumes "collect_constructors rows col = Some cs" "\<And>p. p \<in> set (column rows col) \<Longrightarrow> \<exists>g. good C g p"
    and "\<forall>c \<in> C. \<forall>d \<in> C. \<not> clash c d" and "c \<in> set cs" "d \<in> set (column_ctors rows col)"
    and "emit_constructor_test w c" "emit_constructor_test w d"
  shows "constructor_compatible d c"
proof (rule ccontr)
  assume "\<not> constructor_compatible d c"
  then have clash: "clash c d" using tests_clash assms(6,7) by blast
  have ex: "list_all exact (column rows col)" using assms(2) by (auto simp: list_all_iff good_def)
  have "c \<in> set (column_ctors rows col)" using column_own [OF assms(1) ex assms(4)] clash by blast
  then have "c \<in> C" "d \<in> C"
    using contribs_good [of C] assms(2,5) clash by (auto simp: column_ctors_def) blast+
  then show False using assms(3) clash by blast
qed

end
