(* ===== verification/Match_Correct.thy ===== *)
theory Match_Correct
  imports Match_Split
begin

text \<open>
  The decision tree and the sequential lowering against one specification: the arms are tried in
  order, an arm whose pattern has no solution is passed over, a guarded arm is tried and may be
  given up, an unguarded one is final.
\<close>

section \<open>The specification\<close>

type_synonym spec_row = "nat \<times> bool \<times> solution set"

fun follows :: "spec_row list \<Rightarrow> trail \<Rightarrow> bool" where
  "follows [] t \<longleftrightarrow> t = NoMatch"
| "follows ((i, g, W) # rows) t \<longleftrightarrow>
     (if W = {} then follows rows t
      else if g then \<exists>e u. t = Try i e u \<and> set e \<in> W \<and> follows rows u
      else \<exists>e. t = Done i e \<and> set e \<in> W)"

text \<open>A row may be given by several that share its arm, as long as only unguarded rows are split.\<close>

definition splits_to :: "spec_row \<Rightarrow> spec_row list \<Rightarrow> bool" where
  "splits_to x xs \<longleftrightarrow>
     (case x of (i, g, W) \<Rightarrow>
        (\<forall>(j, h, V) \<in> set xs. j = i \<and> h = g) \<and> \<Union> ((snd \<circ> snd) ` set xs) = W \<and> (g \<longrightarrow> length xs \<le> 1))"

lemma follows_skip: "(\<forall>(j, h, V) \<in> set xs. V = {}) \<Longrightarrow> follows (xs @ ys) t = follows ys t"
  by (induction xs) auto

lemma follows_unguarded:
  assumes "follows (xs @ ys) t" "\<forall>(j, h, V) \<in> set xs. j = i \<and> \<not> h" "\<exists>(j, h, V) \<in> set xs. V \<noteq> {}"
  shows "\<exists>e. t = Done i e \<and> set e \<in> \<Union> ((snd \<circ> snd) ` set xs)"
  using assms
proof (induction xs)
  case (Cons x xs)
  obtain j h V where x: "x = (j, h, V)" by (cases x)
  show ?case
  proof (cases "V = {}")
    case True
    then have "\<exists>e. t = Done i e \<and> set e \<in> \<Union> ((snd \<circ> snd) ` set xs)" using Cons by (intro Cons.IH) (auto simp: x)
    then show ?thesis by auto
  next
    case False
    then show ?thesis using Cons.prems by (auto simp: x)
  qed
qed simp

lemma follows_split_row:
  assumes "splits_to x xs" "follows (xs @ ys) t" "\<And>t. follows ys t \<Longrightarrow> follows rows t"
  shows "follows (x # rows) t"
proof -
  obtain i g W where x: "x = (i, g, W)" by (cases x)
  have xs: "\<forall>(j, h, V) \<in> set xs. j = i \<and> h = g" "\<Union> ((snd \<circ> snd) ` set xs) = W" "g \<longrightarrow> length xs \<le> 1"
    using assms(1) by (auto simp: splits_to_def x)
  show ?thesis
  proof (cases "W = {}")
    case True
    then have "follows ys t" using assms(2) follows_skip [of xs ys t] xs(2) by (force simp: case_prod_unfold)
    then show ?thesis using assms(3) True by (simp add: x)
  next
    case False
    show ?thesis
    proof (cases g)
      case True
      then have "xs = [(i, g, W)]" using xs False by (cases xs) auto
      then show ?thesis using assms(2,3) True False by (auto simp: x)
    next
      case g: False
      have "\<exists>(j, h, V) \<in> set xs. V \<noteq> {}" using False xs(2) by force
      then show ?thesis using follows_unguarded [OF assms(2), of i] xs(1,2) g False by (auto simp: x)
    qed
  qed
qed

lemma follows_split:
  "list_all2 splits_to rows xss \<Longrightarrow> follows (concat xss) t \<Longrightarrow> follows rows t"
  by (induction rows xss arbitrary: t rule: list_all2_induct) (auto intro: follows_split_row)

section \<open>Rows\<close>

definition loads :: "mvalue \<Rightarrow> bindings \<Rightarrow> bool" where
  "loads v bs \<longleftrightarrow> (\<forall>(b, a) \<in> set bs. load_access_path a v \<noteq> None)"

definition bound :: "mvalue \<Rightarrow> bindings \<Rightarrow> solution" where
  "bound v bs = (\<lambda>(b, a). (b, the (load_access_path a v))) ` set bs"

lemma bound_append [simp]: "bound v (bs @ cs) = bound v bs \<union> bound v cs" "bound v [] = {}"
  by (auto simp: bound_def)

lemma loads_append [simp]: "loads v (bs @ cs) \<longleftrightarrow> loads v bs \<and> loads v cs" "loads v []"
  unfolding loads_def set_append ball_Un by simp_all

lemma establish_loads: "loads v bs \<Longrightarrow> \<exists>e. establish bs v = Some e \<and> set e = bound v bs"
proof (induction bs)
  case (Cons ba bs)
  then obtain e where "establish bs v = Some e" "set e = bound v bs" by (auto simp: loads_def)
  then show ?case using Cons.prems by (cases ba) (auto simp: establish_def loads_def bound_def)
qed (simp add: establish_def)

definition row_sols :: "mvalue \<Rightarrow> mvalue list \<Rightarrow> pattern_row \<Rightarrow> solution set" where
  "row_sols v vs r = join {bound v (row_bindings r)} (sols (row_patterns r) vs)"

definition row_spec :: "mvalue \<Rightarrow> mvalue list \<Rightarrow> pattern_row \<Rightarrow> spec_row" where
  "row_spec v vs r = (arm_index r, has_guard r, row_sols v vs r)"

definition row_good :: "ctor set \<Rightarrow> nat \<Rightarrow> pattern_row \<Rightarrow> bool" where
  "row_good C n r \<longleftrightarrow> length (row_patterns r) = n \<and> (\<forall>p \<in> set (row_patterns r). good C (has_guard r) p)"

lemma row_with_simps [simp]:
  "arm_index (row_with r col sub bs) = arm_index r" "has_guard (row_with r col sub bs) = has_guard r"
  "row_bindings (row_with r col sub bs) = row_bindings r @ bs"
  by (simp_all add: row_with_def)

lemma row_with_good:
  assumes "row_good C n r" "col < n" "\<And>p. p \<in> set sub \<Longrightarrow> good C (has_guard r) p"
  shows "row_good C (n - 1 + length sub) (row_with r col sub bs)"
  using assms in_set_takeD [of _ col "row_patterns r"] in_set_dropD [of _ "Suc col" "row_patterns r"]
  by (auto simp: row_good_def row_with_def)

lemma row_sols_split:
  assumes "length (row_patterns r) = length vs" "col < length vs"
  shows "row_sols v vs r = join {bound v (row_bindings r)} (join (sols (take col (row_patterns r)) (take col vs))
    (join (sol (row_patterns r ! col) (vs ! col)) (sols (drop (col + 1) (row_patterns r)) (drop (col + 1) vs))))"
proof -
  have "row_patterns r = take col (row_patterns r) @ row_patterns r ! col # drop (col + 1) (row_patterns r)"
    "vs = take col vs @ vs ! col # drop (col + 1) vs"
    using assms by (simp_all add: id_take_nth_drop)
  then have "sols (row_patterns r) vs = sols (take col (row_patterns r) @ row_patterns r ! col # drop (col + 1) (row_patterns r))
      (take col vs @ vs ! col # drop (col + 1) vs)" by simp
  then show ?thesis using assms by (simp add: row_sols_def sols_append)
qed

lemma row_with_sols:
  assumes "length (row_patterns r) = length vs" "col < length vs" "length sub = length ws"
  shows "row_sols v (take col vs @ ws @ drop (col + 1) vs) (row_with r col sub bs) =
    join {bound v (row_bindings r)} (join (sols (take col (row_patterns r)) (take col vs))
      (join (join (sols sub ws) {bound v bs}) (sols (drop (col + 1) (row_patterns r)) (drop (col + 1) vs))))"
proof -
  have "join {bound v (row_bindings r @ bs)} X = join {bound v (row_bindings r)} (join {bound v bs} X)" for X
    by (simp add: join_assoc [symmetric] join_single)
  then show ?thesis using assms
    by (simp add: row_sols_def row_with_def sols_append join_ac)
qed

section \<open>One constructor\<close>

lemma sol_wildcard: "is_wildcard p \<Longrightarrow> load_access_path a v = Some w \<Longrightarrow> sol p w = {bound v (var_binding p a)}"
  by (auto simp: is_wildcard_def var_binding_def bound_def split: hir_pattern.splits)

lemma rest_bound:
  assumes "exact p" "load_access_path a v = Some w"
  shows "keyed_sol p w = {bound v (rest_bindings p a)}" "loads v (rest_bindings p a)"
  using assms by (cases p; auto simp: keyed_sol_def keyed_rest_def keyed_keys_def rest_sol_def rest_bindings_def bound_def loads_def
      plain_rest_def is_wildcard_def split: option.splits hir_pattern.splits)+

lemma unnamed_sol: "unnamed_rest (keyed_rest p) \<Longrightarrow> keyed_sol p w = {{}}"
  by (auto simp: keyed_sol_def rest_sol_def unnamed_rest_def split: option.splits)

lemma join_Union: "join (\<Union>x \<in> X. f x) B = (\<Union>x \<in> X. join (f x) B)" "join B (\<Union>x \<in> X. f x) = (\<Union>x \<in> X. join B (f x))"
  by (auto simp: join_def)

text \<open>What a row needs of the constructor its column is split by.\<close>

definition split_by :: "ctor \<Rightarrow> mvalue \<Rightarrow> hir_pattern \<Rightarrow> bool" where
  "split_by c w p \<longleftrightarrow> keys_distinct c \<and> emit_constructor_test w c
     \<and> (\<forall>d \<in> set (contribs p). serves c d \<and> (emit_constructor_test w d \<longrightarrow> constructor_compatible d c))"

lemma has_constructor_sol:
  assumes "split_by c w p" "exact q" "pattern_constructor q = Some d" "d \<in> set (contribs p)"
  shows "sol q w = (if has_constructor q c then join (sols (extract_sub_patterns q c) (sub_values c w)) (keyed_sol q w) else {})"
  using assms sub_solutions [of q d c w] sol_test [of q w d] by (auto simp: split_by_def has_constructor_def)

lemma row_spec_single:
  assumes "length (row_patterns r) = length vs" "col < length vs" "length sub = length ws"
    and "sol (row_patterns r ! col) (vs ! col) = join (sols sub ws) {bound v bs}"
  shows "row_spec v (take col vs @ ws @ drop (col + 1) vs) (row_with r col sub bs) = row_spec v vs r"
  unfolding row_spec_def row_with_sols [OF assms(1-3)] row_sols_split [OF assms(1,2)] by (simp add: assms(4))

lemma splits_refl [simp]: "splits_to x [x]"
  by (cases x) (simp add: splits_to_def)

lemma no_solution: 
  assumes "length (row_patterns r) = length vs" "col < length vs" "sol (row_patterns r ! col) (vs ! col) = {}"
  shows "splits_to (row_spec v vs r) []"
  using row_sols_split [OF assms(1,2), of v] assms(3) by (simp add: splits_to_def row_spec_def)

lemma pattern_kind: "is_wildcard p \<or> (\<exists>alts. p = POr alts) \<or> (\<exists>d. pattern_constructor p = Some d)"
  by (cases p) (auto simp: is_wildcard_def)

lemma specialize_or:
  assumes r: "row_good C (length vs) r" "col < length vs" "row_patterns r ! col = POr alts"
    and c: "split_by c (vs ! col) (POr alts)"
  shows "splits_to (row_spec v vs r)
    (map (row_spec v (take col vs @ sub_values c (vs ! col) @ drop (col + 1) vs)) (specialize_row col c a r))"
proof -
  let ?w = "vs ! col" and ?vs = "take col vs @ sub_values c (vs ! col) @ drop (col + 1) vs"
  let ?row = "\<lambda>q. row_with r col (extract_sub_patterns q c) (var_binding q a)"
  have len: "length (row_patterns r) = length vs" using r(1) by (simp add: row_good_def)
  have good: "good C (has_guard r) (POr alts)" using r len nth_mem [of col "row_patterns r"] by (simp add: row_good_def)
  have alt: "exact q \<and> exact_alternative q" if "q \<in> set alts" for q using good that by (auto simp: good_def list_all_iff)
  have sol: "sol q ?w = (if has_constructor q c then join (sols (extract_sub_patterns q c) (sub_values c ?w)) {{}} else {})"
    if q: "q \<in> set alts" for q
  proof -
    obtain d where d: "pattern_constructor q = Some d" using alt [OF q] by (auto simp: exact_alternative_def)
    moreover have "d \<in> set (contribs (POr alts))" using q d by (auto simp: contribs_def own_ctor_def intro!: bexI [of _ q])
    ultimately show ?thesis using has_constructor_sol [OF c _ d] alt [OF q] unnamed_sol [of q]
      by (simp add: exact_alternative_def)
  qed
  have row: "row_sols v ?vs (?row q) = join {bound v (row_bindings r)} (join (sols (take col (row_patterns r)) (take col vs))
      (join (sol q ?w) (sols (drop (col + 1) (row_patterns r)) (drop (col + 1) vs))))"
    if q: "q \<in> set alts" "has_constructor q c" for q
  proof -
    have "var_binding q a = []" using alt [OF q(1)] by (auto simp: exact_alternative_def var_binding_def split: hir_pattern.splits)
    moreover have "length (extract_sub_patterns q c) = length (sub_values c ?w)"
      using q alt [OF q(1)] sub_length [of q] by (auto simp: has_constructor_def split: option.splits)
    ultimately show ?thesis using row_with_sols [OF len r(2), of "extract_sub_patterns q c" "sub_values c ?w" v "[]"] sol q by simp
  qed
  have "\<not> is_wildcard q" if "q \<in> set alts" for q
    using alt [OF that] by (auto simp: exact_alternative_def is_wildcard_def split: hir_pattern.splits)
  then have sp: "specialize_row col c a r = map ?row (filter (\<lambda>q. has_constructor q c) alts)"
    using r(3) by (auto simp: specialize_row_def is_wildcard_def intro!: arg_cong [where f = "map _"] filter_cong)
  have "row_sols v vs r = (\<Union>q \<in> set alts. join {bound v (row_bindings r)} (join (sols (take col (row_patterns r)) (take col vs))
      (join (sol q ?w) (sols (drop (col + 1) (row_patterns r)) (drop (col + 1) vs)))))"
    unfolding row_sols_split [OF len r(2)] r(3) sol_or join_Union ..
  also have "\<dots> = (\<Union>q \<in> {q \<in> set alts. has_constructor q c}. row_sols v ?vs (?row q))"
    using row sol by (auto split: if_splits)
  finally show ?thesis using good by (auto simp: splits_to_def row_spec_def sp good_def)
qed

lemma specialize_split:
  assumes r: "row_good C (length vs) r" "col < length vs" and a: "load_access_path a v = Some (vs ! col)"
    and c: "split_by c (vs ! col) (row_patterns r ! col)"
  shows "splits_to (row_spec v vs r)
    (map (row_spec v (take col vs @ sub_values c (vs ! col) @ drop (col + 1) vs)) (specialize_row col c a r))"
proof -
  let ?p = "row_patterns r ! col"
  have len: "length (row_patterns r) = length vs" using r(1) by (simp add: row_good_def)
  have ex: "exact ?p" using r len nth_mem [of col "row_patterns r"] by (simp add: row_good_def good_def)
  consider (wild) "is_wildcard ?p" | (or) alts where "?p = POr alts" | (own) d where "pattern_constructor ?p = Some d"
    using pattern_kind [of ?p] by blast
  then show ?thesis
  proof cases
    case wild
    have "row_spec v (take col vs @ sub_values c (vs ! col) @ drop (col + 1) vs)
        (row_with r col (replicate (arity c) Wildcard) (var_binding ?p a)) = row_spec v vs r"
      using sols_wild [of "sub_values c (vs ! col)"] sol_wildcard [OF wild a]
      by (intro row_spec_single [OF len r(2)]) simp_all
    then show ?thesis using wild by (simp add: specialize_row_def)
  next
    case or
    then show ?thesis using specialize_or [OF r or] c by simp
  next
    case (own d)
    then have "d \<in> set (contribs ?p)" by (cases ?p) (auto simp: contribs_def own_ctor_def)
    note sol = has_constructor_sol [OF c ex own this]
    have sp: "specialize_row col c a r =
        (if has_constructor ?p c then [row_with r col (extract_sub_patterns ?p c) (rest_bindings ?p a)] else [])"
      using own by (cases ?p) (auto simp: specialize_row_def is_wildcard_def Let_def)
    show ?thesis
    proof (cases "has_constructor ?p c")
      case True
      then have "row_spec v (take col vs @ sub_values c (vs ! col) @ drop (col + 1) vs)
          (row_with r col (extract_sub_patterns ?p c) (rest_bindings ?p a)) = row_spec v vs r"
        using sol rest_bound(1) [OF ex a] sub_length [OF ex own, of c] own
        by (intro row_spec_single [OF len r(2)]) (auto simp: has_constructor_def)
      then show ?thesis using True by (simp add: sp)
    next
      case False
      then show ?thesis using no_solution [OF len r(2), of v] sol by (simp add: sp)
    qed
  qed
qed

lemma specialize_row_cases:
  assumes "s \<in> set (specialize_row col c a r)"
  obtains (wild) "is_wildcard (row_patterns r ! col)"
      "s = row_with r col (replicate (arity c) Wildcard) (var_binding (row_patterns r ! col) a)"
    | (or) alts q where "row_patterns r ! col = POr alts" "q \<in> set alts" "is_wildcard q \<or> has_constructor q c"
      "s = row_with r col (extract_sub_patterns q c) (var_binding q a)"
    | (own) "has_constructor (row_patterns r ! col) c"
      "s = row_with r col (extract_sub_patterns (row_patterns r ! col) c) (rest_bindings (row_patterns r ! col) a)"
proof (cases "\<exists>alts. row_patterns r ! col = POr alts")
  case True
  then show ?thesis using assms or by (auto simp: specialize_row_def is_wildcard_def)
next
  case False
  then show ?thesis using assms wild own
    by (cases "row_patterns r ! col") (auto simp: specialize_row_def Let_def split: if_splits)
qed

lemma var_loads: "load_access_path a v = Some w \<Longrightarrow> loads v (var_binding p a)"
  by (auto simp: loads_def var_binding_def split: hir_pattern.splits)

lemma has_constructor_sub:
  assumes "good C g q" "has_constructor q c"
  shows "length (extract_sub_patterns q c) = arity c" "p \<in> set (extract_sub_patterns q c) \<Longrightarrow> good C g p"
  using assms sub_length [of q] good_sub [of C g q p c]
  by (auto simp: good_def has_constructor_def split: option.splits)

lemma specialize_row_good:
  assumes "row_good C n r" "col < n" "s \<in> set (specialize_row col c a r)"
  shows "row_good C (n - 1 + arity c) s"
proof -
  have good: "good C (has_guard r) (row_patterns r ! col)" using assms(1,2) by (simp add: row_good_def)
  show ?thesis using assms(3)
  proof (cases rule: specialize_row_cases)
    case wild
    then show ?thesis using row_with_good [OF assms(1,2), of "replicate (arity c) Wildcard"] by simp
  next
    case (or alts q)
    then have "good C (has_guard r) q" "has_constructor q c"
      using good by (auto simp: good_def list_all_iff exact_alternative_def is_wildcard_def split: hir_pattern.splits)
    then show ?thesis using row_with_good [OF assms(1,2), of "extract_sub_patterns q c"] has_constructor_sub or(4) by metis
  next
    case own
    then show ?thesis using row_with_good [OF assms(1,2), of "extract_sub_patterns (row_patterns r ! col) c"]
        has_constructor_sub [OF good own(1)] by metis
  qed
qed

lemma specialize_row_loads:
  assumes "exact (row_patterns r ! col)" "load_access_path a v = Some w" "loads v (row_bindings r)"
    and "s \<in> set (specialize_row col c a r)"
  shows "loads v (row_bindings s)"
  using assms(4) by (cases rule: specialize_row_cases) (simp_all add: assms(3) var_loads [OF assms(2)] rest_bound(2) [OF assms(1,2)])

section \<open>The default rows\<close>

lemma default_row_good:
  assumes "row_good C n r" "col < n"
  shows "row_good C (n - 1) (row_with r col [] bs)"
  using row_with_good [OF assms, of "[]" bs] by simp

definition default_rows :: "nat \<Rightarrow> access_path \<Rightarrow> pattern_row \<Rightarrow> pattern_row list" where
  "default_rows col a r =
     (if is_wildcard (row_patterns r ! col) then [row_with r col [] (var_binding (row_patterns r ! col) a)] else [])"

lemma default_matrix_rows:
  "default_matrix rows col a = (if short_row col rows then None else Some (concat (map (default_rows col a) rows)))"
proof -
  have "map (\<lambda>r. row_with r col [] (var_binding (row_patterns r ! col) a)) (filter (\<lambda>r. is_wildcard (row_patterns r ! col)) rows)
      = concat (map (default_rows col a) rows)"
    by (induction rows) (simp_all add: default_rows_def [abs_def])
  then show ?thesis by (simp add: default_matrix_def)
qed

lemma default_split:
  assumes r: "row_good C (length vs) r" "col < length vs" and a: "load_access_path a v = Some (vs ! col)"
    and "\<not> is_wildcard (row_patterns r ! col) \<Longrightarrow> sol (row_patterns r ! col) (vs ! col) = {}"
  shows "splits_to (row_spec v vs r) (map (row_spec v (take col vs @ drop (col + 1) vs)) (default_rows col a r))"
proof -
  have len: "length (row_patterns r) = length vs" using r(1) by (simp add: row_good_def)
  show ?thesis
  proof (cases "is_wildcard (row_patterns r ! col)")
    case True
    then show ?thesis using row_spec_single [OF len r(2), of "[]" "[]" v "var_binding (row_patterns r ! col) a"]
        sol_wildcard [OF True a] by (simp add: default_rows_def)
  next
    case False
    then show ?thesis using no_solution [OF len r(2), of v] assms(4) by (simp add: default_rows_def)
  qed
qed

section \<open>The compiler\<close>

lemma best_column_in: "best_column rows cs best n \<in> insert best (set cs)"
  by (induction rows cs best n rule: best_column.induct) auto

lemma select_column_good:
  assumes "\<forall>s \<in> set (r # rows). row_good C n s" "\<not> list_all is_wildcard (row_patterns r)"
  obtains col where "select_column (r # rows) = Some col" "col < n"
proof -
  have n: "length (row_patterns s) = n" if "s \<in> set (r # rows)" for s using assms(1) that by (auto simp: row_good_def)
  have "0 < n" using assms(2) n [of r] by (cases "row_patterns r") auto
  then have "best_column (r # rows) [0..<n] 0 0 < n" using best_column_in [of "r # rows" "[0..<n]" 0 0] by auto
  moreover have "select_column (r # rows) = Some (best_column (r # rows) [0..<n] 0 0)"
    using n by (auto simp: select_column_def list_ex_iff)
  ultimately show ?thesis using that by blast
qed

lemma sub_access_length [simp]: "length (sub_access a c) = arity c"
  by (cases c) (simp_all add: sub_access_def)

lemma expand_length: "col < length acc \<Longrightarrow> length (expand_access acc col c) = length acc - 1 + arity c"
  by (simp add: expand_access_def)

lemma remove_length: "col < length acc \<Longrightarrow> length (remove_column acc col) = length acc - 1"
  by (simp add: remove_column_def)

lemma those_map: "(\<And>x. x \<in> set xs \<Longrightarrow> f x \<noteq> None) \<Longrightarrow> \<exists>ys. those (map f xs) = Some ys"
proof (induction xs)
  case (Cons x xs)
  then obtain ys where "those (map f xs) = Some ys" by auto
  moreover obtain y where "f x = Some y" using Cons.prems [of x] by auto
  ultimately show ?case by simp
qed simp

lemma those_member: "those (map f xs) = Some ys \<Longrightarrow> y \<in> set ys \<Longrightarrow> \<exists>x \<in> set xs. f x = Some y"
  by (induction xs arbitrary: ys) (auto split: option.splits)

lemma those_covers: "those (map f xs) = Some ys \<Longrightarrow> x \<in> set xs \<Longrightarrow> \<exists>y \<in> set ys. f x = Some y"
  by (induction xs arbitrary: ys) (auto split: option.splits)

lemma good_not_short: "(\<forall>s \<in> set rows. row_good C n s) \<Longrightarrow> col < n \<Longrightarrow> \<not> short_row col rows"
  by (auto simp: short_row_def list_ex_iff row_good_def)

text \<open>The matrix is rectangular throughout: no index the compiler takes is out of range.\<close>

lemma compile_total:
  "(\<forall>r \<in> set rows. row_good C (length acc) r) \<Longrightarrow> \<exists>t. compile_matrix rows acc = Some t"
proof (induction rows acc rule: compile_matrix.induct)
  case (2 r rows acc)
  show ?case
  proof (cases "list_all is_wildcard (row_patterns r)")
    case True
    then show ?thesis using 2 by (cases "has_guard r") auto
  next
    case False
    let ?m = "r # rows"
    obtain col where col: "select_column ?m = Some col" "col < length acc"
      using select_column_good [OF "2.prems" False] by blast
    have short: "\<not> short_row col ?m" using good_not_short [OF "2.prems" col(2)] .
    obtain ctors where ctors: "collect_constructors ?m col = Some ctors" using short by (simp add: collect_constructors_def)
    obtain dm where dm: "default_matrix ?m col (acc ! col) = Some dm" using short by (simp add: default_matrix_rows)
    have sp: "specialize ?m col c a = Some (concat (map (specialize_row col c a) ?m))" for c a
      using short by (simp add: specialize_def)
    have "\<exists>t. compile_matrix (concat (map (specialize_row col c (acc ! col)) ?m)) (expand_access acc col c) = Some t"
      if "c \<in> set ctors" for c
      using 2(2) [OF False col(1) _ refl ctors dm that sp] specialize_row_good [OF _ col(2), of C] "2.prems" col(2)
      by (fastforce simp: expand_length)
    then have "\<exists>cases. those (map (\<lambda>c. case specialize ?m col c (acc ! col) of None \<Rightarrow> None
        | Some m \<Rightarrow> map_option (Pair c) (compile_matrix m (expand_access acc col c))) ctors) = Some cases"
      by (intro those_map) (simp add: sp del: compile_matrix.simps)
    then obtain cases where cases: "those (map (\<lambda>c. case specialize ?m col c (acc ! col) of None \<Rightarrow> None
        | Some m \<Rightarrow> map_option (Pair c) (compile_matrix m (expand_access acc col c))) ctors) = Some cases" ..
    have "\<exists>t. compile_matrix dm (remove_column acc col) = Some t" if "dm \<noteq> []"
      using 2(3) [OF False col(1) _ refl ctors dm cases that] default_row_good [OF _ col(2), of C] "2.prems" col(2) dm short
      by (fastforce simp: remove_length default_matrix_rows default_rows_def split: if_splits)
    then show ?thesis using False col ctors dm cases by auto
  qed
qed simp

lemma run_cases_first:
  "(\<exists>c t. (c, t) \<in> set cases \<and> emit_constructor_test w c \<and> run_cases cases d w v = run_tree t v)
    \<or> (\<forall>(c, t) \<in> set cases. \<not> emit_constructor_test w c)
      \<and> run_cases cases d w v = (case d of None \<Rightarrow> NoMatch | Some t \<Rightarrow> run_tree t v)"
proof (induction cases)
  case (Cons ct cases)
  obtain c t where ct: "ct = (c, t)" by (cases ct)
  show ?case
  proof (cases "emit_constructor_test w c")
    case True
    then have "run_cases (ct # cases) d w v = run_tree t v" by (simp add: ct)
    then show ?thesis using True ct by (meson list.set_intros(1))
  next
    case False
    then have "run_cases (ct # cases) d w v = run_cases cases d w v" by (simp add: ct)
    then show ?thesis using Cons False ct by (metis (no_types, lifting) case_prod_conv list.set_intros(2) set_ConsD)
  qed
qed simp

lemma wild_bindings: "is_wildcard p \<Longrightarrow> collect_pattern_bindings p a = var_binding p a"
  by (auto simp: is_wildcard_def var_binding_def split: hir_pattern.splits)

lemma wild_sols:
  assumes "reads v acc vs" "list_all is_wildcard ps" "length ps = length acc"
  shows "sols ps vs = {bound v (concat (map (\<lambda>(p, a). collect_pattern_bindings p a) (zip ps acc)))}
    \<and> loads v (concat (map (\<lambda>(p, a). collect_pattern_bindings p a) (zip ps acc)))"
  using assms unfolding reads_def
proof (induction acc vs arbitrary: ps rule: list_all2_induct)
  case (Cons a acc w vs)
  then obtain p qs where ps: "ps = p # qs" "length qs = length acc" by (cases ps) auto
  then show ?case using Cons sol_wildcard [OF _ Cons(1), of p] var_loads [OF Cons(1), of p]
    by (simp add: wild_bindings join_single)
qed simp

lemma leaf_sols:
  assumes "reads v acc vs" "list_all is_wildcard (row_patterns r)" "length (row_patterns r) = length acc" "loads v (row_bindings r)"
  obtains e where "establish (row_leaf r acc) v = Some e" "row_sols v vs r = {set e}"
proof -
  note w = wild_sols [OF assms(1-3)]
  then obtain e where "establish (row_leaf r acc) v = Some e" "set e = bound v (row_leaf r acc)"
    using establish_loads [of v "row_leaf r acc"] assms(4) by (auto simp: row_leaf_def)
  then show ?thesis using that w by (simp add: row_sols_def join_single row_leaf_def)
qed

lemma column_good:
  assumes "\<forall>r \<in> set rows. row_good C n r" "col < n" "p \<in> set (column rows col)"
  shows "\<exists>g. good C g p"
  using assms by (fastforce simp: column_def row_good_def)

lemma column_contribs: "r \<in> set rows \<Longrightarrow> d \<in> set (contribs (row_patterns r ! col)) \<Longrightarrow> d \<in> set (column_ctors rows col)"
  by (auto simp: column_ctors_def column_def)

lemma column_split_by:
  assumes "\<forall>r \<in> set rows. row_good C n r" "col < n" "collect_constructors rows col = Some cs"
    and "\<forall>c \<in> C. \<forall>d \<in> C. \<not> clash c d" and "c \<in> set cs" "emit_constructor_test w c" "r \<in> set rows"
  shows "split_by c w (row_patterns r ! col)"
proof -
  note good = column_good [OF assms(1,2)]
  have "list_all exact (column rows col)" using good by (auto simp: list_all_iff good_def)
  then show ?thesis using collected_keys_distinct [OF assms(3,5)] column_serves [OF assms(3) _ _ assms(5)]
      column_compatible [OF assms(3) good assms(4,5) _ assms(6)] column_contribs [OF assms(7)] assms(6)
    by (auto simp: split_by_def)
qed

lemma column_unmatched:
  assumes "\<forall>r \<in> set rows. row_good C n r" "col < n" "collect_constructors rows col = Some cs"
    and "\<forall>c \<in> set cs. \<not> emit_constructor_test w c" "r \<in> set rows" "\<not> is_wildcard (row_patterns r ! col)"
  shows "sol (row_patterns r ! col) w = {}"
proof (rule ccontr)
  assume sol: "sol (row_patterns r ! col) w \<noteq> {}"
  have ex: "list_all exact (column rows col)" using column_good [OF assms(1,2)] by (auto simp: list_all_iff good_def)
  then have p: "exact (row_patterns r ! col)" using assms(5) by (auto simp: list_all_iff column_def)
  obtain d where "d \<in> set (contribs (row_patterns r ! col))" "emit_constructor_test w d"
  proof (cases "\<exists>alts. row_patterns r ! col = POr alts")
    case True
    then obtain alts q where q: "row_patterns r ! col = POr alts" "q \<in> set alts" "sol q w \<noteq> {}" using sol by (auto simp: sol_or) blast
    then obtain d where "exact q" "pattern_constructor q = Some d" using p by (auto simp: list_all_iff exact_alternative_def)
    then show ?thesis using that [of d] q sol_test [of q w d] by (force simp: contribs_def own_ctor_def)
  next
    case False
    then obtain d where d: "pattern_constructor (row_patterns r ! col) = Some d" using pattern_kind assms(6) by blast
    then have "d \<in> set (contribs (row_patterns r ! col))"
      by (cases "row_patterns r ! col") (auto simp: contribs_def own_ctor_def)
    then show ?thesis using that [of d] sol_test [OF sol d p] by blast
  qed
  then show False using column_represented [OF assms(3) ex column_contribs [OF assms(5)]] assms(4) by blast
qed

lemma concat_map_specs:
  "follows (map f (concat (map g rows))) t \<Longrightarrow> (\<And>r. r \<in> set rows \<Longrightarrow> splits_to (h r) (map f (g r))) \<Longrightarrow> follows (map h rows) t"
  by (rule follows_split [of _ "map (\<lambda>r. map f (g r)) rows"])
    (auto simp: list_all2_map1 list_all2_map2 list_all2_same map_concat o_def)

text \<open>One switch, taken apart and put together.\<close>

abbreviation specialized :: "pattern_row list \<Rightarrow> nat \<Rightarrow> access_path \<Rightarrow> ctor \<Rightarrow> pattern_row list" where
  "specialized rows col a c \<equiv> concat (map (specialize_row col c a) rows)"

abbreviation defaults :: "pattern_row list \<Rightarrow> nat \<Rightarrow> access_path \<Rightarrow> pattern_row list" where
  "defaults rows col a \<equiv> concat (map (default_rows col a) rows)"

lemma compile_switch:
  assumes "compile_matrix (r # rows) acc = Some t" "\<not> list_all is_wildcard (row_patterns r)"
  obtains col ctors cases d where
    "select_column (r # rows) = Some col" "col < length acc" "collect_constructors (r # rows) col = Some ctors"
    "t = Switch (acc ! col) cases d" "fst ` set cases = set ctors"
    "\<And>c u. (c, u) \<in> set cases \<Longrightarrow> compile_matrix (specialized (r # rows) col (acc ! col) c) (expand_access acc col c) = Some u"
    "those (map (\<lambda>c. case specialize (r # rows) col c (acc ! col) of None \<Rightarrow> None
        | Some m \<Rightarrow> map_option (Pair c) (compile_matrix m (expand_access acc col c))) ctors) = Some cases"
    "d = None \<and> defaults (r # rows) col (acc ! col) = [] \<or> (\<exists>u. defaults (r # rows) col (acc ! col) \<noteq> [] \<and> d = Some u
        \<and> compile_matrix (defaults (r # rows) col (acc ! col)) (remove_column acc col) = Some u)"
proof -
  let ?m = "r # rows"
  obtain col ctors where col: "select_column ?m = Some col" "col < length acc" and ctors: "collect_constructors ?m col = Some ctors"
    using assms by (auto split: option.splits if_splits)
  have short: "\<not> short_row col ?m" using ctors by (auto simp: collect_constructors_def split: if_splits)
  have dm: "default_matrix ?m col (acc ! col) = Some (defaults ?m col (acc ! col))" using short by (simp only: default_matrix_rows if_False)
  have sp: "specialize ?m col c a = Some (specialized ?m col a c)" for c a using short by (simp only: specialize_def if_False)
  let ?case = "\<lambda>c. case specialize ?m col c (acc ! col) of None \<Rightarrow> None
      | Some m \<Rightarrow> map_option (Pair c) (compile_matrix m (expand_access acc col c))"
  obtain cases d where cases: "those (map ?case ctors) = Some cases" and t: "t = Switch (acc ! col) cases d"
    and d: "d = None \<and> defaults ?m col (acc ! col) = [] \<or> (\<exists>u. defaults ?m col (acc ! col) \<noteq> [] \<and> d = Some u
        \<and> compile_matrix (defaults ?m col (acc ! col)) (remove_column acc col) = Some u)"
    using assms(1,2) col ctors dm by (simp split: option.splits if_splits) blast
  have sub: "compile_matrix (specialized ?m col (acc ! col) c) (expand_access acc col c) = Some u"
    if "(c, u) \<in> set cases" for c u using those_member [OF cases that] by (auto simp: sp)
  have "fst ` set cases = set ctors"
    using those_member [OF cases] those_covers [OF cases] by (force simp: sp)
  then show ?thesis using that [OF col ctors t _ sub cases d] by blast
qed

lemma specialized_rows:
  assumes "\<forall>r \<in> set rows. row_good C (length acc) r \<and> loads v (row_bindings r)" "col < length acc"
    and "load_access_path (acc ! col) v = Some w"
  shows "\<forall>s \<in> set (specialized rows col (acc ! col) c). row_good C (length (expand_access acc col c)) s \<and> loads v (row_bindings s)"
proof
  fix s assume "s \<in> set (specialized rows col (acc ! col) c)"
  then obtain r where r: "r \<in> set rows" "s \<in> set (specialize_row col c (acc ! col) r)" by auto
  then have "row_good C (length acc) r" "loads v (row_bindings r)" using assms(1) by blast+
  moreover from this have "exact (row_patterns r ! col)" using assms(2) by (auto simp: row_good_def good_def)
  ultimately show "row_good C (length (expand_access acc col c)) s \<and> loads v (row_bindings s)"
    using specialize_row_good [OF _ assms(2) r(2)] specialize_row_loads [OF _ assms(3) _ r(2)] by (simp add: expand_length assms(2))
qed

lemma default_rows_good:
  assumes "\<forall>r \<in> set rows. row_good C (length acc) r \<and> loads v (row_bindings r)" "col < length acc"
    and "load_access_path (acc ! col) v = Some w"
  shows "\<forall>s \<in> set (defaults rows col (acc ! col)). row_good C (length (remove_column acc col)) s \<and> loads v (row_bindings s)"
  using assms default_row_good [of C "length acc" _ col] var_loads [OF assms(3)]
  by (auto simp: default_rows_def remove_length split: if_splits)

lemma specialized_follows:
  assumes "\<forall>r \<in> set rows. row_good C (length vs) r" "col < length vs" "load_access_path a v = Some (vs ! col)"
    and "collect_constructors rows col = Some cs" "\<forall>c \<in> C. \<forall>d \<in> C. \<not> clash c d" "c \<in> set cs" "emit_constructor_test (vs ! col) c"
    and "follows (map (row_spec v (take col vs @ sub_values c (vs ! col) @ drop (col + 1) vs)) (specialized rows col a c)) t"
  shows "follows (map (row_spec v vs) rows) t"
  using assms(8)
proof (rule concat_map_specs)
  fix r assume "r \<in> set rows"
  then show "splits_to (row_spec v vs r) (map (row_spec v (take col vs @ sub_values c (vs ! col) @ drop (col + 1) vs)) (specialize_row col c a r))"
    using specialize_split [OF _ assms(2,3)] column_split_by [OF assms(1,2,4-7)] assms(1) by blast
qed

lemma default_follows:
  assumes "\<forall>r \<in> set rows. row_good C (length vs) r" "col < length vs" "load_access_path a v = Some (vs ! col)"
    and "collect_constructors rows col = Some cs" "\<forall>c \<in> set cs. \<not> emit_constructor_test (vs ! col) c"
    and "follows (map (row_spec v (take col vs @ drop (col + 1) vs)) (defaults rows col a)) t"
  shows "follows (map (row_spec v vs) rows) t"
  using assms(6)
proof (rule concat_map_specs)
  fix r assume "r \<in> set rows"
  then show "splits_to (row_spec v vs r) (map (row_spec v (take col vs @ drop (col + 1) vs)) (default_rows col a r))"
    using default_split [OF _ assms(2,3)] column_unmatched [OF assms(1,2,4,5)] assms(1) by blast
qed

lemma leaf_follows:
  assumes "compile_matrix (r # rows) acc = Some t" "list_all is_wildcard (row_patterns r)" "reads v acc vs"
    and "row_good C (length acc) r" "loads v (row_bindings r)"
    and "\<And>u. has_guard r \<Longrightarrow> compile_matrix rows acc = Some u \<Longrightarrow> follows (map (row_spec v vs) rows) (run_tree u v)"
  shows "follows (map (row_spec v vs) (r # rows)) (run_tree t v)"
proof -
  obtain e where e: "establish (row_leaf r acc) v = Some e" "row_sols v vs r = {set e}"
    using leaf_sols [OF assms(3,2) _ assms(5)] assms(4) by (auto simp: row_good_def)
  show ?thesis
  proof (cases "has_guard r")
    case True
    then obtain u where u: "compile_matrix rows acc = Some u" "t = Guard (arm_index r) (row_leaf r acc) u"
      using assms(1,2) by auto
    show ?thesis using assms(6) [OF True u(1)] u(2) e True by (simp add: row_spec_def [of v vs r])
  next
    case False
    then show ?thesis using assms(1,2) e by (auto simp: row_spec_def [of v vs r])
  qed
qed

lemma default_run:
  assumes "d = None \<and> rows = [] \<or> (\<exists>u. rows \<noteq> [] \<and> d = Some u \<and> compile_matrix rows acc = Some u)"
    and "\<And>u. rows \<noteq> [] \<Longrightarrow> compile_matrix rows acc = Some u \<Longrightarrow> follows (map f rows) (run_tree u v)"
  shows "follows (map f rows) (case d of None \<Rightarrow> NoMatch | Some t \<Rightarrow> run_tree t v)"
  using assms by auto

theorem compile_follows:
  assumes C: "\<forall>c \<in> C. \<forall>d \<in> C. \<not> clash c d"
  shows "compile_matrix rows acc = Some t \<Longrightarrow> reads v acc vs \<Longrightarrow>
    \<forall>r \<in> set rows. row_good C (length acc) r \<and> loads v (row_bindings r) \<Longrightarrow>
    follows (map (row_spec v vs) rows) (run_tree t v)"
proof (induction rows acc arbitrary: vs t rule: compile_matrix.induct)
  case (2 r rows acc)
  let ?m = "r # rows"
  have good: "\<forall>s \<in> set ?m. row_good C (length acc) s" using "2.prems"(3) by blast
  have len: "length acc = length vs" using "2.prems"(2) by (simp add: reads_def list_all2_lengthD)
  show ?case
  proof (cases "list_all is_wildcard (row_patterns r)")
    case True
    then show ?thesis using 2(1) [OF True _ _ "2.prems"(2)] "2.prems" by (intro leaf_follows [OF "2.prems"(1) True "2.prems"(2)]) auto
  next
    case False
    obtain col ctors cases d where
      col: "select_column ?m = Some col" "col < length acc" and ctors: "collect_constructors ?m col = Some ctors"
      and t: "t = Switch (acc ! col) cases d" and fst: "fst ` set cases = set ctors"
      and sub: "\<And>c u. (c, u) \<in> set cases \<Longrightarrow> compile_matrix (specialized ?m col (acc ! col) c) (expand_access acc col c) = Some u"
      and cases: "those (map (\<lambda>c. case specialize ?m col c (acc ! col) of None \<Rightarrow> None
        | Some m \<Rightarrow> map_option (Pair c) (compile_matrix m (expand_access acc col c))) ctors) = Some cases"
      and d: "d = None \<and> defaults ?m col (acc ! col) = [] \<or> (\<exists>u. defaults ?m col (acc ! col) \<noteq> [] \<and> d = Some u
        \<and> compile_matrix (defaults ?m col (acc ! col)) (remove_column acc col) = Some u)"
      by (rule compile_switch [OF "2.prems"(1) False], rule that)
    have le: "\<not> length acc \<le> col" using col(2) by simp
    have short: "\<not> short_row col ?m" using good_not_short [OF good col(2)] .
    note w = reads_split(3) [OF "2.prems"(2) col(2)]
    have run: "run_tree t v = run_cases cases d (vs ! col) v" by (simp add: t w)
    have dm: "default_matrix ?m col (acc ! col) = Some (defaults ?m col (acc ! col))" using short by (simp only: default_matrix_rows if_False)
    from run_cases_first [of cases "vs ! col" d v] show ?thesis
    proof (elim disjE exE conjE)
      fix c u assume c: "(c, u) \<in> set cases" "emit_constructor_test (vs ! col) c" "run_cases cases d (vs ! col) v = run_tree u v"
      have ctor: "c \<in> set ctors" using c(1) fst by force
      have "follows (map (row_spec v (take col vs @ sub_values c (vs ! col) @ drop (col + 1) vs)) (specialized ?m col (acc ! col) c)) (run_tree u v)"
        by (rule 2(2) [OF False col(1) le refl ctors dm ctor _ sub [OF c(1)] reads_expand [OF "2.prems"(2) col(2) c(2)]
              specialized_rows [OF "2.prems"(3) col(2) w]]) (use short in \<open>simp only: specialize_def if_False\<close>)
      then show ?thesis
        using specialized_follows [OF good [unfolded len] col(2) [unfolded len] w ctors C ctor c(2)] c(3) run by simp
    next
      assume none: "\<forall>(c, t) \<in> set cases. \<not> emit_constructor_test (vs ! col) c"
        and rd: "run_cases cases d (vs ! col) v = (case d of None \<Rightarrow> NoMatch | Some t \<Rightarrow> run_tree t v)"
      have "follows (map (row_spec v (take col vs @ drop (col + 1) vs)) (defaults ?m col (acc ! col))) (run_tree t v)"
        unfolding run rd
        by (rule default_run [OF d], rule 2(3) [OF False col(1) le refl ctors dm cases _ _ reads_remove [OF "2.prems"(2) col(2)]
              default_rows_good [OF "2.prems"(3) col(2) w]])
      moreover have "\<forall>c \<in> set ctors. \<not> emit_constructor_test (vs ! col) c" using none fst by force
      ultimately show ?thesis using default_follows [OF good [unfolded len] col(2) [unfolded len] w ctors] by blast
    qed
  qed
qed simp

end
