(* ===== verification/Match_Claims.thy ===== *)
theory Match_Claims
  imports Match_Correct
begin

text \<open>
  What a \<^verbatim>\<open>match\<close> does with its arms: the two lowerings against the specification and against each
  other, the arms that are reported unreachable, and the patterns on which the two differ.
\<close>

section \<open>Rows\<close>

text \<open>
  A list of alternatives, each with its arm and whether the arm has a guard, stands for the
  one-column matrix the compiler starts from.
\<close>

definition exact_rows :: "(nat \<times> hir_pattern \<times> bool) list \<Rightarrow> bool" where
  "exact_rows alts \<longleftrightarrow>
     list_all (\<lambda>(i, p, g). exact p \<and> (g \<longrightarrow> or_free p)) alts
     \<and> clash_free (concat (map (\<lambda>(i, p, g). all_ctors p) alts))"

definition exact_arms :: "arm list \<Rightarrow> bool" where
  "exact_arms arms \<longleftrightarrow> exact_rows (alternatives arms)"

definition first_rows :: "(nat \<times> hir_pattern \<times> bool) list \<Rightarrow> pattern_row list" where
  "first_rows alts = map (\<lambda>(i, q, g). row_new [q] g i) alts"

definition row_specs :: "(nat \<times> hir_pattern \<times> bool) list \<Rightarrow> mvalue \<Rightarrow> spec_row list" where
  "row_specs alts v = map (\<lambda>(i, p, g). (i, g, set ` set (ways p v))) alts"

definition arm_specs :: "arm list \<Rightarrow> mvalue \<Rightarrow> spec_row list" where
  "arm_specs arms v = row_specs (alternatives arms) v"

lemma from_arms_rows: "from_arms arms = first_rows (alternatives arms)"
  by (simp add: from_arms_def alternatives_def first_rows_def map_concat o_def case_prod_unfold)

lemma first_rows_good:
  assumes "exact_rows alts" "r \<in> set (first_rows alts)"
  shows "row_good (set (concat (map (\<lambda>(i, p, g). all_ctors p) alts))) 1 r \<and> loads v (row_bindings r)"
proof -
  obtain i q g where q: "(i, q, g) \<in> set alts" "r = row_new [q] g i"
    using assms(2) by (auto simp: first_rows_def)
  then have "exact q \<and> (g \<longrightarrow> or_free q)" using assms(1) by (auto simp: exact_rows_def list_all_iff)
  then show ?thesis using q by (force simp: row_good_def good_def row_new_def)
qed

lemma first_rows_spec: "map (row_spec v [v]) (first_rows alts) = row_specs alts v"
  by (auto simp: first_rows_def row_specs_def row_spec_def row_sols_def row_new_def sol_def)

lemma compile_rows:
  assumes "exact_rows alts"
  obtains t where "compile_matrix (first_rows alts) [Root] = Some t" "\<And>v. follows (row_specs alts v) (run_tree t v)"
proof -
  let ?C = "set (concat (map (\<lambda>(i, p, g). all_ctors p) alts))"
  have C: "\<forall>c \<in> ?C. \<forall>d \<in> ?C. \<not> clash c d" using assms by (auto simp: exact_rows_def clash_free_def list_all_iff)
  have good: "\<forall>r \<in> set (first_rows alts). row_good ?C (length [Root]) r \<and> loads v (row_bindings r)" for v
    using first_rows_good [OF assms] by simp
  then obtain t where t: "compile_matrix (first_rows alts) [Root] = Some t"
    using compile_total [of "first_rows alts" ?C "[Root]"] by blast
  have "follows (row_specs alts v) (run_tree t v)" for v
    using compile_follows [OF C t, of v "[v]"] good by (simp add: first_rows_spec reads_def)
  then show ?thesis using that t by blast
qed

lemma compile_arms:
  assumes "exact_arms arms"
  obtains t where "compile_match arms = Some t" "\<And>v. follows (arm_specs arms v) (run_tree t v)"
  using compile_rows [of "alternatives arms"] assms
  by (auto simp: exact_arms_def compile_match_def from_arms_rows arm_specs_def)

lemma sequential_follows:
  "follows (row_specs alts v) (lower_match_sequential alts v)"
  unfolding row_specs_def
proof (induction alts)
  case (Cons a alts)
  obtain i p g where a: "a = (i, p, g)" by (cases a)
  show ?case using Cons by (cases "ways p v") (simp_all add: a seq_first)
qed simp

section \<open>Or-free arms\<close>

definition at_most_one :: "env list \<Rightarrow> bool" where
  "at_most_one ws \<longleftrightarrow> length ws \<le> 1"

lemma at_most_one_simps [simp]: "at_most_one []" "at_most_one [e]"
  by (simp_all add: at_most_one_def)

lemma both_single: "at_most_one A \<Longrightarrow> at_most_one B \<Longrightarrow> at_most_one (both A B)"
  by (cases A; cases B) (simp_all add: both_def at_most_one_def)

lemma ways_seq_single: "(\<And>p v. p \<in> set ps \<Longrightarrow> at_most_one (ways p v)) \<Longrightarrow> at_most_one (ways_seq ps vs)"
proof (induction ps arbitrary: vs)
  case (Cons p ps)
  then show ?case by (cases vs) (auto intro!: both_single)
qed simp

lemma ways_list_single:
  "(\<And>p v. p \<in> set ps \<or> rest = Some p \<Longrightarrow> at_most_one (ways p v)) \<Longrightarrow> at_most_one (ways_list ps rest v)"
  by (induction ps arbitrary: v) (auto intro!: both_single split: option.split)

lemma ways_entries_single: "(\<And>k p v. (k, p) \<in> set es \<Longrightarrow> at_most_one (ways p v)) \<Longrightarrow> at_most_one (ways_entries es v)"
proof (induction es)
  case (Cons kp es)
  have "at_most_one (ways_entries es v)" by (rule Cons.IH) (metis Cons.prems list.set_intros(2))
  then show ?case using Cons.prems [of "fst kp" "snd kp"] by (cases kp) (simp add: both_single)
qed simp

lemma rest_single: "(\<And>p v. rest = Some p \<Longrightarrow> at_most_one (ways p v)) \<Longrightarrow> at_most_one (case rest of None \<Rightarrow> [[]] | Some r \<Rightarrow> ways r w)"
  by (cases rest) simp_all

lemma or_free_single: "or_free p \<Longrightarrow> at_most_one (ways p v)"
proof (induction p arbitrary: v)
  case (PPair h t)
  then show ?case by (auto intro!: both_single split: option.split)
next
  case (PList es rest)
  then show ?case by (auto intro!: ways_list_single simp: list_all_iff split: option.splits)
next
  case (PTuple es rest)
  have "at_most_one (ways_seq es ws)" for ws by (rule ways_seq_single) (use PTuple in \<open>auto simp: list_all_iff\<close>)
  then show ?case using PTuple rest_single [of rest] by (auto intro!: both_single split: option.splits)
next
  case (PArray es rest)
  have "at_most_one (ways_seq es ws)" for ws by (rule ways_seq_single) (use PArray in \<open>auto simp: list_all_iff\<close>)
  then show ?case using PArray rest_single [of rest] by (auto intro!: both_single split: option.splits)
next
  case (PStruct es rest)
  have "at_most_one (ways_entries es w)" for w by (rule ways_entries_single) (use PStruct in \<open>fastforce simp: list_all_iff\<close>)
  then show ?case using PStruct rest_single [of rest] by (auto intro!: both_single split: option.splits)
next
  case (PTable es rest)
  have "at_most_one (ways_entries es w)" for w by (rule ways_entries_single) (use PTable in \<open>fastforce simp: list_all_iff\<close>)
  then show ?case using PTable rest_single [of rest] by (auto intro!: both_single split: option.splits)
qed simp_all

text \<open>Two runs that try the same arms with the same bindings.\<close>

fun same_run :: "trail \<Rightarrow> trail \<Rightarrow> bool" where
  "same_run (Done i e) u = (case u of Done j f \<Rightarrow> j = i \<and> set f = set e | _ \<Rightarrow> False)"
| "same_run (Try i e t) u = (case u of Try j f u' \<Rightarrow> j = i \<and> set f = set e \<and> same_run t u' | _ \<Rightarrow> False)"
| "same_run NoMatch u = (u = NoMatch)"
| "same_run Stuck u = (u = Stuck)"

lemma follows_unique:
  "\<forall>(i, g, W) \<in> set rows. \<exists>x. W \<subseteq> {x} \<Longrightarrow> follows rows t \<Longrightarrow> follows rows u \<Longrightarrow> same_run t u"
proof (induction rows arbitrary: t u)
  case (Cons r rows)
  obtain i g W where r: "r = (i, g, W)" by (cases r)
  then obtain x where "W \<subseteq> {x}" using Cons.prems(1) by auto
  then have eq: "set f = set e" if "set e \<in> W" "set f \<in> W" for e f :: env using that by blast
  have ih: "same_run t u" if "follows rows t" "follows rows u" for t u using Cons that by simp
  show ?case using Cons.prems(2,3) ih by (cases "W = {}"; cases g) (auto simp: r simp del: set_eq_subset dest: eq)
qed simp

lemma arm_specs_single:
  assumes "list_all (\<lambda>(i, p, g). or_free p) (alternatives arms)"
  shows "\<forall>(i, g, W) \<in> set (arm_specs arms v). \<exists>x. W \<subseteq> {x}"
proof -
  have "\<exists>x. set ` set (ways p v) \<subseteq> {x}" if "or_free p" for p
    using or_free_single [OF that, of v] by (cases "ways p v") (auto simp: at_most_one_def)
  then show ?thesis using assms unfolding arm_specs_def row_specs_def list_all_iff by fastforce
qed

section \<open>Reachable arms\<close>

fun trail_arms :: "trail \<Rightarrow> nat set" where
  "trail_arms (Done i e) = {i}"
| "trail_arms (Try i e t) = insert i (trail_arms t)"
| "trail_arms NoMatch = {}"
| "trail_arms Stuck = {}"

lemma follows_arms: "follows rows t \<Longrightarrow> follows rows u \<Longrightarrow> trail_arms t = trail_arms u"
proof (induction rows arbitrary: t u)
  case (Cons r rows)
  obtain i g W where r: "r = (i, g, W)" by (cases r)
  consider (empty) "W = {}" | (guarded) "W \<noteq> {}" g | (unguarded) "W \<noteq> {}" "\<not> g" by blast
  then show ?case
  proof cases
    case empty
    then show ?thesis using Cons.IH [of t u] Cons.prems by (simp add: r)
  next
    case guarded
    then obtain e t' f u' where "t = Try i e t'" "u = Try i f u'" "follows rows t'" "follows rows u'"
      using Cons.prems by (auto simp: r)
    then show ?thesis using Cons.IH [of t' u'] by simp
  next
    case unguarded
    then show ?thesis using Cons.prems by (auto simp: r)
  qed
qed simp




section \<open>Matches that cannot fail\<close>

fun trail_end :: "trail \<Rightarrow> trail" where
  "trail_end (Try i e t) = trail_end t"
| "trail_end t = t"

definition catch_all :: "pattern_row \<Rightarrow> bool" where
  "catch_all r \<longleftrightarrow> \<not> has_guard r \<and> list_all is_wildcard (row_patterns r)"

lemma catch_all_with: "catch_all r \<Longrightarrow> list_all is_wildcard sub \<Longrightarrow> catch_all (row_with r col sub bs)"
  using in_set_takeD [of _ col "row_patterns r"] in_set_dropD [of _ "Suc col" "row_patterns r"]
  by (auto simp: catch_all_def row_with_def list_all_iff)

lemma wild_replicate: "list_all is_wildcard (replicate n Wildcard)"
  by (simp add: list_all_iff is_wildcard_def)

lemma catch_all_specialized:
  assumes "r \<in> set rows" "catch_all r" "col < length (row_patterns r)"
  shows "\<exists>s \<in> set (specialized rows col a c). catch_all s"
proof -
  have "is_wildcard (row_patterns r ! col)" using assms(2,3) by (simp add: catch_all_def list_all_iff)
  then have "row_with r col (replicate (arity c) Wildcard) (var_binding (row_patterns r ! col) a) \<in> set (specialize_row col c a r)"
    by (simp add: specialize_row_def)
  then show ?thesis using assms(1) catch_all_with [OF assms(2) wild_replicate, of col "arity c"] by force
qed

lemma catch_all_default:
  assumes "r \<in> set rows" "catch_all r" "col < length (row_patterns r)"
  shows "\<exists>s \<in> set (defaults rows col a). catch_all s"
proof -
  have "is_wildcard (row_patterns r ! col)" using assms(2,3) by (simp add: catch_all_def list_all_iff)
  then have "row_with r col [] (var_binding (row_patterns r ! col) a) \<in> set (default_rows col a r)" by (simp add: default_rows_def)
  then show ?thesis using assms(1) catch_all_with [OF assms(2), of "[]" col] by force
qed

lemma compile_catch_all:
  "compile_matrix rows acc = Some t \<Longrightarrow> r \<in> set rows \<Longrightarrow> catch_all r \<Longrightarrow> trail_end (run_tree t v) \<noteq> NoMatch"
proof (induction rows acc arbitrary: r t rule: compile_matrix.induct)
  case (2 r' rows acc)
  show ?case
  proof (cases "list_all is_wildcard (row_patterns r')")
    case True
    show ?thesis
    proof (cases "has_guard r'")
      case g: True
      then have "r \<in> set rows" using "2.prems"(2,3) by (auto simp: catch_all_def)
      then show ?thesis using 2(1) [OF True g] "2.prems"(1,3) True g by (auto split: option.splits)
    qed (use "2.prems"(1) True in \<open>auto split: option.splits\<close>)
  next
    case False
    let ?m = "r' # rows"
    obtain col ctors cases d where
      col: "select_column ?m = Some col" "col < length acc" and ctors: "collect_constructors ?m col = Some ctors"
      and t: "t = Switch (acc ! col) cases d" and fst: "fst ` set cases = set ctors"
      and sub: "\<And>c u. (c, u) \<in> set cases \<Longrightarrow> compile_matrix (specialized ?m col (acc ! col) c) (expand_access acc col c) = Some u"
      and cases: "those (map (\<lambda>c. case specialize ?m col c (acc ! col) of None \<Rightarrow> None
        | Some m \<Rightarrow> map_option (Pair c) (compile_matrix m (expand_access acc col c))) ctors) = Some cases"
      and d: "d = None \<and> defaults ?m col (acc ! col) = [] \<or> (\<exists>u. defaults ?m col (acc ! col) \<noteq> [] \<and> d = Some u
        \<and> compile_matrix (defaults ?m col (acc ! col)) (remove_column acc col) = Some u)"
      by (rule compile_switch [OF "2.prems"(1) False], rule that)
    have le: "\<not> length acc \<le> col" using col(2) by simp
    have short: "\<not> short_row col ?m" using ctors by (auto simp: collect_constructors_def split: if_splits)
    have len: "col < length (row_patterns r)" using short "2.prems"(2) unfolding short_row_def list_ex_iff by force
    have dm: "default_matrix ?m col (acc ! col) = Some (defaults ?m col (acc ! col))" using short by (simp only: default_matrix_rows if_False)
    have "trail_end (run_cases cases d w v) \<noteq> NoMatch" for w
      using run_cases_first [of cases w d v]
    proof (elim disjE exE conjE)
      fix c u assume c: "(c, u) \<in> set cases" "run_cases cases d w v = run_tree u v"
      obtain s where "s \<in> set (specialized ?m col (acc ! col) c)" "catch_all s" using catch_all_specialized [OF "2.prems"(2,3) len] by blast
      moreover have "c \<in> set ctors" using c(1) fst by force
      moreover have "specialize ?m col c (acc ! col) = Some (specialized ?m col (acc ! col) c)" using short by (simp only: specialize_def if_False)
      ultimately show ?thesis using 2(2) [OF False col(1) le refl ctors dm _ _ sub [OF c(1)]] c(2) by metis
    next
      assume rd: "run_cases cases d w v = (case d of None \<Rightarrow> NoMatch | Some t \<Rightarrow> run_tree t v)"
      obtain s where s: "s \<in> set (defaults ?m col (acc ! col))" "catch_all s" using catch_all_default [OF "2.prems"(2,3) len] by blast
      then obtain u where "defaults ?m col (acc ! col) \<noteq> []" "d = Some u"
        "compile_matrix (defaults ?m col (acc ! col)) (remove_column acc col) = Some u" using d by force
      then show ?thesis using 2(3) [OF False col(1) le refl ctors dm cases _ _ s] rd by simp
    qed
    then show ?thesis by (simp add: t split: option.split)
  qed
qed simp

lemma irrefutable_expands: "is_irrefutable p \<Longrightarrow> \<exists>q \<in> set (expand_or_pattern p). is_wildcard q"
proof (induction p)
  case (POr alts)
  then obtain p where "p \<in> set alts" "is_irrefutable p" by (auto simp: list_ex_iff)
  then show ?case using POr.IH [of p] by (auto intro: bexI [of _ p])
qed (simp_all add: is_wildcard_def)

lemma irrefutable_alternative:
  assumes "list_ex (\<lambda>(p, g). \<not> g \<and> is_irrefutable p) arms"
  obtains i q where "(i, q, False) \<in> set (alternatives arms)" "is_wildcard q"
proof -
  obtain p where p: "(p, False) \<in> set arms" "is_irrefutable p" using assms by (auto simp: list_ex_iff)
  then obtain i where "i < length arms" "arms ! i = (p, False)" by (auto simp: in_set_conv_nth)
  then have i: "(i, p, False) \<in> set (enumerate 0 arms)" by (simp add: in_set_enumerate_eq)
  obtain q where "q \<in> set (expand_or_pattern p)" "is_wildcard q" using irrefutable_expands [OF p(2)] by blast
  then show ?thesis using that [of i q] i by (force simp: alternatives_def)
qed

lemma sequential_catch_all:
  "(i, q, False) \<in> set alts \<Longrightarrow> is_wildcard q \<Longrightarrow> trail_end (lower_match_sequential alts v) \<noteq> NoMatch"
proof (induction alts)
  case (Cons a alts)
  obtain j p g where a: "a = (j, p, g)" by (cases a)
  show ?case using Cons by (cases "lower_pattern_match p v"; cases "a = (i, q, False)") (auto simp: a is_wildcard_def split: hir_pattern.splits)
qed simp

section \<open>Examples\<close>

definition shapes :: "arm list" where
  "shapes =
     [(PPair (PLiteral (LInt 1)) (PVar 0), True),
      (PList [PVar 0, POr [PLiteral (LKeyword ''a''), PNil]] None, False),
      (PStruct [(PKeyword ''k'', PTuple [PVar 0] None), (PKeyword ''j'', Wildcard)] (Some (PVar 1)), False),
      (PVar 0, False)]"

lemmas arm_evaluations = exact_arms_def exact_rows_def alternatives_def enumerate_eq_zip exact_alternative_def plain_rest_def
  unnamed_rest_def keyed_rest_def is_wildcard_def own_ctor_def clash_free_def clash_def literal_clash_def
  literal_number_def literal_eq_def

section \<open>The contract of a lowering\<close>

text \<open>
  A lowering runs the arms it is \<open>fit\<close> for in the order of the specification. What follows from
  that alone is shared by the tree and the sequential code.
\<close>

locale lowering =
  fixes run :: "arm list \<Rightarrow> mvalue \<Rightarrow> trail option" and fit :: "arm list \<Rightarrow> bool"
  assumes in_order: "fit arms \<Longrightarrow> \<exists>t. run arms v = Some t \<and> follows (arm_specs arms v) t"
begin

lemma tried_arms:
  assumes "fit arms" "follows (arm_specs arms v) u"
  shows "\<exists>t. run arms v = Some t \<and> trail_arms t = trail_arms u"
  using in_order [OF assms(1), of v] follows_arms assms(2) by blast

lemma same_as:
  assumes "fit arms" "list_all (\<lambda>(i, p, g). or_free p) (alternatives arms)" "follows (arm_specs arms v) u"
  shows "\<exists>t. run arms v = Some t \<and> same_run t u"
  using in_order [OF assms(1), of v] follows_unique [OF arm_specs_single [OF assms(2)]] assms(3) by blast

end

interpretation tree: lowering "lower_match False" exact_arms
proof
  fix arms v assume "exact_arms arms"
  then show "\<exists>t. lower_match False arms v = Some t \<and> follows (arm_specs arms v) t"
    using compile_arms by (metis (no_types, lifting) lower_match_def option.simps(9))
qed

interpretation sequential: lowering "lower_match True" "\<lambda>arms. True"
  by unfold_locales (simp add: lower_match_def arm_specs_def sequential_follows)

section \<open>Claims\<close>

text \<open>
  C7: The tree implements the order of the arms. When the patterns are exact and no two of their
  constructors overlap, the compiler never indexes out of range, and on every value the emitted code
  passes over exactly the arms whose pattern has no solution, tries each guarded arm with a
  solution's bindings in turn, and ends in the first unguarded one, or in \<^verbatim>\<open>:match-error\<close>; no load
  signals.
\<close>
theorem tree_follows_arms:
  assumes "exact_arms arms"
  shows "\<exists>t. lower_match False arms v = Some t \<and> follows (arm_specs arms v) t"
  using assms by (rule tree.in_order)

lemma tree_follows_arms_witness:
  "exact_arms shapes \<and> (\<exists>t. lower_match False shapes (VPair (VInt 1) VNil) = Some t \<and> follows (arm_specs shapes (VPair (VInt 1) VNil)) t)"
proof -
  have "exact_arms shapes" by (simp add: shapes_def arm_evaluations)
  then show ?thesis using tree_follows_arms by blast
qed


text \<open>
  C8: Which lowering is chosen makes no difference. When the patterns are exact, free of nested
  or-patterns and without overlapping constructors, the two runs try the same arms in the same
  order, each with the same bindings, and end alike.
\<close>
theorem lowerings_agree:
  assumes "exact_arms arms" "list_all (\<lambda>(i, p, g). or_free p) (alternatives arms)"
  shows "\<exists>t u. lower_match False arms v = Some t \<and> lower_match True arms v = Some u \<and> same_run t u"
proof -
  obtain u where "lower_match True arms v = Some u" "follows (arm_specs arms v) u" using sequential.in_order by blast
  then show ?thesis using tree.same_as [OF assms] by blast
qed

definition plain_shapes :: "arm list" where
  "plain_shapes = [(POr [PLiteral (LInt 1), PLiteral (LString ''one'')], True), (PTuple [PVar 0, PVar 1] None, False)]"

lemma lowerings_agree_witness:
  "(exact_arms plain_shapes \<and> list_all (\<lambda>(i, p, g). or_free p) (alternatives plain_shapes))
    \<and> (\<exists>t u. lower_match False plain_shapes (VInt 1) = Some t \<and> lower_match True plain_shapes (VInt 1) = Some u \<and> same_run t u)"
proof -
  have "exact_arms plain_shapes" by (simp add: plain_shapes_def arm_evaluations)
  moreover have "list_all (\<lambda>(i, p, g). or_free p) (alternatives plain_shapes)" by code_simp
  ultimately show ?thesis using lowerings_agree by blast
qed



text \<open>
  C9: A match with an unguarded irrefutable arm, which analysis does not mark as able to fail,
  never raises \<^verbatim>\<open>:match-error\<close>, whatever its other arms are.
\<close>
theorem irrefutable_match_never_fails:
  assumes "list_ex (\<lambda>(p, g). \<not> g \<and> is_irrefutable p) arms" "lower_match b arms v = Some t"
  shows "trail_end t \<noteq> NoMatch"
proof -
  obtain i q where q: "(i, q, False) \<in> set (alternatives arms)" "is_wildcard q" using irrefutable_alternative [OF assms(1)] by blast
  then have row: "row_new [q] False i \<in> set (from_arms arms)" "catch_all (row_new [q] False i)"
    by (force simp: from_arms_rows first_rows_def, simp add: catch_all_def row_new_def)
  show ?thesis
  proof (cases b)
    case True
    then show ?thesis using assms(2) sequential_catch_all [OF q] by (auto simp: lower_match_def)
  next
    case False
    then obtain u where "compile_matrix (from_arms arms) [Root] = Some u" "t = run_tree u v"
      using assms(2) by (auto simp: lower_match_def compile_match_def)
    then show ?thesis using compile_catch_all [OF _ row] by simp
  qed
qed

lemma irrefutable_match_never_fails_witness:
  "(list_ex (\<lambda>(p, g). \<not> g \<and> is_irrefutable p) shapes \<and> lower_match False shapes (VInt 3) = Some (Done 3 [(0, VInt 3)]))
    \<and> trail_end (Done 3 [(0, VInt 3)]) \<noteq> NoMatch"
proof -
  have "list_ex (\<lambda>(p, g). \<not> g \<and> is_irrefutable p) shapes" by code_simp
  moreover have "lower_match False shapes (VInt 3) = Some (Done 3 [(0, VInt 3)])" by code_simp
  ultimately show ?thesis using irrefutable_match_never_fails by blast
qed

section \<open>Where they differ\<close>

definition overlapping_arrays :: "arm list" where
  "overlapping_arrays = [(PTuple [PNil] (Some Wildcard), False), (PTuple [PVar 0, PVar 1] None, False)]"

lemma overlapping_arrays_tree:
  "compile_match overlapping_arrays = Some (Switch Root
    [(CArrayRest 1, Switch (Index Root 0) [(CNil, Leaf 0 [])] None), (CArray 2, Leaf 1 [(0, Index Root 0), (1, Index Root 1)])] None)"
  by code_simp

lemmas run_evaluations = lower_match_def alternatives_def enumerate_eq_zip emit_constructor_test_def as_pair_def as_array_def
  as_array_mut_def array_ref_def as_u16_def length_ok_def of_load_def establish_def literal_test_def

text \<open>
  C14: Overlapping array patterns lose arms. With the arms \<^verbatim>\<open>[nil & _]\<close> and \<^verbatim>\<open>[a b]\<close>, which analysis
  accepts, the tree raises \<^verbatim>\<open>:match-error\<close> on every two-element array that starts with a number,
  where the sequential lowering selects the second arm.
\<close>
theorem overlapping_arrays_lose_arm:
  "unreachable_arms overlapping_arrays = Some []
    \<and> lower_match False overlapping_arrays (VArray [VInt n, y]) = Some NoMatch
    \<and> lower_match True overlapping_arrays (VArray [VInt n, y]) = Some (Done 1 [(0, VInt n), (1, y)])"
proof -
  have "unreachable_arms overlapping_arrays = Some []" by code_simp
  moreover have "lower_match False overlapping_arrays (VArray [VInt n, y]) = Some NoMatch"
    by (simp add: run_evaluations overlapping_arrays_tree)
  moreover have "lower_match True overlapping_arrays (VArray [VInt n, y]) = Some (Done 1 [(0, VInt n), (1, y)])"
    by (simp add: run_evaluations overlapping_arrays_def)
  ultimately show ?thesis by blast
qed



definition rest_only :: "arm list" where
  "rest_only = [(PList [] (Some (PVar 0)), False)]"

text \<open>
  C16: A list pattern with only a rest is compiled as a pair without fields. The arm \<^verbatim>\<open>(& r)\<close> binds
  \<^verbatim>\<open>r\<close> to any value in the sequential lowering; the tree runs its body on a pair with \<^verbatim>\<open>r\<close> never
  stored, and raises \<^verbatim>\<open>:match-error\<close> on the empty list.
\<close>
theorem rest_only_list_unbound:
  "lower_match False rest_only (VPair a d) = Some (Done 0 [])
    \<and> lower_match False rest_only VEmptyList = Some NoMatch
    \<and> lower_match True rest_only v = Some (Done 0 [(0, v)])"
proof -
  have "lower_match False rest_only (VPair a d) = Some (Done 0 [])" by code_simp
  moreover have "lower_match False rest_only VEmptyList = Some NoMatch" by code_simp
  moreover have "lower_match True rest_only v = Some (Done 0 [(0, v)])" by code_simp
  ultimately show ?thesis by blast
qed

definition equal_numbers :: "arm list" where
  "equal_numbers = [(PPair (PLiteral (LInt 1)) PNil, False), (PPair (PLiteral (LFloat 0x3FF0000000000000)) (PVar 0), False)]"

lemma equal_numbers_tree:
  "compile_match equal_numbers = Some (Switch Root
    [(CPair, Switch (First Root) [(CLiteral (LInt 1), Switch (Rest Root) [(CNil, Leaf 0 [])] None),
       (CLiteral (LFloat 0x3FF0000000000000), Leaf 1 [(0, Rest Root)])] None)] None)"
  by code_simp

lemma f64_one: "f64_of_int 1 = 0x3FF0000000000000"
  by (simp add: f64_of_int_def bit_length.simps)

text \<open>The integer and the float literal of one number overlap in the same way.\<close>

lemma equal_numbers_lose_arm:
  "lower_match False equal_numbers (VPair (VInt 1) (VInt n)) = Some NoMatch
    \<and> lower_match True equal_numbers (VPair (VInt 1) (VInt n)) = Some (Done 1 [(0, VInt n)])"
proof -
  have "f64_eq 0x3FF0000000000000 0x3FF0000000000000" by (simp add: f64_eq_def f64_nan_def)
  then have "lower_match True equal_numbers (VPair (VInt 1) (VInt n)) = Some (Done 1 [(0, VInt n)])"
    by (simp add: run_evaluations equal_numbers_def number_test_def as_number_def f64_one)
  moreover have "lower_match False equal_numbers (VPair (VInt 1) (VInt n)) = Some NoMatch"
    by (simp add: run_evaluations equal_numbers_tree)
  ultimately show ?thesis by blast
qed

end
