(* ===== verification/Match_Redundancy.thy ===== *)
theory Match_Redundancy
  imports Match_Claims
begin

text \<open>
  The search for dead or-pattern alternatives (\<^verbatim>\<open>hir/decision/redundancy.rs\<close>): each alternative is
  pinned in its pattern and asked of the decision-tree compiler. An index out of range and a branch
  the code calls unreachable panic, and answer \<^const>\<open>None\<close>.
\<close>

section \<open>Children\<close>

definition option_list :: "'a option \<Rightarrow> 'a list" where
  "option_list x = (case x of None \<Rightarrow> [] | Some y \<Rightarrow> [y])"

definition children :: "hir_pattern \<Rightarrow> hir_pattern list" where
  "children p =
     (case p of
        PPair h t \<Rightarrow> [h, t]
      | PList es rest \<Rightarrow> es @ option_list rest
      | PTuple es rest \<Rightarrow> es @ option_list rest
      | PArray es rest \<Rightarrow> es @ option_list rest
      | PStruct es rest \<Rightarrow> map snd es @ option_list rest
      | PTable es rest \<Rightarrow> map snd es @ option_list rest
      | PSet b \<Rightarrow> [b]
      | PSetMut b \<Rightarrow> [b]
      | POr alts \<Rightarrow> alts
      | _ \<Rightarrow> [])"

definition splice ::
  "hir_pattern list \<Rightarrow> hir_pattern option \<Rightarrow> nat \<Rightarrow> hir_pattern \<Rightarrow> hir_pattern list \<times> hir_pattern option" where
  "splice es rest i q = (if i < length es then (es[i := q], rest) else (es, Some q))"

definition splice_entries ::
  "(pattern_key \<times> hir_pattern) list \<Rightarrow> hir_pattern option \<Rightarrow> nat \<Rightarrow> hir_pattern
    \<Rightarrow> (pattern_key \<times> hir_pattern) list \<times> hir_pattern option" where
  "splice_entries es rest i q = (if i < length es then (es[i := (fst (es ! i), q)], rest) else (es, Some q))"

definition with_child :: "hir_pattern \<Rightarrow> nat \<Rightarrow> hir_pattern \<Rightarrow> hir_pattern option" where
  "with_child p i q =
     (case p of
        PPair h t \<Rightarrow> Some (if i = 0 then PPair q t else PPair h q)
      | PList es rest \<Rightarrow> (case splice es rest i q of (es', rest') \<Rightarrow> Some (PList es' rest'))
      | PTuple es rest \<Rightarrow> (case splice es rest i q of (es', rest') \<Rightarrow> Some (PTuple es' rest'))
      | PArray es rest \<Rightarrow> (case splice es rest i q of (es', rest') \<Rightarrow> Some (PArray es' rest'))
      | PStruct es rest \<Rightarrow> (case splice_entries es rest i q of (es', rest') \<Rightarrow> Some (PStruct es' rest'))
      | PTable es rest \<Rightarrow> (case splice_entries es rest i q of (es', rest') \<Rightarrow> Some (PTable es' rest'))
      | PSet b \<Rightarrow> Some (PSet q)
      | PSetMut b \<Rightarrow> Some (PSetMut q)
      | _ \<Rightarrow> None)"

lemma option_list_simps [simp]: "option_list None = []" "option_list (Some x) = [x]"
  by (simp_all add: option_list_def)


section \<open>Or-nodes\<close>





section \<open>The search\<close>







section \<open>Pinned patterns stay exact\<close>

definition is_or :: "hir_pattern \<Rightarrow> bool" where
  "is_or p = (case p of POr alts \<Rightarrow> True | _ \<Rightarrow> False)"








lemma update_good:
  assumes "\<And>p. p \<in> set es \<Longrightarrow> good C g p" "good C g q" "p \<in> set (es[i := q])"
  shows "good C g p"
  using assms set_update_subset_insert [of es i q] by blast












section \<open>What a dead alternative means\<close>


























section \<open>Claims\<close>

text \<open>
  C31: The two views of a pattern's children agree: writing a child and reading the children gives
  the list with that child replaced, and writing the old child back gives the pattern back.
\<close>
theorem with_child_agrees:
  assumes "i < length (children p)" "\<not> is_or p"
  shows "\<exists>p'. with_child p i q = Some p' \<and> children p' = (children p)[i := q] \<and> with_child p' i (children p ! i) = Some p"
proof -
  have e: "(es[i := (fst (es ! i), q)])[i := (fst (es[i := (fst (es ! i), q)] ! i), snd (es ! i))] = es"
    "map snd (es[i := (fst (es ! i), q)]) = (map snd es)[i := q]"
    if "i < length es" for es :: "(pattern_key \<times> hir_pattern) list" using that by (simp_all add: map_update)
  show ?thesis
  proof (cases p)
    case (PPair h t)
    then show ?thesis using assms by (cases i) (auto simp: children_def with_child_def)
  next
    case (PList es rest)
    then show ?thesis using assms(1) by (cases rest) (auto simp: children_def with_child_def splice_def list_update_append nth_append less_Suc_eq)
  next
    case (PTuple es rest)
    then show ?thesis using assms(1) by (cases rest) (auto simp: children_def with_child_def splice_def list_update_append nth_append less_Suc_eq)
  next
    case (PArray es rest)
    then show ?thesis using assms(1) by (cases rest) (auto simp: children_def with_child_def splice_def list_update_append nth_append less_Suc_eq)
  next
    case (PStruct es rest)
    then show ?thesis using assms(1) e [of es]
      by (cases rest) (auto simp: children_def with_child_def splice_entries_def list_update_append nth_append less_Suc_eq)
  next
    case (PTable es rest)
    then show ?thesis using assms(1) e [of es]
      by (cases rest) (auto simp: children_def with_child_def splice_entries_def list_update_append nth_append less_Suc_eq)
  qed (use assms in \<open>auto simp: children_def with_child_def is_or_def\<close>)
qed

lemma with_child_agrees_witness:
  "(1 < length (children (PTuple [PNil] (Some (PVar 0)))) \<and> \<not> is_or (PTuple [PNil] (Some (PVar 0))))
    \<and> (\<exists>p'. with_child (PTuple [PNil] (Some (PVar 0))) 1 (PVar 1) = Some p'
         \<and> children p' = (children (PTuple [PNil] (Some (PVar 0))))[1 := PVar 1]
         \<and> with_child p' 1 (children (PTuple [PNil] (Some (PVar 0))) ! 1) = Some (PTuple [PNil] (Some (PVar 0))))"
proof -
  have "1 < length (children (PTuple [PNil] (Some (PVar 0)))) \<and> \<not> is_or (PTuple [PNil] (Some (PVar 0)))"
    by (simp add: children_def is_or_def)
  then show ?thesis using with_child_agrees by blast
qed




end
